(* ===== verification/Prelude.thy ===== *)
theory Prelude
  imports Main "HOL-Library.Word" "HOL-Library.Multiset"
begin

text \<open>
  Shared vocabulary of the kernel model.

  \<^item> Machine integers: Rust's \<open>u8\<close>, \<open>u16\<close>, \<open>u32\<close>, \<open>u64\<close> are words of that width. An index
    written \<open>x as usize\<close> in the source (the target is 64-bit) is \<open>unat x\<close>.
  \<^item> Kernel panics (an index out of range, a failed \<open>expect\<close>) are values: a fallible kernel
    function returns \<open>panic + 'a\<close>, \<open>Inl\<close> for the panic. \<open>Halt\<close> is the kernel stopping the machine
    (\<open>crate::halt\<close>, reached from a fault in kernel mode), \<open>Undefined\<close> is undefined behaviour of Rust,
    reached when an \<open>unsafe\<close> block is used outside its contract.
  \<^item> Tables: \<open>Vec::get\<close> (\<open>vec_get\<close>), \<open>Iterator::position\<close> (\<open>find_index\<close>), the
    "put it into the first empty slot" loop the kernel repeats for capabilities, handles and
    tasks (\<open>insert_first\<close>), and the "extend, then overwrite row" helper (\<open>set_row\<close>).
  The lemma collections \<open>slot_simps\<close> and \<open>row_simps\<close> carry the component proofs.
\<close>

unbundle bit_operations_syntax

named_theorems slot_simps \<open>facts on slot arrays\<close>
named_theorems row_simps \<open>facts on per-domain tables\<close>

section \<open>Machine integers and panics\<close>

type_synonym u8 = "8 word"
type_synonym u16 = "16 word"
type_synonym u32 = "32 word"
type_synonym u64 = "64 word"

abbreviation (input) U64_MAX :: u64 where
  "U64_MAX \<equiv> 0xFFFFFFFFFFFFFFFF"

datatype panic =
    IndexOutOfBounds
  | ExpectFailed
  | Overflow
  | MapFailed
  | NonCanonical
  | UnreachableCode
  | Halt
  | Undefined

type_synonym 'a res = "panic + 'a"

definition bind_res :: "'a res \<Rightarrow> ('a \<Rightarrow> 'b res) \<Rightarrow> 'b res" where
  "bind_res r f = (case r of Inl p \<Rightarrow> Inl p | Inr a \<Rightarrow> f a)"

lemma bind_res_simps [simp]:
  "bind_res (Inl p) f = Inl p"
  "bind_res (Inr a) f = f a"
  by (simp_all add: bind_res_def)

lemma bind_res_Inr_iff: "bind_res r f = Inr b \<longleftrightarrow> (\<exists>a. r = Inr a \<and> f a = Inr b)"
  by (cases r) simp_all

text \<open>\<open>checked_add\<close>/\<open>saturating_sub\<close>/\<open>saturating_mul\<close> on unsigned words.\<close>

definition checked_add :: "'a::len word \<Rightarrow> 'a word \<Rightarrow> 'a word option" where
  "checked_add a b = (if unat a + unat b < 2 ^ LENGTH('a) then Some (a + b) else None)"

definition checked_mul :: "'a::len word \<Rightarrow> 'a word \<Rightarrow> 'a word option" where
  "checked_mul a b = (if unat a * unat b < 2 ^ LENGTH('a) then Some (a * b) else None)"

definition saturating_sub :: "'a::len word \<Rightarrow> 'a word \<Rightarrow> 'a word" where
  "saturating_sub a b = (if b \<le> a then a - b else 0)"

lemma checked_add_Some_unat:
  "checked_add a b = Some c \<Longrightarrow> unat c = unat a + unat b"
  by (auto simp: checked_add_def unat_word_ariths split: if_splits)

lemma checked_add_Some_iff:
  "checked_add a b = Some c \<longleftrightarrow> c = a + b \<and> unat a + unat b < 2 ^ LENGTH('a)"
  for a b c :: "'a::len word"
  by (auto simp: checked_add_def)

lemma checked_mul_Some_unat:
  "checked_mul a b = Some c \<Longrightarrow> unat c = unat a * unat b"
  by (auto simp: checked_mul_def unat_word_ariths split: if_splits)

lemma saturating_sub_unat: "unat (saturating_sub a b) = unat a - unat b"
  by (simp add: saturating_sub_def unat_sub word_le_nat_alt)

lemma unat_inj_iff [simp]: "unat a = unat b \<longleftrightarrow> a = b"
  by (simp add: word_unat_eq_iff)

lemma unat_of_nat_u64: "i < 2 ^ 64 \<Longrightarrow> unat (of_nat i :: u64) = i"
  by (simp add: unat_of_nat)

lemma take_bit_self_u64:
  fixes w :: u64
  assumes "unat w < 2 ^ n"
  shows "take_bit n w = w"
proof -
  have "unat (take_bit n w) = take_bit n (unat w)" by (simp add: unsigned_take_bit_eq)
  also have "\<dots> = unat w" using assms by (rule take_bit_nat_eq_self)
  finally show ?thesis by simp
qed

section \<open>Vectors\<close>

definition vec_get :: "'a list \<Rightarrow> nat \<Rightarrow> 'a option" where
  "vec_get xs i = (if i < length xs then Some (xs ! i) else None)"

lemma vec_get_Some_iff: "vec_get xs i = Some x \<longleftrightarrow> i < length xs \<and> xs ! i = x"
  by (auto simp: vec_get_def)

lemma vec_get_None_iff: "vec_get xs i = None \<longleftrightarrow> length xs \<le> i"
  by (auto simp: vec_get_def)

lemma vec_get_update:
  "vec_get (xs[j := y]) i = (if i = j \<and> i < length xs then Some y else vec_get xs i)"
  by (auto simp: vec_get_def)

lemma list_update_same_iff: "i < length xs \<Longrightarrow> xs = xs[i := x] \<longleftrightarrow> xs ! i = x"
  by (metis list_update_same_conv)

definition index_res :: "'a list \<Rightarrow> nat \<Rightarrow> 'a res" where
  "index_res xs i = (if i < length xs then Inr (xs ! i) else Inl IndexOutOfBounds)"

lemma index_res_Inr_iff: "index_res xs i = Inr x \<longleftrightarrow> i < length xs \<and> xs ! i = x"
  by (auto simp: index_res_def)

lemma index_res_in [simp]: "i < length xs \<Longrightarrow> index_res xs i = Inr (xs ! i)"
  by (simp add: index_res_def)

fun find_index :: "('a \<Rightarrow> bool) \<Rightarrow> 'a list \<Rightarrow> nat option" where
  "find_index P [] = None"
| "find_index P (x # xs) = (if P x then Some 0 else map_option Suc (find_index P xs))"

lemma find_index_None_iff: "find_index P xs = None \<longleftrightarrow> (\<forall>x \<in> set xs. \<not> P x)"
  by (induction xs) auto

lemma find_index_Some_iff:
  "find_index P xs = Some i \<longleftrightarrow> i < length xs \<and> P (xs ! i) \<and> (\<forall>j < i. \<not> P (xs ! j))"
proof (induction xs arbitrary: i)
  case Nil
  then show ?case by simp
next
  case (Cons x xs)
  show ?case
  proof (cases i)
    case 0
    then show ?thesis by auto
  next
    case (Suc k)
    then show ?thesis using Cons.IH [of k] by (auto simp: less_Suc_eq_0_disj)
  qed
qed

lemma find_index_SomeD:
  assumes "find_index P xs = Some i"
  shows "i < length xs" and "P (xs ! i)" and "j < i \<Longrightarrow> \<not> P (xs ! j)"
  using assms by (auto simp: find_index_Some_iff)

lemma find_index_ex: "x \<in> set xs \<Longrightarrow> P x \<Longrightarrow> \<exists>i. find_index P xs = Some i"
  by (metis find_index_None_iff option.exhaust)

section \<open>Slot arrays\<close>

text \<open>A slot array is a fixed-size array of \<open>Option\<close>s; \<open>None\<close> is a free slot.\<close>

definition insert_first :: "'a \<Rightarrow> 'a option list \<Rightarrow> (nat \<times> 'a option list) option" where
  "insert_first x slots =
     (case find_index (\<lambda>s. s = None) slots of
        None \<Rightarrow> None
      | Some i \<Rightarrow> Some (i, slots[i := Some x]))"

primrec slot_mset :: "'a option list \<Rightarrow> 'a multiset" where
  "slot_mset [] = {#}"
| "slot_mset (s # ss) = (case s of None \<Rightarrow> {#} | Some x \<Rightarrow> {#x#}) + slot_mset ss"

abbreviation opt_mset :: "'a option \<Rightarrow> 'a multiset" where
  "opt_mset s \<equiv> (case s of None \<Rightarrow> {#} | Some x \<Rightarrow> {#x#})"

lemma insert_first_Some_iff:
  "insert_first x slots = Some (i, slots') \<longleftrightarrow>
     i < length slots \<and> slots ! i = None \<and> (\<forall>j < i. slots ! j \<noteq> None) \<and> slots' = slots[i := Some x]"
proof -
  have "find_index (\<lambda>s. s = None) slots = Some i \<longleftrightarrow>
      i < length slots \<and> slots ! i = None \<and> (\<forall>j < i. slots ! j \<noteq> None)"
    by (simp add: find_index_Some_iff)
  then show ?thesis by (auto simp: insert_first_def simp del: not_None_eq split: option.splits)
qed

lemma insert_first_None_iff: "insert_first x slots = None \<longleftrightarrow> None \<notin> set slots"
  using find_index_None_iff [of "\<lambda>s. s = None" slots]
  by (auto simp: insert_first_def simp del: not_None_eq split: option.splits)

lemma insert_first_length [slot_simps]:
  "insert_first x slots = Some (i, slots') \<Longrightarrow> length slots' = length slots"
  by (auto simp: insert_first_Some_iff)

lemma insert_first_set:
  "insert_first x slots = Some (i, slots') \<Longrightarrow> set slots' \<subseteq> insert (Some x) (set slots)"
  by (auto simp: insert_first_Some_iff dest: set_update_subset_insert [THEN subsetD])

lemma insert_first_mem:
  "insert_first x slots = Some (i, slots') \<Longrightarrow> Some x \<in> set slots'"
  by (auto simp: insert_first_Some_iff set_update_memI)

lemma insert_first_keeps:
  "insert_first x slots = Some (i, slots') \<Longrightarrow> Some y \<in> set slots \<Longrightarrow> Some y \<in> set slots'"
  by (simp add: insert_first_Some_iff in_set_conv_nth nth_list_update) (metis option.distinct(1))

lemma slot_mset_update:
  "i < length slots \<Longrightarrow>
     slot_mset (slots[i := s]) + opt_mset (slots ! i) = slot_mset slots + opt_mset s"
proof (induction slots arbitrary: i)
  case Nil
  then show ?case by simp
next
  case (Cons a slots)
  then show ?case by (cases i) (auto simp: ac_simps)
qed

lemma slot_mset_insert_first [slot_simps]:
  "insert_first x slots = Some (i, slots') \<Longrightarrow> slot_mset slots' = add_mset x (slot_mset slots)"
  using slot_mset_update [of i slots "Some x"] by (auto simp: insert_first_Some_iff)

lemma slot_mset_blank [simp]: "slot_mset (replicate n None) = {#}"
  by (induction n) auto

lemma set_slot_mset: "x \<in># slot_mset slots \<longleftrightarrow> Some x \<in> set slots"
  by (induction slots) (auto split: option.splits)

section \<open>Tables indexed by domain\<close>

text \<open>
  The kernel keeps \<open>Vec\<close>s indexed by domain id. \<open>set_row\<close> extends the vector with a filler
  until the index exists and then overwrites that row (\<open>cap::set_row\<close>,
  \<open>ipc::set_mailbox\<close>, \<open>pager::set_pager\<close>).
\<close>

function pad_to :: "nat \<Rightarrow> 'a \<Rightarrow> 'a list \<Rightarrow> 'a list" where
  "pad_to idx fill table = (if length table \<le> idx then pad_to idx fill (table @ [fill]) else table)"
  by pat_completeness auto
termination
  by (relation "measure (\<lambda>(idx, fill, table). Suc idx - length table)") auto

declare pad_to.simps [simp del]

definition set_row :: "nat \<Rightarrow> 'a \<Rightarrow> 'a \<Rightarrow> 'a list \<Rightarrow> 'a list" where
  "set_row idx fill row table = (pad_to idx fill table)[idx := row]"

lemma pad_to_eq: "pad_to idx fill table = table @ replicate (Suc idx - length table) fill"
proof (induction idx fill table rule: pad_to.induct)
  case (1 idx fill table)
  show ?case
  proof (cases "length table \<le> idx")
    case True
    then have "Suc idx - length table = Suc (Suc idx - length (table @ [fill]))" by simp
    with 1 True show ?thesis by (simp add: pad_to.simps [of idx fill table])
  next
    case False
    then show ?thesis by (simp add: pad_to.simps [of idx fill table])
  qed
qed

lemma length_set_row [row_simps]: "length (set_row idx fill row table) = max (length table) (Suc idx)"
  by (simp add: set_row_def pad_to_eq)

lemma set_row_same [row_simps]: "set_row idx fill row table ! idx = row"
  by (simp add: set_row_def pad_to_eq)

lemma set_row_other_in [row_simps]:
  "i \<noteq> idx \<Longrightarrow> i < length table \<Longrightarrow> set_row idx fill row table ! i = table ! i"
  by (simp add: set_row_def pad_to_eq nth_append)

lemma set_row_other_pad [row_simps]:
  "i < idx \<Longrightarrow> length table \<le> i \<Longrightarrow> set_row idx fill row table ! i = fill"
  by (simp add: set_row_def pad_to_eq nth_append)

text \<open>Reading a row with a default for ids the vector does not reach.\<close>

definition row_or :: "'a \<Rightarrow> 'a list \<Rightarrow> nat \<Rightarrow> 'a" where
  "row_or dflt table i = (if i < length table then table ! i else dflt)"

lemma row_or_set_row:
  "row_or dflt (set_row idx dflt row table) i = (if i = idx then row else row_or dflt table i)"
proof (cases "i < length table")
  case True
  then show ?thesis by (auto simp: row_or_def row_simps)
next
  case False
  then show ?thesis by (auto simp: row_or_def row_simps)
qed

lemma row_or_update:
  "idx < length table \<Longrightarrow>
     row_or dflt (table[idx := row]) i = (if i = idx then row else row_or dflt table i)"
  by (simp add: row_or_def)

lemma set_row_elems: "set (set_row idx fill row table) \<subseteq> insert row (insert fill (set table))"
  unfolding set_row_def pad_to_eq
  by (rule subset_trans [OF set_update_subset_insert]) (auto split: if_splits)

definition table_mset :: "'a option list list \<Rightarrow> 'a multiset" where
  "table_mset table = sum_list (map slot_mset table)"

lemma table_mset_update:
  "i < length table \<Longrightarrow>
     table_mset (table[i := row]) + slot_mset (table ! i) = table_mset table + slot_mset row"
proof (induction table arbitrary: i)
  case Nil
  then show ?case by simp
next
  case (Cons a table)
  then show ?case by (cases i) (auto simp: table_mset_def ac_simps)
qed

lemma table_mset_drop:
  assumes "i < length table" and "j < length (table ! i)" and "table ! i ! j = Some x"
  shows "add_mset x (table_mset (table[i := (table ! i)[j := None]])) = table_mset table"
proof -
  let ?R = "slot_mset (table ! i)" and ?R' = "slot_mset ((table ! i)[j := None])"
    and ?A' = "table_mset (table[i := (table ! i)[j := None]])"
  have R: "add_mset x ?R' = ?R" using slot_mset_update [OF assms(2), of None] assms(3) by simp
  have "?A' + ?R = table_mset table + ?R'" by (rule table_mset_update [OF assms(1)])
  then have "?A' + add_mset x ?R' = table_mset table + ?R'" by (simp only: R)
  then have "add_mset x ?A' + ?R' = table_mset table + ?R'" by simp
  then show ?thesis by (simp only: add_right_cancel)
qed

lemma table_mset_put:
  assumes "i < length table" and "j < length (table ! i)" and "table ! i ! j = None"
  shows "table_mset (table[i := (table ! i)[j := Some x]]) = add_mset x (table_mset table)"
proof -
  let ?R = "slot_mset (table ! i)" and ?R' = "slot_mset ((table ! i)[j := Some x])"
    and ?A' = "table_mset (table[i := (table ! i)[j := Some x]])"
  have R: "?R' = add_mset x ?R" using slot_mset_update [OF assms(2), of "Some x"] assms(3) by simp
  have "?A' + ?R = table_mset table + ?R'" by (rule table_mset_update [OF assms(1)])
  then have "?A' + ?R = add_mset x (table_mset table) + ?R" by (simp only: R) simp
  then show ?thesis by (simp only: add_right_cancel)
qed

end
