(* ===== verification/Interfaces.thy ===== *)
theory Interfaces
  imports Prelude
begin

text \<open>
  The contracts between kernel components, as locales. Each is interpreted on the model's own
  definitions in the theory of the component that provides it:
  \<^item> \<open>per_domain_table\<close>: a table with one row per domain id whose \<open>reset\<close> empties exactly
    one row (capabilities, handles, mailboxes, pagers, interrupt registrations). Domain
    creation and destruction rely on it.
  \<^item> \<open>handle_store\<close>: issuing, looking up and dropping handles.
  \<^item> \<open>bounded_fifo\<close>: a queue that refuses new elements when full (key ring, mailboxes).
  \<^item> \<open>frame_source\<close>: an allocator that never hands out a frame twice.
\<close>

section \<open>One row per domain\<close>

locale per_domain_table =
  fixes row :: "'s \<Rightarrow> u64 \<Rightarrow> 'r"
    and reset :: "u64 \<Rightarrow> 's \<Rightarrow> 's"
    and blank :: 'r
  assumes reset_same: "row (reset d s) d = blank"
    and reset_other: "e \<noteq> d \<Longrightarrow> row (reset d s) e = row s e"
begin

lemma row_reset: "row (reset d s) e = (if e = d then blank else row s e)"
  by (simp add: reset_same reset_other)

lemma reset_idem: "row (reset d (reset d s)) e = row (reset d s) e"
  by (simp add: row_reset)

lemma reset_commute: "row (reset d (reset d' s)) e = row (reset d' (reset d s)) e"
  by (simp add: row_reset)

lemma row_resets: "row (fold reset ds s) e = (if e \<in> set ds then blank else row s e)"
  by (induction ds arbitrary: s) (auto simp: row_reset)

end

section \<open>Handles\<close>

locale handle_store =
  fixes issue :: "u64 \<Rightarrow> 'o \<Rightarrow> 's \<Rightarrow> u64 \<times> 's"
    and lookup :: "u64 \<Rightarrow> u64 \<Rightarrow> 's \<Rightarrow> 'o option"
    and drop_h :: "u64 \<Rightarrow> u64 \<Rightarrow> 's \<Rightarrow> bool \<times> 's"
    and inv :: "'s \<Rightarrow> bool"
  assumes inv_issue: "inv s \<Longrightarrow> inv (snd (issue d x s))"
    and inv_drop: "inv s \<Longrightarrow> inv (snd (drop_h d h s))"
    and issue_fail: "inv s \<Longrightarrow> fst (issue d x s) = U64_MAX \<Longrightarrow> snd (issue d x s) = s"
    and issue_fresh: "inv s \<Longrightarrow> fst (issue d x s) \<noteq> U64_MAX \<Longrightarrow>
          lookup d (fst (issue d x s)) s = None"
    and issue_lookup: "inv s \<Longrightarrow> fst (issue d x s) \<noteq> U64_MAX \<Longrightarrow>
          lookup e h (snd (issue d x s)) =
            (if e = d \<and> h = fst (issue d x s) then Some x else lookup e h s)"
    and drop_ok: "inv s \<Longrightarrow> fst (drop_h d h s) \<longleftrightarrow> lookup d h s \<noteq> None"
    and drop_lookup: "inv s \<Longrightarrow>
          lookup e k (snd (drop_h d h s)) = (if e = d \<and> k = h then None else lookup e k s)"
begin

text \<open>A handle works from issue until it is dropped, and nothing in between disturbs others.\<close>

lemma issue_then_drop:
  assumes "inv s" and "fst (issue d x s) \<noteq> U64_MAX"
  shows "fst (drop_h d (fst (issue d x s)) (snd (issue d x s)))"
    and "lookup e k (snd (drop_h d (fst (issue d x s)) (snd (issue d x s)))) = lookup e k s"
proof -
  let ?h = "fst (issue d x s)" and ?s = "snd (issue d x s)"
  have i: "inv ?s" using assms(1) by (rule inv_issue)
  show "fst (drop_h d ?h ?s)"
    by (simp add: drop_ok [OF i] issue_lookup [OF assms])
  show "lookup e k (snd (drop_h d ?h ?s)) = lookup e k s"
    using issue_fresh [OF assms] by (simp add: drop_lookup [OF i] issue_lookup [OF assms])
qed

lemma issue_twice_distinct:
  assumes "inv s" and "fst (issue d x s) \<noteq> U64_MAX"
    and "fst (issue d y (snd (issue d x s))) \<noteq> U64_MAX"
  shows "fst (issue d y (snd (issue d x s))) \<noteq> fst (issue d x s)"
  using issue_fresh [OF inv_issue [OF assms(1)] assms(3)] issue_lookup [OF assms(1,2)] by auto

lemma dropped_stays_dead:
  assumes "inv s"
  shows "\<not> fst (drop_h d h (snd (drop_h d h s)))"
    and "lookup d h (snd (drop_h d h s)) = None"
  using drop_ok [OF inv_drop [OF assms]] drop_lookup [OF assms] by auto

end

section \<open>Bounded queues that drop new elements when full\<close>

primrec push_all :: "('a \<Rightarrow> 'q \<Rightarrow> bool \<times> 'q) \<Rightarrow> 'a list \<Rightarrow> 'q \<Rightarrow> 'q" where
  "push_all psh [] q = q"
| "push_all psh (x # xs) q = push_all psh xs (snd (psh x q))"

primrec drain :: "('q \<Rightarrow> 'a option \<times> 'q) \<Rightarrow> nat \<Rightarrow> 'q \<Rightarrow> 'a option list" where
  "drain pp 0 q = []"
| "drain pp (Suc n) q = fst (pp q) # drain pp n (snd (pp q))"

locale bounded_fifo =
  fixes contents :: "'q \<Rightarrow> 'a list"
    and push :: "'a \<Rightarrow> 'q \<Rightarrow> bool \<times> 'q"
    and pop :: "'q \<Rightarrow> 'a option \<times> 'q"
    and capacity :: nat
    and inv :: "'q \<Rightarrow> bool"
  assumes inv_push: "inv q \<Longrightarrow> inv (snd (push x q))"
    and inv_pop: "inv q \<Longrightarrow> inv (snd (pop q))"
    and push_room: "inv q \<Longrightarrow> length (contents q) < capacity \<Longrightarrow>
          fst (push x q) \<and> contents (snd (push x q)) = contents q @ [x]"
    and push_full: "inv q \<Longrightarrow> capacity \<le> length (contents q) \<Longrightarrow> push x q = (False, q)"
    and pop_empty: "inv q \<Longrightarrow> contents q = [] \<Longrightarrow> pop q = (None, q)"
    and pop_cons: "inv q \<Longrightarrow> contents q = x # xs \<Longrightarrow>
          fst (pop q) = Some x \<and> contents (snd (pop q)) = xs"
begin

lemma contents_push:
  assumes "inv q"
  shows "contents (snd (push x q)) =
    (if length (contents q) < capacity then contents q @ [x] else contents q)"
  using assms push_room push_full by auto

lemma inv_push_all: "inv q \<Longrightarrow> inv (push_all push xs q)"
  by (induction xs arbitrary: q) (auto intro: inv_push)

lemma contents_push_all:
  assumes "inv q" and "length (contents q) \<le> capacity"
  shows "contents (push_all push xs q) = take capacity (contents q @ xs)"
  using assms
proof (induction xs arbitrary: q)
  case Nil
  then show ?case by simp
next
  case (Cons x xs)
  from Cons.prems have i: "inv (snd (push x q))" by (simp add: inv_push)
  show ?case
  proof (cases "length (contents q) < capacity")
    case True
    with Cons.prems have "contents (snd (push x q)) = contents q @ [x]"
      by (simp add: contents_push)
    with Cons.IH [OF i] True show ?thesis by simp
  next
    case False
    with Cons.prems have "contents (snd (push x q)) = contents q"
      by (simp add: contents_push)
    with Cons.IH [OF i] Cons.prems(2) False show ?thesis by simp
  qed
qed

lemma drain_contents:
  assumes "inv q"
  shows "drain pop (length (contents q)) q = map Some (contents q)"
  using assms
proof (induction "contents q" arbitrary: q)
  case Nil
  then show ?case by (metis drain.simps(1) list.map(1) list.size(3))
next
  case (Cons x xs)
  note e = Cons.hyps(2) [symmetric]
  from pop_cons [OF Cons.prems e] have p: "fst (pop q) = Some x" "contents (snd (pop q)) = xs"
    by simp_all
  from Cons.hyps(1) [OF p(2) [symmetric] inv_pop [OF Cons.prems]] p e show ?case by simp
qed

text \<open>Everything pushed while there is room comes out again, in order.\<close>

lemma fifo_order:
  assumes "inv q" and "contents q = []" and "length xs \<le> capacity"
  shows "drain pop (length xs) (push_all push xs q) = map Some xs"
proof -
  have "contents (push_all push xs q) = xs"
    using contents_push_all [OF assms(1)] assms(2,3) by simp
  then show ?thesis using drain_contents [OF inv_push_all [OF assms(1)], of xs] by simp
qed

end

section \<open>Allocators\<close>

primrec alloc_many :: "('s \<Rightarrow> (u64 \<times> 's) option) \<Rightarrow> nat \<Rightarrow> 's \<Rightarrow> (u64 list \<times> 's) option" where
  "alloc_many al 0 s = Some ([], s)"
| "alloc_many al (Suc n) s =
     (case al s of
        None \<Rightarrow> None
      | Some (p, s') \<Rightarrow>
          (case alloc_many al n s' of None \<Rightarrow> None | Some (ps, s'') \<Rightarrow> Some (p # ps, s'')))"

locale frame_source =
  fixes alloc :: "'s \<Rightarrow> (u64 \<times> 's) option"
    and is_free :: "'s \<Rightarrow> u64 \<Rightarrow> bool"
    and inv :: "'s \<Rightarrow> bool"
  assumes inv_alloc: "inv s \<Longrightarrow> alloc s = Some (p, s') \<Longrightarrow> inv s'"
    and alloc_free: "inv s \<Longrightarrow> alloc s = Some (p, s') \<Longrightarrow> is_free s p"
    and alloc_taken: "inv s \<Longrightarrow> alloc s = Some (p, s') \<Longrightarrow>
          is_free s' q \<longleftrightarrow> is_free s q \<and> q \<noteq> p"
    and alloc_none: "inv s \<Longrightarrow> alloc s = None \<Longrightarrow> \<not> is_free s q"
begin

lemma alloc_many_sound:
  assumes "inv s" and "alloc_many alloc n s = Some (ps, s')"
  shows "inv s' \<and> distinct ps \<and> length ps = n \<and> (\<forall>p \<in> set ps. is_free s p) \<and>
    (\<forall>q. is_free s' q \<longleftrightarrow> is_free s q \<and> q \<notin> set ps)"
  using assms
proof (induction n arbitrary: s ps)
  case 0
  then show ?case by simp
next
  case (Suc n)
  from Suc.prems(2) obtain p s1 qs where
      a: "alloc s = Some (p, s1)" and r: "alloc_many alloc n s1 = Some (qs, s')" and ps: "ps = p # qs"
    by (auto split: option.splits)
  note IH = Suc.IH [OF inv_alloc [OF Suc.prems(1) a] r]
  show ?case
    using IH ps alloc_free [OF Suc.prems(1) a] alloc_taken [OF Suc.prems(1) a] by auto
qed

end

end
