(* ===== verification/Cap.thy ===== *)
theory Cap
  imports Interfaces
begin

text \<open>
  The capability system, \<open>kernel/src/cap.rs\<close>: the capability slot table and the handle slot
  table, one row per domain, with every operation of the module. The interrupt-disable and lock
  brackets of the source make each function atomic; here each is one state transformer.
  Shown: no amplification and confinement of authority, conservation of handles under
  \<open>handle_move\<close>, handle round trips, the encodings of \<open>decode\<close> and \<open>pack_audit\<close>, and that
  a destroyed or reused row is empty.
\<close>

section \<open>Capabilities and their encodings\<close>

datatype capability =
    SendTo u64
  | MapInto u64
  | Irq u8
  | Mmio u64
  | IoPort u16 u16
  | Net u16 u16
  | Fb
  | Spawn

definition CAP_SLOTS :: nat where
  "CAP_SLOTS = 32"

definition HANDLE_SLOTS :: nat where
  "HANDLE_SLOTS = 32"

abbreviation (input) CAP_KIND_SEND_TO :: u64 where "CAP_KIND_SEND_TO \<equiv> 0"
abbreviation (input) CAP_KIND_MAP_INTO :: u64 where "CAP_KIND_MAP_INTO \<equiv> 1"
abbreviation (input) CAP_KIND_IRQ :: u64 where "CAP_KIND_IRQ \<equiv> 2"
abbreviation (input) CAP_KIND_MMIO :: u64 where "CAP_KIND_MMIO \<equiv> 3"
abbreviation (input) CAP_KIND_SPAWN :: u64 where "CAP_KIND_SPAWN \<equiv> 4"
abbreviation (input) CAP_KIND_FB :: u64 where "CAP_KIND_FB \<equiv> 5"
abbreviation (input) CAP_KIND_IO_PORT :: u64 where "CAP_KIND_IO_PORT \<equiv> 6"
abbreviation (input) CAP_KIND_NET :: u64 where "CAP_KIND_NET \<equiv> 7"

definition decode :: "u64 \<Rightarrow> u64 \<Rightarrow> capability option" where
  "decode kind arg =
     (if kind = CAP_KIND_SEND_TO then Some (SendTo arg)
      else if kind = CAP_KIND_MAP_INTO then Some (MapInto arg)
      else if kind = CAP_KIND_IRQ \<and> arg \<le> 0xFF then Some (Irq (ucast arg))
      else if kind = CAP_KIND_MMIO \<and> arg AND 0xFFF = 0 then Some (Mmio arg)
      else if kind = CAP_KIND_SPAWN then Some Spawn
      else if kind = CAP_KIND_FB then Some Fb
      else if kind = CAP_KIND_IO_PORT \<and> drop_bit 32 arg = 0 \<and> arg AND 0xFFFF \<noteq> 0 then
        (let base = (ucast (drop_bit 16 arg) :: u16); len = (ucast (arg AND 0xFFFF) :: u16) in
         if (ucast base :: u64) + ucast len \<le> 0x10000 then Some (IoPort base len) else None)
      else if kind = CAP_KIND_NET \<and> drop_bit 32 arg = 0 then
        (let lo = (ucast (drop_bit 16 arg) :: u16); hi = (ucast (arg AND 0xFFFF) :: u16) in
         if lo \<le> hi then Some (Net lo hi) else None)
      else None)"

fun cap_kind :: "capability \<Rightarrow> u64" where
  "cap_kind (SendTo d) = CAP_KIND_SEND_TO"
| "cap_kind (MapInto d) = CAP_KIND_MAP_INTO"
| "cap_kind (Irq v) = CAP_KIND_IRQ"
| "cap_kind (Mmio p) = CAP_KIND_MMIO"
| "cap_kind Spawn = CAP_KIND_SPAWN"
| "cap_kind Fb = CAP_KIND_FB"
| "cap_kind (IoPort base len) = CAP_KIND_IO_PORT"
| "cap_kind (Net lo hi) = CAP_KIND_NET"

fun cap_arg :: "capability \<Rightarrow> u64" where
  "cap_arg (SendTo d) = d"
| "cap_arg (MapInto d) = d"
| "cap_arg (Irq v) = ucast v"
| "cap_arg (Mmio p) = p"
| "cap_arg Spawn = 0"
| "cap_arg Fb = 0"
| "cap_arg (IoPort base len) = push_bit 16 (ucast base) OR ucast len"
| "cap_arg (Net lo hi) = push_bit 16 (ucast lo) OR ucast hi"

definition pack_audit :: "capability \<Rightarrow> u64" where
  "pack_audit cap = push_bit 56 (cap_kind cap + 1) OR cap_arg cap"

section \<open>The tables and their operations\<close>

type_synonym cap_slots = "capability option list"
type_synonym handle_slots = "u64 option list"

record cap_state =
  cap_table :: "cap_slots list"
  handle_table :: "handle_slots list"

abbreviation blank_caps :: cap_slots where
  "blank_caps \<equiv> replicate CAP_SLOTS None"

abbreviation blank_handles :: handle_slots where
  "blank_handles \<equiv> replicate HANDLE_SLOTS None"

definition cap_init :: "nat \<Rightarrow> cap_state" where
  "cap_init domain_count =
     \<lparr>cap_table = replicate domain_count blank_caps,
      handle_table = replicate domain_count blank_handles\<rparr>"

definition cap_add_domain :: "u64 \<Rightarrow> cap_state \<Rightarrow> cap_state" where
  "cap_add_domain d s =
     s\<lparr>cap_table := set_row (unat d) blank_caps blank_caps (cap_table s),
       handle_table := set_row (unat d) blank_handles blank_handles (handle_table s)\<rparr>"

definition cap_remove_domain :: "u64 \<Rightarrow> cap_state \<Rightarrow> cap_state" where
  "cap_remove_domain d s =
     s\<lparr>cap_table := set_row (unat d) blank_caps blank_caps (cap_table s),
       handle_table := set_row (unat d) blank_handles blank_handles (handle_table s)\<rparr>"

definition handle_issue :: "u64 \<Rightarrow> u64 \<Rightarrow> cap_state \<Rightarrow> u64 \<times> cap_state" where
  "handle_issue d obj s =
     (case vec_get (handle_table s) (unat d) of
        None \<Rightarrow> (U64_MAX, s)
      | Some slots \<Rightarrow>
          (case insert_first obj slots of
             None \<Rightarrow> (U64_MAX, s)
           | Some (i, slots') \<Rightarrow>
               (of_nat i, s\<lparr>handle_table := (handle_table s)[unat d := slots']\<rparr>)))"

definition handle_lookup :: "u64 \<Rightarrow> u64 \<Rightarrow> cap_state \<Rightarrow> u64 option" where
  "handle_lookup d h s =
     (case vec_get (handle_table s) (unat d) of
        None \<Rightarrow> None
      | Some slots \<Rightarrow> (case vec_get slots (unat h) of None \<Rightarrow> None | Some slot \<Rightarrow> slot))"

definition handle_drop :: "u64 \<Rightarrow> u64 \<Rightarrow> cap_state \<Rightarrow> bool \<times> cap_state" where
  "handle_drop d h s =
     (case vec_get (handle_table s) (unat d) of
        None \<Rightarrow> (False, s)
      | Some slots \<Rightarrow>
          (case vec_get slots (unat h) of
             Some (Some obj) \<Rightarrow>
               (True, s\<lparr>handle_table := (handle_table s)[unat d := slots[unat h := None]]\<rparr>)
           | _ \<Rightarrow> (False, s)))"

definition cap_has :: "u64 \<Rightarrow> capability \<Rightarrow> cap_state \<Rightarrow> bool res" where
  "cap_has d cap s =
     bind_res (index_res (cap_table s) (unat d)) (\<lambda>slots. Inr (Some cap \<in> set slots))"

definition port_in_range :: "u16 \<Rightarrow> u16 \<Rightarrow> u16 \<Rightarrow> bool" where
  "port_in_range base len port \<longleftrightarrow>
     base \<le> port \<and> (ucast port :: u32) < ucast base + ucast len"

definition has_port :: "u64 \<Rightarrow> u16 \<Rightarrow> cap_state \<Rightarrow> bool" where
  "has_port d port s =
     (case vec_get (cap_table s) (unat d) of
        None \<Rightarrow> False
      | Some slots \<Rightarrow>
          list_ex (\<lambda>slot. case slot of Some (IoPort base len) \<Rightarrow> port_in_range base len port
                                     | _ \<Rightarrow> False) slots)"

definition net_port_in_range :: "u16 \<Rightarrow> u16 \<Rightarrow> u16 \<Rightarrow> bool" where
  "net_port_in_range lo hi port \<longleftrightarrow> lo \<le> port \<and> port \<le> hi"

definition has_net_port :: "u64 \<Rightarrow> u16 \<Rightarrow> cap_state \<Rightarrow> bool" where
  "has_net_port d port s =
     (case vec_get (cap_table s) (unat d) of
        None \<Rightarrow> False
      | Some slots \<Rightarrow>
          list_ex (\<lambda>slot. case slot of Some (Net lo hi) \<Rightarrow> net_port_in_range lo hi port
                                     | _ \<Rightarrow> False) slots)"

definition audit_slot :: "u64 \<Rightarrow> u64 \<Rightarrow> cap_state \<Rightarrow> capability option option" where
  "audit_slot d slot s =
     (case vec_get (cap_table s) (unat d) of
        None \<Rightarrow> None
      | Some row \<Rightarrow> vec_get row (unat slot))"

text \<open>
  \<open>handle_move\<close> takes the object out of the source slot first, then looks for a free slot of
  the target, and puts the object back when there is none.
\<close>

definition handle_take :: "u64 \<Rightarrow> u64 \<Rightarrow> handle_slots list \<Rightarrow> u64 option \<times> handle_slots list" where
  "handle_take d h table =
     (case vec_get table (unat d) of
        None \<Rightarrow> (None, table)
      | Some slots \<Rightarrow>
          (case vec_get slots (unat h) of
             None \<Rightarrow> (None, table)
           | Some slot \<Rightarrow> (slot, table[unat d := slots[unat h := None]])))"

definition handle_put_back :: "u64 \<Rightarrow> u64 \<Rightarrow> u64 \<Rightarrow> handle_slots list \<Rightarrow> handle_slots list" where
  "handle_put_back d h obj table =
     (case vec_get table (unat d) of
        None \<Rightarrow> table
      | Some slots \<Rightarrow>
          (case vec_get slots (unat h) of
             None \<Rightarrow> table
           | Some _ \<Rightarrow> table[unat d := slots[unat h := Some obj]]))"

definition handle_move :: "u64 \<Rightarrow> u64 \<Rightarrow> u64 \<Rightarrow> cap_state \<Rightarrow> u64 \<times> cap_state" where
  "handle_move frm to h s =
     (case handle_take frm h (handle_table s) of
        (None, table) \<Rightarrow> (U64_MAX, s\<lparr>handle_table := table\<rparr>)
      | (Some obj, table) \<Rightarrow>
          (case (case vec_get table (unat to) of None \<Rightarrow> None | Some slots \<Rightarrow> insert_first obj slots) of
             Some (i, slots') \<Rightarrow> (of_nat i, s\<lparr>handle_table := table[unat to := slots']\<rparr>)
           | None \<Rightarrow> (U64_MAX, s\<lparr>handle_table := handle_put_back frm h obj table\<rparr>)))"

definition cap_grant :: "u64 \<Rightarrow> capability \<Rightarrow> cap_state \<Rightarrow> (bool \<times> cap_state) res" where
  "cap_grant d cap s =
     bind_res (index_res (cap_table s) (unat d)) (\<lambda>slots.
       Inr (case insert_first cap slots of
              None \<Rightarrow> (False, s)
            | Some (i, slots') \<Rightarrow> (True, s\<lparr>cap_table := (cap_table s)[unat d := slots']\<rparr>)))"

definition cap_revoke :: "u64 \<Rightarrow> capability \<Rightarrow> cap_state \<Rightarrow> (bool \<times> cap_state) res" where
  "cap_revoke d cap s =
     bind_res (index_res (cap_table s) (unat d)) (\<lambda>slots.
       Inr (case find_index (\<lambda>slot. slot = Some cap) slots of
              None \<Rightarrow> (False, s)
            | Some i \<Rightarrow> (True, s\<lparr>cap_table := (cap_table s)[unat d := slots[i := None]]\<rparr>)))"

definition cap_delegate :: "u64 \<Rightarrow> u64 \<Rightarrow> capability \<Rightarrow> cap_state \<Rightarrow> bool \<times> cap_state" where
  "cap_delegate frm to cap s =
     (let held = (case vec_get (cap_table s) (unat frm) of
                    None \<Rightarrow> False
                  | Some slots \<Rightarrow> Some cap \<in> set slots)
      in if held then
           (case vec_get (cap_table s) (unat to) of
              None \<Rightarrow> (False, s)
            | Some slots \<Rightarrow>
                if Some cap \<in> set slots then (True, s)
                else (case insert_first cap slots of
                        None \<Rightarrow> (False, s)
                      | Some (i, slots') \<Rightarrow>
                          (True, s\<lparr>cap_table := (cap_table s)[unat to := slots']\<rparr>)))
         else (False, s))"


section \<open>Abstract view: who holds what\<close>

definition cap_row :: "cap_state \<Rightarrow> u64 \<Rightarrow> cap_slots" where
  "cap_row s d = row_or blank_caps (cap_table s) (unat d)"

definition handle_row :: "cap_state \<Rightarrow> u64 \<Rightarrow> handle_slots" where
  "handle_row s d = row_or blank_handles (handle_table s) (unat d)"

definition held :: "cap_state \<Rightarrow> u64 \<Rightarrow> capability set" where
  "held s d = {c. Some c \<in> set (cap_row s d)}"

definition authority :: "cap_state \<Rightarrow> capability set" where
  "authority s = (\<Union>d. held s d)"

definition cap_wf :: "cap_state \<Rightarrow> bool" where
  "cap_wf s \<longleftrightarrow> list_all (\<lambda>row. length row = CAP_SLOTS) (cap_table s) \<and>
     list_all (\<lambda>row. length row = HANDLE_SLOTS) (handle_table s)"

lemma held_iff:
  "c \<in> held s d \<longleftrightarrow> unat d < length (cap_table s) \<and> Some c \<in> set (cap_table s ! unat d)"
  by (auto simp: held_def cap_row_def row_or_def)

lemma cap_has_iff:
  "unat d < length (cap_table s) \<Longrightarrow> cap_has d c s = Inr (c \<in> held s d)"
  by (simp add: cap_has_def held_iff)

lemma cap_row_update:
  "unat d < length (cap_table s) \<Longrightarrow>
     cap_row (s\<lparr>cap_table := (cap_table s)[unat d := row]\<rparr>) e = (if e = d then row else cap_row s e)"
  by (auto simp: cap_row_def row_or_update)

lemma handle_row_cap_update [simp]: "handle_row (s\<lparr>cap_table := t\<rparr>) d = handle_row s d"
  by (simp add: handle_row_def)

lemma cap_row_handle_update [simp]: "cap_row (s\<lparr>handle_table := t\<rparr>) d = cap_row s d"
  by (simp add: cap_row_def)

lemma held_update:
  "unat d < length (cap_table s) \<Longrightarrow>
     held (s\<lparr>cap_table := (cap_table s)[unat d := row]\<rparr>) e =
       (if e = d then {c. Some c \<in> set row} else held s e)"
  by (simp add: held_def cap_row_update)

lemma held_handle_update [simp]: "held (s\<lparr>handle_table := t\<rparr>) d = held s d"
  by (simp add: held_def)

section \<open>Rows of created and destroyed domains\<close>

interpretation cap_rows: per_domain_table cap_row cap_remove_domain blank_caps
  by unfold_locales (auto simp: cap_row_def cap_remove_domain_def row_or_set_row)

interpretation handle_rows: per_domain_table handle_row cap_remove_domain blank_handles
  by unfold_locales (auto simp: handle_row_def cap_remove_domain_def row_or_set_row)

lemma cap_add_eq_remove: "cap_add_domain d s = cap_remove_domain d s"
  by (simp add: cap_add_domain_def cap_remove_domain_def)

lemma held_remove_domain: "held (cap_remove_domain d s) e = (if e = d then {} else held s e)"
  by (simp add: held_def cap_rows.row_reset)

lemma set_row_rows:
  "list_all (\<lambda>r. length r = n) t \<Longrightarrow> length fill = n \<Longrightarrow> length row = n \<Longrightarrow>
     list_all (\<lambda>r. length r = n) (set_row i fill row t)"
  using set_row_elems [of i fill row t] by (auto simp: list_all_iff)

lemma cap_wf_remove_domain: "cap_wf s \<Longrightarrow> cap_wf (cap_remove_domain d s)"
  by (simp add: cap_wf_def cap_remove_domain_def set_row_rows)

lemma cap_wf_init: "cap_wf (cap_init n)"
  by (simp add: cap_wf_def cap_init_def list_all_iff)

section \<open>Handles\<close>

lemma slot_index_of_nat:
  assumes "i < HANDLE_SLOTS"
  shows "unat (of_nat i :: u64) = i" and "(of_nat i :: u64) \<noteq> U64_MAX"
proof -
  from assms have "i < 2 ^ 64" by (simp add: HANDLE_SLOTS_def)
  then show u: "unat (of_nat i :: u64) = i" by (rule unat_of_nat_u64)
  show "(of_nat i :: u64) \<noteq> U64_MAX"
  proof
    assume "(of_nat i :: u64) = U64_MAX"
    then have "i = unat U64_MAX" using u by simp
    with assms show False by (simp add: HANDLE_SLOTS_def)
  qed
qed

lemma handle_lookup_row:
  "handle_lookup d h s =
     (if unat h < length (handle_row s d) then handle_row s d ! unat h else None)"
  by (auto simp: handle_lookup_def handle_row_def row_or_def vec_get_def)

lemma handle_row_update:
  "unat d < length (handle_table s) \<Longrightarrow>
     handle_row (s\<lparr>handle_table := (handle_table s)[unat d := row]\<rparr>) e =
       (if e = d then row else handle_row s e)"
  by (auto simp: handle_row_def row_or_update)

lemma cap_wf_handle_length:
  "cap_wf s \<Longrightarrow> unat d < length (handle_table s) \<Longrightarrow> length (handle_table s ! unat d) = HANDLE_SLOTS"
  by (simp add: cap_wf_def list_all_length)

lemma cap_wf_handle_row: "cap_wf s \<Longrightarrow> length (handle_row s d) = HANDLE_SLOTS"
  by (simp add: handle_row_def row_or_def cap_wf_handle_length)

lemma cap_wf_handle_update:
  "cap_wf s \<Longrightarrow> length row = HANDLE_SLOTS \<Longrightarrow>
     cap_wf (s\<lparr>handle_table := (handle_table s)[i := row]\<rparr>)"
  by (auto simp: cap_wf_def list_all_iff dest: set_update_subset_insert [THEN subsetD])

lemma cap_wf_cap_update:
  "cap_wf s \<Longrightarrow> length row = CAP_SLOTS \<Longrightarrow> cap_wf (s\<lparr>cap_table := (cap_table s)[i := row]\<rparr>)"
  by (auto simp: cap_wf_def list_all_iff dest: set_update_subset_insert [THEN subsetD])

lemma handle_issue_cases:
  assumes "cap_wf s"
  obtains (full) "handle_issue d x s = (U64_MAX, s)"
  | (issued) i where "unat d < length (handle_table s)" and "i < HANDLE_SLOTS"
      and "handle_table s ! unat d ! i = None"
      and "handle_issue d x s =
        (of_nat i, s\<lparr>handle_table := (handle_table s)[unat d := (handle_table s ! unat d)[i := Some x]]\<rparr>)"
proof (cases "unat d < length (handle_table s)")
  case False
  then show ?thesis using full by (simp add: handle_issue_def vec_get_def)
next
  case True
  note len = cap_wf_handle_length [OF assms True]
  show ?thesis
  proof (cases "insert_first x (handle_table s ! unat d)")
    case None
    then show ?thesis using full True by (simp add: handle_issue_def vec_get_def)
  next
    case (Some p)
    then obtain i sl where p: "insert_first x (handle_table s ! unat d) = Some (i, sl)"
      by (cases p) simp
    then have "i < HANDLE_SLOTS" "handle_table s ! unat d ! i = None"
        "sl = (handle_table s ! unat d)[i := Some x]"
      using len by (simp_all add: insert_first_Some_iff)
    then show ?thesis using issued [of i] True by (simp add: handle_issue_def vec_get_def p)
  qed
qed

lemma handle_issue_fst:
  "cap_wf s \<Longrightarrow> fst (handle_issue d x s) \<noteq> U64_MAX \<Longrightarrow>
     unat (fst (handle_issue d x s)) < HANDLE_SLOTS"
  by (erule handle_issue_cases [where d = d and x = x]) (simp_all add: slot_index_of_nat)

lemma handle_drop_cases:
  obtains (dead) "handle_lookup d h s = None" and "handle_drop d h s = (False, s)"
  | (live) obj where "handle_lookup d h s = Some obj" and "unat d < length (handle_table s)"
      and "unat h < length (handle_table s ! unat d)"
      and "handle_drop d h s =
        (True, s\<lparr>handle_table := (handle_table s)[unat d := (handle_table s ! unat d)[unat h := None]]\<rparr>)"
  by (cases "unat d < length (handle_table s)"; cases "unat h < length (handle_table s ! unat d)";
      cases "handle_table s ! unat d ! unat h")
    (auto simp: handle_lookup_def handle_drop_def vec_get_def)

interpretation handles: handle_store handle_issue handle_lookup handle_drop cap_wf
proof
  fix s :: cap_state and d x
  assume wf: "cap_wf s"
  show "cap_wf (snd (handle_issue d x s))"
    using wf by (cases rule: handle_issue_cases [OF wf, of d x])
      (simp_all add: cap_wf_handle_update cap_wf_handle_length)
  show "fst (handle_issue d x s) = U64_MAX \<Longrightarrow> snd (handle_issue d x s) = s"
    by (cases rule: handle_issue_cases [OF wf, of d x]) (simp_all add: slot_index_of_nat)
  show "fst (handle_issue d x s) \<noteq> U64_MAX \<Longrightarrow> handle_lookup d (fst (handle_issue d x s)) s = None"
    by (cases rule: handle_issue_cases [OF wf, of d x])
      (auto simp: slot_index_of_nat handle_lookup_def vec_get_def)
  show "fst (handle_issue d x s) \<noteq> U64_MAX \<Longrightarrow>
      handle_lookup e h (snd (handle_issue d x s)) =
        (if e = d \<and> h = fst (handle_issue d x s) then Some x else handle_lookup e h s)" for e h
    using wf by (cases rule: handle_issue_cases [OF wf, of d x])
      (auto simp: slot_index_of_nat handle_lookup_row handle_row_update cap_wf_handle_length
        nth_list_update handle_row_def row_or_def)
next
  fix s :: cap_state and d h
  assume wf: "cap_wf s"
  show "cap_wf (snd (handle_drop d h s))"
    using wf by (cases rule: handle_drop_cases [of d h s])
      (simp_all add: cap_wf_handle_update cap_wf_handle_length)
  show "fst (handle_drop d h s) = (handle_lookup d h s \<noteq> None)"
    by (cases rule: handle_drop_cases [of d h s]) simp_all
  show "handle_lookup e k (snd (handle_drop d h s)) =
      (if e = d \<and> k = h then None else handle_lookup e k s)" for e k
    by (cases rule: handle_drop_cases [of d h s])
      (auto simp: handle_lookup_row handle_row_update nth_list_update handle_row_def row_or_def)
qed


lemma handle_table_mset_drop:
  "handle_lookup d h s = Some obj \<Longrightarrow>
     add_mset obj (table_mset (handle_table (snd (handle_drop d h s)))) = table_mset (handle_table s)"
proof (cases rule: handle_drop_cases [of d h s])
  case (live obj')
  assume "handle_lookup d h s = Some obj"
  with live have "handle_table s ! unat d ! unat h = Some obj"
    by (simp add: handle_lookup_def vec_get_def)
  from table_mset_drop [OF live(2,3) this] live(4) show ?thesis by simp
qed simp

lemma handle_table_mset_issue:
  assumes "cap_wf s" and "fst (handle_issue d x s) \<noteq> U64_MAX"
  shows "table_mset (handle_table (snd (handle_issue d x s))) = add_mset x (table_mset (handle_table s))"
  using assms(1)
proof (cases rule: handle_issue_cases [where d = d and x = x])
  case full
  with assms(2) show ?thesis by simp
next
  case (issued i)
  then have "i < length (handle_table s ! unat d)" using assms(1) by (simp add: cap_wf_handle_length)
  from table_mset_put [OF issued(1) this issued(3)] issued(4) show ?thesis by simp
qed

text \<open>
  \<open>handle_move\<close> is "drop, then issue to the target, undone when the target is full": the
  reference definition the source's take / insert / roll back code is equal to.
\<close>

lemma handle_take_lookup:
  "handle_take d h (handle_table s) =
     (handle_lookup d h s, handle_table (snd (handle_drop d h s)))"
  by (cases "unat d < length (handle_table s)"; cases "unat h < length (handle_table s ! unat d)";
      cases "handle_table s ! unat d ! unat h")
    (auto simp: handle_take_def handle_lookup_def handle_drop_def vec_get_def list_update_same_conv
      list_update_same_iff)

lemma handle_put_back_drop:
  assumes "handle_lookup d h s = Some obj"
  shows "handle_put_back d h obj (handle_table (snd (handle_drop d h s))) = handle_table s"
  using assms
proof (cases rule: handle_drop_cases [of d h s])
  case (live obj')
  then have "handle_table s ! unat d ! unat h = Some obj"
    using assms by (simp add: handle_lookup_def vec_get_def)
  then have "(handle_table s ! unat d)[unat h := Some obj] = handle_table s ! unat d"
    by (metis list_update_id)
  with live show ?thesis by (simp add: handle_put_back_def vec_get_def)
qed simp

lemma handle_move_eq:
  assumes "cap_wf s"
  shows "handle_move frm to h s =
    (case handle_lookup frm h s of
       None \<Rightarrow> (U64_MAX, s)
     | Some obj \<Rightarrow>
         (let s1 = snd (handle_drop frm h s); r = handle_issue to obj s1
          in if fst r = U64_MAX then (U64_MAX, s) else r))"
proof (cases "handle_lookup frm h s")
  case None
  then have "handle_drop frm h s = (False, s)"
    by (cases rule: handle_drop_cases [of frm h s]) simp_all
  with None show ?thesis by (simp add: handle_move_def handle_take_lookup)
next
  case (Some obj)
  let ?s1 = "snd (handle_drop frm h s)"
  let ?t1 = "handle_table ?s1"
  have wf1: "cap_wf ?s1" using assms by (rule handles.inv_drop)
  have s1: "s\<lparr>handle_table := t\<rparr> = ?s1\<lparr>handle_table := t\<rparr>" for t
    by (cases rule: handle_drop_cases [of frm h s]) simp_all
  have undo: "s\<lparr>handle_table := handle_put_back frm h obj ?t1\<rparr> = s"
    using handle_put_back_drop [OF Some] by simp
  show ?thesis
  proof (cases "unat to < length ?t1")
    case False
    then have "handle_issue to obj ?s1 = (U64_MAX, ?s1)" by (simp add: handle_issue_def vec_get_def)
    with False Some undo show ?thesis by (simp add: handle_move_def handle_take_lookup vec_get_def)
  next
    case True
    show ?thesis
    proof (cases "insert_first obj (?t1 ! unat to)")
      case None
      with True have "handle_issue to obj ?s1 = (U64_MAX, ?s1)"
        by (simp add: handle_issue_def vec_get_def)
      with None True Some undo show ?thesis
        by (simp add: handle_move_def handle_take_lookup vec_get_def)
    next
      case (Some p)
      then obtain i sl where p: "insert_first obj (?t1 ! unat to) = Some (i, sl)" by (cases p) simp
      have "i < HANDLE_SLOTS"
        using p cap_wf_handle_length [OF wf1 True] by (simp add: insert_first_Some_iff)
      then have "(of_nat i :: u64) \<noteq> U64_MAX" by (rule slot_index_of_nat)
      with True p \<open>handle_lookup frm h s = Some obj\<close> s1 show ?thesis
        by (simp add: handle_move_def handle_take_lookup handle_issue_def vec_get_def Let_def)
    qed
  qed
qed

section \<open>Grant, revoke and delegate\<close>

lemma cap_grant_eq:
  assumes "unat d < length (cap_table s)"
  shows "cap_grant d c s = Inr (case insert_first c (cap_row s d) of
      None \<Rightarrow> (False, s)
    | Some (i, row) \<Rightarrow> (True, s\<lparr>cap_table := (cap_table s)[unat d := row]\<rparr>))"
  using assms by (simp add: cap_grant_def cap_row_def row_or_def)

lemma held_insert:
  "insert_first c (cap_table s ! unat d) = Some (i, row) \<Longrightarrow> unat d < length (cap_table s) \<Longrightarrow>
     held (s\<lparr>cap_table := (cap_table s)[unat d := row]\<rparr>) e =
       (if e = d then insert c (held s d) else held s e)"
  using insert_first_set [of c "cap_table s ! unat d" i row]
    insert_first_mem [of c "cap_table s ! unat d" i row]
    insert_first_keeps [of c "cap_table s ! unat d" i row]
  by (auto simp: held_update held_iff)

lemma cap_delegate_cases:
  obtains (refused) "cap_delegate frm to c s = (False, s)"
  | (idempotent) "c \<in> held s frm" and "c \<in> held s to" and "cap_delegate frm to c s = (True, s)"
  | (copied) i row where "c \<in> held s frm" and "c \<notin> held s to" and "unat to < length (cap_table s)"
      and "insert_first c (cap_table s ! unat to) = Some (i, row)"
      and "cap_delegate frm to c s = (True, s\<lparr>cap_table := (cap_table s)[unat to := row]\<rparr>)"
proof (cases "c \<in> held s frm \<and> unat to < length (cap_table s)")
  case False
  then show ?thesis using refused
    by (auto simp: cap_delegate_def held_iff vec_get_def split: if_splits)
next
  case True
  then have hf: "(case vec_get (cap_table s) (unat frm) of None \<Rightarrow> False
      | Some slots \<Rightarrow> Some c \<in> set slots)"
    by (simp add: held_iff vec_get_def)
  show ?thesis
  proof (cases "c \<in> held s to")
    case True
    then show ?thesis using hf idempotent \<open>c \<in> held s frm \<and> _\<close>
      by (simp add: cap_delegate_def vec_get_def held_iff)
  next
    case False
    show ?thesis
    proof (cases "insert_first c (cap_table s ! unat to)")
      case None
      then show ?thesis using hf refused True False
        by (simp add: cap_delegate_def vec_get_def held_iff)
    next
      case (Some p)
      then obtain i row where "insert_first c (cap_table s ! unat to) = Some (i, row)"
        by (cases p) simp
      then show ?thesis using hf copied [of i row] True False
        by (simp add: cap_delegate_def vec_get_def held_iff)
    qed
  qed
qed

lemma held_delegate:
  "held (snd (cap_delegate frm to c s)) d =
     (if fst (cap_delegate frm to c s) \<and> d = to then insert c (held s d) else held s d)"
  by (cases rule: cap_delegate_cases [of frm to c s]) (auto simp: held_insert)

lemma cap_delegate_ok_held: "fst (cap_delegate frm to c s) \<Longrightarrow> c \<in> held s frm"
  by (cases rule: cap_delegate_cases [of frm to c s]) auto

lemma cap_delegate_frame:
  "handle_table (snd (cap_delegate frm to c s)) = handle_table s"
  "\<not> fst (cap_delegate frm to c s) \<Longrightarrow> snd (cap_delegate frm to c s) = s"
  by (cases rule: cap_delegate_cases [of frm to c s]; simp)+

lemma cap_revoke_cases:
  assumes "unat d < length (cap_table s)"
  obtains (absent) "c \<notin> held s d" and "cap_revoke d c s = Inr (False, s)"
  | (removed) i where "i < length (cap_table s ! unat d)" and "cap_table s ! unat d ! i = Some c"
      and "cap_revoke d c s =
        Inr (True, s\<lparr>cap_table := (cap_table s)[unat d := (cap_table s ! unat d)[i := None]]\<rparr>)"
proof (cases "find_index (\<lambda>slot. slot = Some c) (cap_table s ! unat d)")
  case None
  then have "Some c \<notin> set (cap_table s ! unat d)" by (auto simp: find_index_None_iff)
  then show ?thesis using None absent assms by (simp add: cap_revoke_def held_iff)
next
  case (Some i)
  then show ?thesis using removed [of i] assms find_index_SomeD [OF Some]
    by (simp add: cap_revoke_def)
qed

lemma cap_revoke_in: "cap_revoke d c s = Inr r \<Longrightarrow> unat d < length (cap_table s)"
  by (cases "unat d < length (cap_table s)") (simp_all add: cap_revoke_def index_res_def)

lemma held_revoke_subset:
  assumes "cap_revoke d c s = Inr (b, s')"
  shows "held s' e \<subseteq> held s e"
  using cap_revoke_in [OF assms]
proof (cases rule: cap_revoke_cases [where c = c])
  case absent
  with assms show ?thesis by simp
next
  case (removed i)
  let ?r = "cap_table s ! unat d"
  have "set (?r[i := None]) \<subseteq> insert None (set ?r)" by (rule set_update_subset_insert)
  then have "{x. Some x \<in> set (?r[i := None])} \<subseteq> held s d"
    using cap_revoke_in [OF assms] by (auto simp: held_iff)
  moreover have "held s' e = (if e = d then {x. Some x \<in> set (?r[i := None])} else held s e)"
    using removed(3) assms held_update [OF cap_revoke_in [OF assms], of "?r[i := None]" e] by simp
  ultimately show ?thesis by simp
qed

section \<open>The encodings\<close>

lemma pack_split:
  fixes k x :: u64
  assumes "k < 256" "x < 2 ^ 56"
  shows "drop_bit 56 (push_bit 56 k OR x) = k" and "take_bit 56 (push_bit 56 k OR x) = x"
proof -
  have k: "take_bit 8 k = k" using assms(1) by (intro take_bit_self_u64) (simp add: word_less_nat_alt)
  have x: "take_bit 56 x = x" using assms(2) by (intro take_bit_self_u64) (simp add: word_less_nat_alt)
  have "drop_bit 56 (push_bit 56 k OR take_bit 56 x) = take_bit 8 k"
    by (rule bit_eqI) (auto simp: bit_simps)
  then show "drop_bit 56 (push_bit 56 k OR x) = k" by (simp add: k x)
  have "take_bit 56 (push_bit 56 k OR x) = take_bit 56 x"
    by (rule bit_eqI) (auto simp: bit_simps)
  then show "take_bit 56 (push_bit 56 k OR x) = x" by (simp add: x)
qed

lemma pair16:
  fixes arg :: u64
  assumes "drop_bit 32 arg = 0"
  shows "push_bit 16 (ucast (ucast (drop_bit 16 arg) :: u16)) OR ucast (ucast (arg AND 0xFFFF) :: u16) = arg"
proof (rule bit_eqI)
  fix n :: nat
  have m: "(0xFFFF :: u64) = mask 16" by (simp add: mask_eq_exp_minus_1)
  have "n < 32" if "bit arg n"
  proof (rule ccontr)
    assume "\<not> n < 32"
    then have "bit (drop_bit 32 arg) (n - 32) = bit arg n" by (simp add: bit_simps)
    with that assms show False by simp
  qed
  then show "bit (push_bit 16 (ucast (ucast (drop_bit 16 arg) :: u16)) OR
      ucast (ucast (arg AND 0xFFFF) :: u16) :: u64) n = bit arg n"
    unfolding m by (auto simp: bit_simps)
qed

lemma pair16_dest:
  fixes a b :: u16
  defines "w \<equiv> (push_bit 16 (ucast a) OR ucast b :: u64)"
  shows "drop_bit 32 w = 0" "ucast (drop_bit 16 w) = a" "ucast (w AND 0xFFFF) = b" "w AND 0xFFFF = ucast b"
proof -
  have m: "(0xFFFF :: u64) = mask 16" by (simp add: mask_eq_exp_minus_1)
  show "drop_bit 32 w = 0" unfolding w_def by (rule bit_eqI) (auto simp: bit_simps dest: bit_imp_le_length)
  show "ucast (drop_bit 16 w) = a" unfolding w_def by (rule bit_eqI) (auto simp: bit_simps dest: bit_imp_le_length)
  show "ucast (w AND 0xFFFF) = b" unfolding w_def m by (rule bit_eqI) (auto simp: bit_simps dest: bit_imp_le_length)
  show "w AND 0xFFFF = ucast b" unfolding w_def m by (rule bit_eqI) (auto simp: bit_simps dest: bit_imp_le_length)
qed

lemma decode_encode:
  assumes "decode kind arg = Some c" and "kind \<noteq> CAP_KIND_SPAWN" and "kind \<noteq> CAP_KIND_FB"
  shows "cap_kind c = kind \<and> cap_arg c = arg"
proof -
  consider "kind = CAP_KIND_SEND_TO" | "kind = CAP_KIND_MAP_INTO" | "kind = CAP_KIND_IRQ"
    | "kind = CAP_KIND_MMIO" | "kind = CAP_KIND_IO_PORT" | "kind = CAP_KIND_NET"
    using assms by (auto simp: decode_def split: if_splits)
  then show ?thesis
  proof cases
    case 3
    with assms(1) have "arg \<le> 0xFF" "c = Irq (ucast arg)" by (auto simp: decode_def split: if_splits)
    moreover from this have "take_bit 8 arg = arg"
      by (intro take_bit_self_u64) (simp add: word_le_nat_alt)
    then have "(ucast (ucast arg :: u8) :: u64) = arg"
      by (simp add: unsigned_ucast_eq)
    ultimately show ?thesis using 3 by simp
  qed (use assms(1) in \<open>auto simp: decode_def Let_def pair16 split: if_splits\<close>)
qed

lemma encode_decode_pair:
  "0 < len \<Longrightarrow> (ucast base :: u64) + ucast len \<le> 0x10000 \<Longrightarrow>
     decode CAP_KIND_IO_PORT (cap_arg (IoPort base len)) = Some (IoPort base len)"
  "lo \<le> hi \<Longrightarrow> decode CAP_KIND_NET (cap_arg (Net lo hi)) = Some (Net lo hi)"
  using pair16_dest [of base len] pair16_dest [of lo hi] by (auto simp: decode_def Let_def)


section \<open>Port ranges\<close>

lemma unat_ucast_u16: "unat (ucast (b :: u16) :: u32) = unat b"
proof -
  have "unat b < 2 ^ 16" using unsigned_less [of b] by simp
  then show ?thesis by (simp add: unsigned_ucast_eq take_bit_nat_eq_self)
qed

lemma unat_ucast_add_u16: "unat (ucast (b :: u16) + ucast (l :: u16) :: u32) = unat b + unat l"
proof -
  have "unat b < 2 ^ 16" "unat l < 2 ^ 16" using unsigned_less [of b] unsigned_less [of l] by simp_all
  then show ?thesis by (simp add: unat_word_ariths unat_ucast_u16)
qed

lemma list_ex_io_port:
  "list_ex (\<lambda>slot. case slot of Some (IoPort b l) \<Rightarrow> P b l | _ \<Rightarrow> False) xs \<longleftrightarrow>
     (\<exists>b l. Some (IoPort b l) \<in> set xs \<and> P b l)"
  by (induction xs) (auto split: option.splits capability.splits)

lemma list_ex_net:
  "list_ex (\<lambda>slot. case slot of Some (Net lo hi) \<Rightarrow> P lo hi | _ \<Rightarrow> False) xs \<longleftrightarrow>
     (\<exists>lo hi. Some (Net lo hi) \<in> set xs \<and> P lo hi)"
  by (induction xs) (auto split: option.splits capability.splits)

section \<open>Properties\<close>

text \<open>
  The steps user space can cause on the capability and handle tables: delegation, the handle
  operations, and creation and destruction of domains. (\<open>grant\<close> is called by the boot code and
  by the loader only.)
\<close>

inductive cap_step :: "cap_state \<Rightarrow> cap_state \<Rightarrow> bool" where
  delegate: "cap_step s (snd (cap_delegate frm to c s))"
| revoke: "cap_revoke d c s = Inr (b, s') \<Longrightarrow> cap_step s s'"
| issue: "cap_step s (snd (handle_issue d obj s))"
| drop_handle: "cap_step s (snd (handle_drop d h s))"
| move: "cap_step s (snd (handle_move frm to h s))"
| create: "cap_step s (cap_add_domain d s)"
| destroy: "cap_step s (cap_remove_domain d s)"

lemma cap_row_handle_ops [simp]:
  "cap_row (snd (handle_issue d obj s)) e = cap_row s e"
  "cap_row (snd (handle_drop d h s)) e = cap_row s e"
  "cap_row (snd (handle_move frm to h s)) e = cap_row s e"
  by (auto simp: handle_issue_def handle_drop_def handle_move_def cap_row_def split: option.splits prod.splits)

lemma cap_step_held: "cap_step s s' \<Longrightarrow> held s' d \<subseteq> authority s"
proof (induction rule: cap_step.induct)
  case (delegate s frm to c)
  then show ?case
    by (auto simp: held_delegate authority_def dest: cap_delegate_ok_held split: if_splits)
next
  case (revoke d' c s b s')
  then show ?case using held_revoke_subset [OF revoke] by (auto simp: authority_def)
qed (auto simp: held_def authority_def cap_add_eq_remove cap_rows.row_reset)

text \<open>
  C1: delegation never amplifies. If \<open>delegate(from, to, cap)\<close> succeeds, the sender held the
  capability, the receiver holds it afterwards, nothing else changed in anyone's capability set;
  if it fails, the tables are unchanged.
\<close>

theorem delegate_no_amplification:
  assumes "cap_delegate frm to c s = (ok, s')"
  shows "(ok \<longrightarrow> c \<in> held s frm \<and> c \<in> held s' to) \<and> (\<not> ok \<longrightarrow> s' = s) \<and>
    (\<forall>d. held s' d = (if ok \<and> d = to then insert c (held s d) else held s d)) \<and>
    handle_table s' = handle_table s"
proof -
  from assms have r: "ok = fst (cap_delegate frm to c s)" "s' = snd (cap_delegate frm to c s)"
    by simp_all
  show ?thesis unfolding r
    using cap_delegate_ok_held [of frm to c s] cap_delegate_frame [of frm to c s]
    by (auto simp: held_delegate)
qed

definition w_caps :: cap_state where
  "w_caps = \<lparr>cap_table = [[Some Spawn, None], [None, None]],
     handle_table = [[Some 7, Some 9, None], [Some 3, None, None]]\<rparr>"

theorem delegate_no_amplification_witness:
  "cap_delegate 0 1 Spawn w_caps = (True, w_caps\<lparr>cap_table := [[Some Spawn, None], [Some Spawn, None]]\<rparr>) \<and>
   Spawn \<in> held w_caps 0 \<and> Spawn \<in> held (w_caps\<lparr>cap_table := [[Some Spawn, None], [Some Spawn, None]]\<rparr>) 1"
proof -
  have e: "cap_delegate 0 1 Spawn w_caps =
      (True, w_caps\<lparr>cap_table := [[Some Spawn, None], [Some Spawn, None]]\<rparr>)"
    by (simp add: cap_delegate_def w_caps_def vec_get_def insert_first_def)
  show ?thesis using e delegate_no_amplification [OF e] by blast
qed

text \<open>
  C2: authority is confined. Whatever sequence of delegations, revocations, handle operations and
  domain creations and destructions happens, no capability appears that nobody held before.
\<close>

theorem authority_confined:
  assumes "cap_step\<^sup>*\<^sup>* s s'"
  shows "authority s' \<subseteq> authority s"
  using assms
proof (induction rule: rtranclp_induct)
  case base
  then show ?case by simp
next
  case (step t u)
  from cap_step_held [OF step.hyps(2)] have "authority u \<subseteq> authority t"
    unfolding authority_def [of u] by blast
  with step.IH show ?case by simp
qed

theorem authority_confined_witness:
  "cap_step\<^sup>*\<^sup>* w_caps (cap_remove_domain 0 (snd (cap_delegate 0 1 Spawn w_caps))) \<and>
   authority (cap_remove_domain 0 (snd (cap_delegate 0 1 Spawn w_caps))) \<subseteq> authority w_caps"
proof -
  let ?t = "snd (cap_delegate 0 1 Spawn w_caps)"
  have "cap_step\<^sup>*\<^sup>* w_caps ?t" by (rule r_into_rtranclp) (rule cap_step.delegate)
  then have r: "cap_step\<^sup>*\<^sup>* w_caps (cap_remove_domain 0 ?t)"
    by (rule rtranclp.rtrancl_into_rtrancl) (rule cap_step.destroy)
  show ?thesis using r authority_confined [OF r] by blast
qed


text \<open>
  C3: moving a handle moves exactly one object. Failure (dead source handle, unknown or full
  target) leaves the state as it was; on success the object the source handle named is what the
  returned handle names in the target domain, the source handle is dead (unless it is the very
  slot that was refilled), no other handle changes, and in every case the multiset of objects in
  the whole handle table is unchanged: no object is lost or duplicated.
\<close>

theorem handle_move_conserves:
  assumes "cap_wf s" and "handle_move frm to h s = (r, s')"
  shows "table_mset (handle_table s') = table_mset (handle_table s) \<and>
    (r = U64_MAX \<longrightarrow> s' = s) \<and>
    (r \<noteq> U64_MAX \<longrightarrow> (\<exists>obj. handle_lookup frm h s = Some obj \<and>
      (\<forall>e k. handle_lookup e k s' =
        (if e = to \<and> k = r then Some obj
         else if e = frm \<and> k = h then None else handle_lookup e k s))))"
proof -
  let ?s1 = "snd (handle_drop frm h s)"
  have wf1: "cap_wf ?s1" using assms(1) by (rule handles.inv_drop)
  have m: "(r, s') = (case handle_lookup frm h s of None \<Rightarrow> (U64_MAX, s)
      | Some obj \<Rightarrow> (let q = handle_issue to obj ?s1 in if fst q = U64_MAX then (U64_MAX, s) else q))"
    using assms(2) unfolding handle_move_eq [OF assms(1)] Let_def by (rule sym)
  consider (fail) "r = U64_MAX" "s' = s"
    | (ok) obj where "handle_lookup frm h s = Some obj" "fst (handle_issue to obj ?s1) \<noteq> U64_MAX"
        "r = fst (handle_issue to obj ?s1)" "s' = snd (handle_issue to obj ?s1)"
    using m by (cases "handle_lookup frm h s") (auto simp: Let_def prod_eq_iff split: if_splits)
  then show ?thesis
  proof cases
    case fail
    then show ?thesis by simp
  next
    case (ok obj)
    have "handle_lookup e k s' = (if e = to \<and> k = r then Some obj
        else if e = frm \<and> k = h then None else handle_lookup e k s)" for e k
      using handles.issue_lookup [OF wf1 ok(2), of e k] handles.drop_lookup [OF assms(1), of e k frm h]
      unfolding ok(3,4) [symmetric] by (simp only:)
    moreover have "table_mset (handle_table s') = table_mset (handle_table s)"
      using handle_table_mset_issue [OF wf1 ok(2)] handle_table_mset_drop [OF ok(1)] ok(4) by simp
    ultimately show ?thesis using ok(1-3) by simp
  qed
qed

definition w_handles :: cap_state where
  "w_handles = \<lparr>cap_table = [],
     handle_table = [blank_handles[0 := Some 7], blank_handles[0 := Some 3]]\<rparr>"

lemma w_handles_wf: "cap_wf w_handles"
  by (simp add: cap_wf_def w_handles_def)

lemma w_handles_move:
  "handle_move 0 1 0 w_handles =
     (1, w_handles\<lparr>handle_table := [blank_handles, blank_handles[0 := Some 3, 1 := Some 7]]\<rparr>)"
  by code_simp

theorem handle_move_conserves_witness:
  "cap_wf w_handles \<and>
   (\<exists>obj. handle_lookup 0 0 w_handles = Some obj \<and>
     handle_lookup 1 1 (snd (handle_move 0 1 0 w_handles)) = Some obj)"
proof -
  have ne: "(1 :: u64) \<noteq> U64_MAX" by simp
  show ?thesis
    using w_handles_wf handle_move_conserves [OF w_handles_wf w_handles_move] ne
    by (auto simp: w_handles_move)
qed

text \<open>
  C4: the life of a handle. A successful \<open>handle_issue\<close> returns a handle that was dead, that
  names the object afterwards, and that disturbs no other handle; \<open>handle_drop\<close> of it succeeds,
  restores every lookup, and dropping again fails.
\<close>

theorem handle_lifecycle:
  assumes "cap_wf s" and "handle_issue d obj s = (h, s1)" and "h \<noteq> U64_MAX"
    and "handle_drop d h s1 = (ok, s2)"
  shows "handle_lookup d h s = None \<and> handle_lookup d h s1 = Some obj \<and>
    (\<forall>e k. (e, k) \<noteq> (d, h) \<longrightarrow> handle_lookup e k s1 = handle_lookup e k s) \<and>
    ok \<and> (\<forall>e k. handle_lookup e k s2 = handle_lookup e k s) \<and>
    handle_drop d h s2 = (False, s2) \<and> cap_wf s2"
proof -
  have h: "fst (handle_issue d obj s) = h" "snd (handle_issue d obj s) = s1" using assms by simp_all
  have o: "fst (handle_drop d h s1) = ok" "snd (handle_drop d h s1) = s2" using assms by simp_all
  have ne: "fst (handle_issue d obj s) \<noteq> U64_MAX" using h assms(3) by simp
  have wf: "cap_wf s1" "cap_wf s2"
    using handles.inv_issue [OF assms(1), of d obj] handles.inv_drop [of s1 d h] h o by simp_all
  have dead: "handle_drop d h s2 = (False, s2)"
    using handles.dropped_stays_dead(2) [OF wf(1), of d h] o(2)
    by (cases rule: handle_drop_cases [of d h s2]) simp_all
  show ?thesis
    using handles.issue_fresh [OF assms(1) ne] handles.issue_lookup [OF assms(1) ne]
      handles.issue_then_drop [OF assms(1) ne] dead wf by (simp add: h o)
qed

theorem handle_lifecycle_witness:
  "handle_lookup 1 1 (snd (handle_issue 1 5 w_handles)) = Some 5 \<and>
   fst (handle_drop 1 1 (snd (handle_issue 1 5 w_handles)))"
proof -
  let ?s1 = "snd (handle_issue 1 5 w_handles)"
  have "fst (handle_issue 1 5 w_handles) = 1" by code_simp
  then have i: "handle_issue 1 5 w_handles = (1, ?s1)" by (simp add: prod_eq_iff)
  have n: "(1 :: u64) \<noteq> U64_MAX" by simp
  show ?thesis using handle_lifecycle [OF w_handles_wf i n surjective_pairing] by simp
qed

text \<open>
  C5: the audit encoding is faithful. For every capability \<open>decode\<close> can produce from a 56-bit
  argument, the packed word carries \<open>kind + 1\<close> in its top byte and the argument below, decoding
  those fields gives the capability back, and the word collides neither with the "empty slot"
  answer 0 nor with the "end of table" answer \<open>u64::MAX\<close>.
\<close>

theorem audit_encoding_faithful:
  assumes "decode kind arg = Some c" and "arg < 2 ^ 56"
  shows "drop_bit 56 (pack_audit c) = kind + 1 \<and>
    decode (drop_bit 56 (pack_audit c) - 1) (take_bit 56 (pack_audit c)) = Some c \<and>
    pack_audit c \<noteq> 0 \<and> pack_audit c \<noteq> U64_MAX"
proof -
  have k: "kind < 8" using assms(1) by (auto simp: decode_def split: if_splits)
  have ka: "cap_kind c = kind \<and> cap_arg c < 2 ^ 56 \<and> decode kind (cap_arg c) = Some c"
  proof (cases "kind = CAP_KIND_SPAWN \<or> kind = CAP_KIND_FB")
    case True
    with assms show ?thesis by (auto simp: decode_def)
  next
    case False
    with decode_encode [OF assms(1)] assms show ?thesis by simp
  qed
  have "kind + 1 < 256" using k by (simp add: word_less_nat_alt unat_word_ariths)
  note sp = pack_split [OF this, of "cap_arg c"]
  have d: "drop_bit 56 (pack_audit c) = kind + 1" and t: "take_bit 56 (pack_audit c) = cap_arg c"
    using sp ka by (simp_all add: pack_audit_def)
  have "kind + 1 \<noteq> 0 \<and> kind + 1 \<noteq> 255"
    using k by (auto simp: word_less_nat_alt unat_word_ariths word_unat_eq_iff)
  then have "drop_bit 56 (pack_audit c) \<noteq> drop_bit 56 (0 :: u64) \<and>
      drop_bit 56 (pack_audit c) \<noteq> drop_bit 56 (U64_MAX :: u64)"
    unfolding d by simp
  then have "pack_audit c \<noteq> 0 \<and> pack_audit c \<noteq> U64_MAX" by auto
  with d t ka show ?thesis by simp
qed

theorem audit_encoding_faithful_witness:
  "decode 6 0x01F00008 = Some (IoPort 0x1F0 8) \<and> pack_audit (IoPort 0x1F0 8) \<noteq> 0 \<and>
   decode (drop_bit 56 (pack_audit (IoPort 0x1F0 8)) - 1) (take_bit 56 (pack_audit (IoPort 0x1F0 8))) =
     Some (IoPort 0x1F0 8)"
proof -
  have d: "decode 6 0x01F00008 = Some (IoPort 0x1F0 8)" by (simp add: decode_def)
  have a: "(0x01F00008 :: u64) < 2 ^ 56" by simp
  show ?thesis using d audit_encoding_faithful [OF d a] by blast
qed


text \<open>
  the port gates mean what they say, with no wrap-around: \<open>has_port\<close> holds exactly when the
  domain holds an \<open>IoPort\<close> whose half-open range contains the port, \<open>has_net_port\<close> exactly when
  it holds a \<open>Net\<close> whose closed range contains it.
\<close>

theorem port_gates_exact:
  "(has_port d port s \<longleftrightarrow> (\<exists>base len. IoPort base len \<in> held s d \<and>
      unat base \<le> unat port \<and> unat port < unat base + unat len)) \<and>
   (has_net_port d port s \<longleftrightarrow> (\<exists>lo hi. Net lo hi \<in> held s d \<and>
      unat lo \<le> unat port \<and> unat port \<le> unat hi))"
proof -
  have r: "port_in_range b l port \<longleftrightarrow> unat b \<le> unat port \<and> unat port < unat b + unat l" for b l
    by (simp add: port_in_range_def word_le_nat_alt word_less_nat_alt unat_ucast_u16 unat_ucast_add_u16)
  show ?thesis
    by (auto simp: has_port_def has_net_port_def net_port_in_range_def held_iff vec_get_def r
        list_ex_io_port list_ex_net word_le_nat_alt)
qed

text \<open>
  \<open>revoke\<close> takes away one copy. It succeeds exactly when the domain holds the capability, and
  then removes one occurrence from that domain's slots and changes nothing else; the domain still
  holds the capability afterwards exactly when it had been granted more than once.
\<close>

theorem revoke_removes_one_copy:
  assumes "cap_revoke d c s = Inr (ok, s')"
  shows "(ok \<longleftrightarrow> c \<in> held s d) \<and> (\<not> ok \<longrightarrow> s' = s) \<and>
    (ok \<longrightarrow> slot_mset (cap_row s d) = add_mset c (slot_mset (cap_row s' d))) \<and>
    (\<forall>e. e \<noteq> d \<longrightarrow> cap_row s' e = cap_row s e) \<and>
    (ok \<longrightarrow> (c \<in> held s' d \<longleftrightarrow> 2 \<le> count (slot_mset (cap_row s d)) c))"
  using cap_revoke_in [OF assms]
proof (cases rule: cap_revoke_cases [where c = c])
  case absent
  with assms show ?thesis by simp
next
  case (removed i)
  note d = cap_revoke_in [OF assms]
  let ?r = "cap_table s ! unat d"
  have s': "ok" "s' = s\<lparr>cap_table := (cap_table s)[unat d := ?r[i := None]]\<rparr>"
    using removed(3) assms by simp_all
  have row: "cap_row s d = ?r" using d by (simp add: cap_row_def row_or_def)
  have m: "slot_mset ?r = add_mset c (slot_mset (?r[i := None]))"
    using slot_mset_update [OF removed(1), of None] removed(2) by simp
  have row': "cap_row s' e = (if e = d then ?r[i := None] else cap_row s e)" for e
    unfolding s'(2) by (rule cap_row_update [OF d])
  have h: "c \<in> held s d" using removed(1,2) d by (auto simp: held_iff in_set_conv_nth)
  have "c \<in> held s' d \<longleftrightarrow> 0 < count (slot_mset (?r[i := None])) c"
    by (simp add: held_def row' set_slot_mset)
  also have "\<dots> \<longleftrightarrow> 2 \<le> count (slot_mset ?r) c" unfolding m by (simp add: Suc_le_eq)
  finally show ?thesis using h m s'(1) row row' by simp
qed

theorem revoke_removes_one_copy_witness:
  "cap_revoke 0 Spawn w_caps = Inr (True, w_caps\<lparr>cap_table := [[None, None], [None, None]]\<rparr>) \<and>
   Spawn \<in> held w_caps 0"
proof -
  have e: "cap_revoke 0 Spawn w_caps = Inr (True, w_caps\<lparr>cap_table := [[None, None], [None, None]]\<rparr>)"
    by (simp add: cap_revoke_def w_caps_def index_res_def)
  show ?thesis using e revoke_removes_one_copy [OF e] by simp
qed

end
