(* ===== verification/Frames.thy ===== *)
theory Frames
  imports Interfaces
begin

text \<open>
  The physical frame allocator, \<open>kernel/src/memory/frame_allocator.rs\<close>: the bitmap (bit set =
  frame in use), the pinned ranges, the reference counts of shared frames, and every operation.
  \<open>FREE_FRAMES\<close> and \<open>TOTAL_FRAMES\<close> are natural numbers: the invariant \<open>frames_inv\<close> below says
  the counter is the number of clear bits, so it never goes below zero. The reference count is a
  \<open>u8\<close> and wraps, as it does in the release build the Makefile produces.
  Shown: the counter is exact and every operation keeps it so; allocation returns the lowest free
  frame, a contiguous allocation the first free run; what freeing, reserving and reference
  counting do; and that the allocator never hands out a frame twice.
\<close>

section \<open>State and bitmap\<close>

definition FRAME_SIZE :: nat where
  "FRAME_SIZE = 4096"

definition PTE_ADDR_MASK :: u64 where
  "PTE_ADDR_MASK = 0x000FFFFFFFFFF000"

definition PTE_HUGE :: u64 where
  "PTE_HUGE = 0x80"

definition BITMAP_SIZE :: nat where
  "BITMAP_SIZE = 1024 * 1024"

definition MAX_MANAGED_FRAMES :: nat where
  "MAX_MANAGED_FRAMES = BITMAP_SIZE * 8"

definition MAX_PINNED_RANGES :: nat where
  "MAX_PINNED_RANGES = 4"

definition MAX_SHARED_FRAMES :: nat where
  "MAX_SHARED_FRAMES = 1024"

record frame_state =
  bitmap :: "u8 list"
  total_frames :: nat
  free_frames :: nat
  pinned :: "(u64 \<times> u64) list"
  shared_frames :: "(u64 \<times> u8) list"

definition bitmap_set :: "nat \<Rightarrow> u8 list \<Rightarrow> u8 list" where
  "bitmap_set idx bm = bm[idx div 8 := bm ! (idx div 8) OR push_bit (idx mod 8) 1]"

definition bitmap_clear :: "nat \<Rightarrow> u8 list \<Rightarrow> u8 list" where
  "bitmap_clear idx bm = bm[idx div 8 := bm ! (idx div 8) AND NOT (push_bit (idx mod 8) 1)]"

definition bitmap_test :: "nat \<Rightarrow> u8 list \<Rightarrow> bool" where
  "bitmap_test idx bm \<longleftrightarrow> bm ! (idx div 8) AND push_bit (idx mod 8) 1 \<noteq> 0"

definition pin_range :: "u64 \<Rightarrow> u64 \<Rightarrow> frame_state \<Rightarrow> frame_state" where
  "pin_range start end s =
     (let b = start AND NOT 0xFFF; e = (end + 0xFFF) AND NOT 0xFFF
      in if length (pinned s) < MAX_PINNED_RANGES then s\<lparr>pinned := pinned s @ [(b, e)]\<rparr> else s)"

definition is_pinned :: "u64 \<Rightarrow> frame_state \<Rightarrow> bool" where
  "is_pinned addr s = list_ex (\<lambda>(b, e). b \<le> addr \<and> addr < e) (pinned s)"

section \<open>Allocation and release\<close>

definition reserve_frame :: "u64 \<Rightarrow> frame_state \<Rightarrow> frame_state" where
  "reserve_frame addr s =
     (let idx = unat addr div FRAME_SIZE
      in if idx < MAX_MANAGED_FRAMES \<and> \<not> bitmap_test idx (bitmap s)
         then s\<lparr>bitmap := bitmap_set idx (bitmap s), free_frames := free_frames s - 1\<rparr>
         else s)"

function alloc_scan :: "u8 list \<Rightarrow> nat \<Rightarrow> nat option" where
  "alloc_scan bm idx =
     (if idx < MAX_MANAGED_FRAMES then
        if \<not> bitmap_test idx bm then Some idx else alloc_scan bm (Suc idx)
      else None)"
  by pat_completeness auto
termination
  by (relation "measure (\<lambda>(bm, idx). MAX_MANAGED_FRAMES - idx)") auto

declare alloc_scan.simps [simp del]

definition allocate_frame :: "frame_state \<Rightarrow> (u64 \<times> frame_state) option" where
  "allocate_frame s =
     (case alloc_scan (bitmap s) 0 of
        None \<Rightarrow> None
      | Some idx \<Rightarrow>
          Some (of_nat (idx * FRAME_SIZE),
            s\<lparr>bitmap := bitmap_set idx (bitmap s), free_frames := free_frames s - 1\<rparr>))"

function alloc_run :: "u8 list \<Rightarrow> nat \<Rightarrow> nat \<Rightarrow> nat \<Rightarrow> nat \<Rightarrow> nat option" where
  "alloc_run bm cnt run run_start idx =
     (if idx < MAX_MANAGED_FRAMES then
        if \<not> bitmap_test idx bm then
          (let run_start' = (if run = 0 then idx else run_start); run' = run + 1
           in if run' = cnt then Some run_start'
              else alloc_run bm cnt run' run_start' (Suc idx))
        else alloc_run bm cnt 0 run_start (Suc idx)
      else None)"
  by pat_completeness auto
termination
  by (relation "measure (\<lambda>(bm, cnt, run, run_start, idx). MAX_MANAGED_FRAMES - idx)") auto

declare alloc_run.simps [simp del]

definition allocate_frames :: "nat \<Rightarrow> frame_state \<Rightarrow> (u64 \<times> frame_state) option" where
  "allocate_frames cnt s =
     (if cnt = 0 then None
      else (case alloc_run (bitmap s) cnt 0 0 0 of
              None \<Rightarrow> None
            | Some run_start \<Rightarrow>
                Some (of_nat (run_start * FRAME_SIZE),
                  s\<lparr>bitmap := fold bitmap_set [run_start..<run_start + cnt] (bitmap s),
                    free_frames := free_frames s - cnt\<rparr>)))"

definition free_frame :: "u64 \<Rightarrow> frame_state \<Rightarrow> frame_state" where
  "free_frame addr s =
     (if is_pinned addr s then s
      else (let idx = unat addr div FRAME_SIZE
            in if idx < MAX_MANAGED_FRAMES \<and> bitmap_test idx (bitmap s)
               then s\<lparr>bitmap := bitmap_clear idx (bitmap s), free_frames := free_frames s + 1\<rparr>
               else s))"

section \<open>Reference counts of shared frames\<close>

definition inc_ref :: "u64 \<Rightarrow> frame_state \<Rightarrow> frame_state" where
  "inc_ref addr s =
     (case find_index (\<lambda>(a, n). a = addr \<and> 0 < n) (shared_frames s) of
        Some i \<Rightarrow>
          s\<lparr>shared_frames := (shared_frames s)[i := (fst (shared_frames s ! i), snd (shared_frames s ! i) + 1)]\<rparr>
      | None \<Rightarrow>
          (case find_index (\<lambda>(a, n). n = 0) (shared_frames s) of
             Some i \<Rightarrow> s\<lparr>shared_frames := (shared_frames s)[i := (addr, 1)]\<rparr>
           | None \<Rightarrow> s))"

definition dec_ref :: "u64 \<Rightarrow> frame_state \<Rightarrow> bool \<times> frame_state" where
  "dec_ref addr s =
     (case find_index (\<lambda>(a, n). a = addr \<and> 0 < n) (shared_frames s) of
        Some i \<Rightarrow>
          (let n = snd (shared_frames s ! i) - 1
           in if n = 0 then (True, s\<lparr>shared_frames := (shared_frames s)[i := (0, 0)]\<rparr>)
              else (False, s\<lparr>shared_frames := (shared_frames s)[i := (fst (shared_frames s ! i), n)]\<rparr>))
      | None \<Rightarrow> (False, s))"

definition is_tracked :: "u64 \<Rightarrow> frame_state \<Rightarrow> bool" where
  "is_tracked addr s = list_ex (\<lambda>(a, n). a = addr \<and> 0 < n) (shared_frames s)"

definition release_user_frame :: "u64 \<Rightarrow> frame_state \<Rightarrow> frame_state" where
  "release_user_frame addr s =
     (if is_tracked addr s then
        (case dec_ref addr s of (was_last, s') \<Rightarrow> if was_last then free_frame addr s' else s')
      else free_frame addr s)"

section \<open>Initialisation from the boot memory map\<close>

text \<open>
  The memory map and the frame buffer geometry come from \<open>BootInfo\<close>; \<open>_kernel_end\<close> is a link
  symbol. Both are arguments. The walk over the boot page tables reads physical memory through
  \<open>rd\<close> (one 64-bit entry per address).
\<close>

definition MEMORY_CONVENTIONAL :: u32 where
  "MEMORY_CONVENTIONAL = 7"

record memory_descriptor =
  md_ty :: u32
  md_phys_start :: u64
  md_page_count :: u64

record boot_info =
  bi_magic :: u32
  bi_version :: u32
  bi_fb_addr :: u64
  bi_fb_width :: u32
  bi_fb_height :: u32
  bi_fb_stride :: u32
  bi_fb_bpp :: u32
  bi_mmap :: "memory_descriptor list"
  bi_svc_addr :: u64
  bi_svc_count :: u64
  bi_svc_entry_size :: u64
  bi_rsdp_addr :: u64
  bi_boot_disk_valid :: u32
  bi_boot_disk_dev :: u32
  bi_boot_disk_func :: u32

definition fb_bytes :: "boot_info \<Rightarrow> u64" where
  "fb_bytes info =
     ucast (bi_fb_height info) * ucast (bi_fb_stride info) * (ucast (bi_fb_bpp info) div 8)"

definition kernel_end_of :: "u64 \<Rightarrow> u64" where
  "kernel_end_of raw = (raw + 0x10000 - 1) AND NOT (0x10000 - 1)"

text \<open>The loop over the frames of one descriptor; the accumulator is (bitmap, total, free).\<close>

function init_desc ::
  "nat \<Rightarrow> nat \<Rightarrow> nat \<Rightarrow> nat \<Rightarrow> nat \<Rightarrow> u8 list \<times> nat \<times> nat \<Rightarrow> u8 list \<times> nat \<times> nat" where
  "init_desc kernel_end fb_start fb_end stop frame_addr acc =
     (if frame_addr < stop then
        (let idx = frame_addr div FRAME_SIZE in
         if MAX_MANAGED_FRAMES \<le> idx then acc
         else if frame_addr < kernel_end then
           init_desc kernel_end fb_start fb_end stop (frame_addr + FRAME_SIZE) acc
         else if fb_start \<le> idx \<and> idx < fb_end then
           init_desc kernel_end fb_start fb_end stop (frame_addr + FRAME_SIZE) acc
         else
           (case acc of (bm, tot, fr) \<Rightarrow>
              init_desc kernel_end fb_start fb_end stop (frame_addr + FRAME_SIZE)
                (bitmap_clear idx bm, tot + 1, fr + 1)))
      else acc)"
  by pat_completeness auto
termination
  by (relation "measure (\<lambda>(k, fs, fe, stop, frame_addr, acc). stop - frame_addr)")
    (auto simp: FRAME_SIZE_def)

declare init_desc.simps [simp del]

fun init_map ::
  "nat \<Rightarrow> nat \<Rightarrow> nat \<Rightarrow> memory_descriptor list \<Rightarrow> u8 list \<times> nat \<times> nat \<Rightarrow> u8 list \<times> nat \<times> nat" where
  "init_map kernel_end fb_start fb_end [] acc = acc"
| "init_map kernel_end fb_start fb_end (desc # descs) acc =
     (if md_ty desc \<noteq> MEMORY_CONVENTIONAL then init_map kernel_end fb_start fb_end descs acc
      else init_map kernel_end fb_start fb_end descs
        (init_desc kernel_end fb_start fb_end
          (unat (md_phys_start desc + md_page_count desc * of_nat FRAME_SIZE))
          (unat (md_phys_start desc)) acc))"

definition page_table_frames :: "(u64 \<Rightarrow> u64) \<Rightarrow> u64 \<Rightarrow> u64 list" where
  "page_table_frames rd pml4 =
     pml4 # concat (map (\<lambda>i.
       let e4 = rd (pml4 + 8 * of_nat i) in
       if e4 AND 1 = 0 then []
       else (let pdpt = e4 AND PTE_ADDR_MASK in
         pdpt # concat (map (\<lambda>j.
           let e3 = rd (pdpt + 8 * of_nat j) in
           if e3 AND 1 = 0 \<or> e3 AND PTE_HUGE \<noteq> 0 then []
           else (let pd = e3 AND PTE_ADDR_MASK in
             pd # concat (map (\<lambda>k.
               let e2 = rd (pd + 8 * of_nat k) in
               if e2 AND 1 = 0 \<or> e2 AND PTE_HUGE \<noteq> 0 then [] else [e2 AND PTE_ADDR_MASK])
               [0..<512])))
           [0..<512])))
       [0..<512])"

definition reserve_active_page_tables :: "(u64 \<Rightarrow> u64) \<Rightarrow> u64 \<Rightarrow> frame_state \<Rightarrow> frame_state" where
  "reserve_active_page_tables rd cr3 s = fold reserve_frame (page_table_frames rd cr3) s"

definition frames_init ::
  "boot_info \<Rightarrow> u64 \<Rightarrow> (u64 \<Rightarrow> u64) \<Rightarrow> u64 \<Rightarrow> frame_state \<Rightarrow> frame_state" where
  "frames_init info kernel_end_raw rd cr3 s =
     (let kernel_end = unat (kernel_end_of kernel_end_raw);
          fb_start = unat (bi_fb_addr info div of_nat FRAME_SIZE);
          fb_end = (unat (bi_fb_addr info + fb_bytes info) + FRAME_SIZE - 1) div FRAME_SIZE;
          s1 = pin_range (bi_fb_addr info) (bi_fb_addr info + fb_bytes info) s
      in case init_map kernel_end fb_start fb_end (bi_mmap info)
                (replicate (length (bitmap s1)) 0xFF, 0, 0) of
           (bm, tot, fr) \<Rightarrow>
             reserve_active_page_tables rd cr3
               (s1\<lparr>bitmap := bm, total_frames := tot, free_frames := fr\<rparr>))"

definition total_memory_bytes :: "frame_state \<Rightarrow> u64" where
  "total_memory_bytes s = of_nat (total_frames s * FRAME_SIZE)"

definition free_memory_bytes :: "frame_state \<Rightarrow> u64" where
  "free_memory_bytes s = of_nat (free_frames s * FRAME_SIZE)"

section \<open>Abstract view: the set of free frames\<close>

definition free_set :: "frame_state \<Rightarrow> nat set" where
  "free_set s = {i. i < MAX_MANAGED_FRAMES \<and> \<not> bitmap_test i (bitmap s)}"

definition frames_inv :: "frame_state \<Rightarrow> bool" where
  "frames_inv s \<longleftrightarrow> length (bitmap s) = BITMAP_SIZE \<and> free_frames s = card (free_set s)"

definition frame_is_free :: "frame_state \<Rightarrow> u64 \<Rightarrow> bool" where
  "frame_is_free s p \<longleftrightarrow> unat p mod FRAME_SIZE = 0 \<and> unat p div FRAME_SIZE \<in> free_set s"

lemma bitmap_test_bit: "bitmap_test idx bm \<longleftrightarrow> bit (bm ! (idx div 8)) (idx mod 8)"
  by (simp add: bitmap_test_def bit_iff_and_push_bit_not_eq_0)

lemma managed_div: "idx < MAX_MANAGED_FRAMES \<Longrightarrow> length bm = BITMAP_SIZE \<Longrightarrow> idx div 8 < length bm"
  by (simp add: MAX_MANAGED_FRAMES_def less_mult_imp_div_less)

lemma div_mod_8_eq: "i div 8 = j div 8 \<and> i mod 8 = j mod 8 \<longleftrightarrow> i = (j :: nat)"
  by (metis div_mult_mod_eq)

lemma bitmap_test_set:
  assumes "length bm = BITMAP_SIZE" and "i < MAX_MANAGED_FRAMES"
  shows "bitmap_test j (bitmap_set i bm) \<longleftrightarrow> j = i \<or> bitmap_test j bm"
proof -
  have "i div 8 < length bm" using assms(2,1) by (rule managed_div)
  moreover have "j mod 8 < 8" "i mod 8 < 8" by simp_all
  ultimately show ?thesis
    using div_mod_8_eq [of j i] by (auto simp: bitmap_test_bit bitmap_set_def nth_list_update bit_simps)
qed

lemma bitmap_test_clear:
  assumes "length bm = BITMAP_SIZE" and "i < MAX_MANAGED_FRAMES"
  shows "bitmap_test j (bitmap_clear i bm) \<longleftrightarrow> j \<noteq> i \<and> bitmap_test j bm"
proof -
  have "i div 8 < length bm" using assms(2,1) by (rule managed_div)
  moreover have "j mod 8 < 8" "i mod 8 < 8" by simp_all
  ultimately show ?thesis
    using div_mod_8_eq [of j i] by (auto simp: bitmap_test_bit bitmap_clear_def nth_list_update bit_simps)
qed

lemma length_bitmap_ops [simp]:
  "length (bitmap_set i bm) = length bm" "length (bitmap_clear i bm) = length bm"
  by (simp_all add: bitmap_set_def bitmap_clear_def)

lemma finite_free_set [simp]: "finite (free_set s)"
  by (simp add: free_set_def)


lemma alloc_scan_Some:
  "alloc_scan bm idx = Some i \<Longrightarrow>
     idx \<le> i \<and> i < MAX_MANAGED_FRAMES \<and> \<not> bitmap_test i bm \<and> (\<forall>j. idx \<le> j \<and> j < i \<longrightarrow> bitmap_test j bm)"
proof (induction bm idx rule: alloc_scan.induct)
  case (1 bm idx)
  show ?case
  proof (cases "idx < MAX_MANAGED_FRAMES \<and> bitmap_test idx bm")
    case True
    with 1 have IH: "Suc idx \<le> i \<and> i < MAX_MANAGED_FRAMES \<and> \<not> bitmap_test i bm \<and>
        (\<forall>j. Suc idx \<le> j \<and> j < i \<longrightarrow> bitmap_test j bm)"
      by (simp add: alloc_scan.simps [of bm idx])
    have "bitmap_test j bm" if "idx \<le> j" "j < i" for j
      using IH True that by (cases "j = idx") simp_all
    with IH show ?thesis by simp
  next
    case False
    with "1.prems" show ?thesis by (auto simp: alloc_scan.simps [of bm idx] split: if_splits)
  qed
qed

lemma alloc_scan_None:
  "alloc_scan bm idx = None \<Longrightarrow> idx \<le> j \<Longrightarrow> j < MAX_MANAGED_FRAMES \<Longrightarrow> bitmap_test j bm"
proof (induction bm idx rule: alloc_scan.induct)
  case (1 bm idx)
  from 1(2-4) have t: "bitmap_test idx bm" "idx < MAX_MANAGED_FRAMES"
    by (auto simp: alloc_scan.simps [of bm idx] split: if_splits)
  show ?case
  proof (cases "j = idx")
    case False
    from t 1(2) have "alloc_scan bm (Suc idx) = None" by (simp add: alloc_scan.simps [of bm idx])
    with 1(1) [OF t(2)] t(1) False 1(3,4) show ?thesis by simp
  qed (use t in simp)
qed

lemma free_set_set:
  "length (bitmap s) = BITMAP_SIZE \<Longrightarrow> i < MAX_MANAGED_FRAMES \<Longrightarrow>
     free_set (s\<lparr>bitmap := bitmap_set i (bitmap s), free_frames := n\<rparr>) = free_set s - {i}"
  by (auto simp: free_set_def bitmap_test_set)

lemma free_set_clear:
  "length (bitmap s) = BITMAP_SIZE \<Longrightarrow> i < MAX_MANAGED_FRAMES \<Longrightarrow>
     free_set (s\<lparr>bitmap := bitmap_clear i (bitmap s), free_frames := n\<rparr>) = insert i (free_set s)"
  by (auto simp: free_set_def bitmap_test_clear)

lemma free_set_other_fields [simp]:
  "free_set (s\<lparr>shared_frames := x\<rparr>) = free_set s" "free_set (s\<lparr>pinned := y\<rparr>) = free_set s"
  by (simp_all add: free_set_def)

lemma frames_inv_other_fields [simp]:
  "frames_inv (s\<lparr>shared_frames := x\<rparr>) = frames_inv s" "frames_inv (s\<lparr>pinned := y\<rparr>) = frames_inv s"
  by (simp_all add: frames_inv_def)

lemma frame_addr_unat:
  assumes "i < MAX_MANAGED_FRAMES"
  shows "unat (of_nat (i * FRAME_SIZE) :: u64) = i * FRAME_SIZE"
proof (rule unat_of_nat_u64)
  have "i < 2 ^ 23" using assms by (simp add: MAX_MANAGED_FRAMES_def BITMAP_SIZE_def)
  then show "i * FRAME_SIZE < 2 ^ 64" by (simp add: FRAME_SIZE_def)
qed

lemma frame_is_free_index:
  "i < MAX_MANAGED_FRAMES \<Longrightarrow> frame_is_free s (of_nat (i * FRAME_SIZE)) \<longleftrightarrow> i \<in> free_set s"
  using frame_addr_unat [of i] by (simp add: frame_is_free_def FRAME_SIZE_def)

lemma allocate_frame_Some:
  assumes "frames_inv s" and "allocate_frame s = Some (p, s')"
  obtains i where "i \<in> free_set s" and "\<forall>j \<in> free_set s. i \<le> j" and "p = of_nat (i * FRAME_SIZE)"
    and "unat p = i * FRAME_SIZE" and "free_set s' = free_set s - {i}" and "frames_inv s'"
    and "free_frames s = free_frames s' + 1"
    and "pinned s' = pinned s" and "shared_frames s' = shared_frames s"
proof -
  from assms(2) obtain i where i: "alloc_scan (bitmap s) 0 = Some i" "p = of_nat (i * FRAME_SIZE)"
      "s' = s\<lparr>bitmap := bitmap_set i (bitmap s), free_frames := free_frames s - 1\<rparr>"
    by (auto simp: allocate_frame_def split: option.splits)
  note sc = alloc_scan_Some [OF i(1)]
  have len: "length (bitmap s) = BITMAP_SIZE" using assms(1) by (simp add: frames_inv_def)
  have mem: "i \<in> free_set s" and im: "i < MAX_MANAGED_FRAMES" using sc by (simp_all add: free_set_def)
  have least: "i \<le> j" if "j \<in> free_set s" for j
    using sc that by (cases "j < i") (simp_all add: free_set_def)
  have fs: "free_set s' = free_set s - {i}" unfolding i(3) using len im by (rule free_set_set)
  have ne: "card (free_set s) \<noteq> 0" using mem by auto
  have fr: "free_frames s = card (free_set s)" using assms(1) by (simp add: frames_inv_def)
  have fr': "free_frames s' = card (free_set s) - 1" using i(3) fr by simp
  show thesis
  proof (rule that [of i])
    have "length (bitmap s') = BITMAP_SIZE" unfolding i(3) using len by simp
    moreover have "card (free_set s') = card (free_set s) - 1"
      unfolding fs using mem by (rule card_Diff_singleton)
    ultimately show "frames_inv s'" using fr' by (simp add: frames_inv_def)
    show "free_frames s = free_frames s' + 1" unfolding fr fr' using ne by linarith
    show "unat p = i * FRAME_SIZE" unfolding i(2) using im by (rule frame_addr_unat)
    show "\<forall>j \<in> free_set s. i \<le> j" using least by blast
    show "pinned s' = pinned s" "shared_frames s' = shared_frames s" unfolding i(3) by simp_all
  qed (fact mem i(2) fs)+
qed

lemma allocate_frame_None: "allocate_frame s = None \<longleftrightarrow> free_set s = {}"
proof
  assume "allocate_frame s = None"
  then have "alloc_scan (bitmap s) 0 = None" by (simp add: allocate_frame_def split: option.splits)
  then show "free_set s = {}" using alloc_scan_None by (auto simp: free_set_def)
next
  assume "free_set s = {}"
  then show "allocate_frame s = None"
    using alloc_scan_Some [of "bitmap s" 0]
    by (cases "alloc_scan (bitmap s) 0") (auto simp: allocate_frame_def free_set_def)
qed

interpretation bitmap_frames: frame_source allocate_frame frame_is_free frames_inv
proof
  fix s s' and p q :: u64
  assume inv: "frames_inv s" and a: "allocate_frame s = Some (p, s')"
  obtain i where i: "i \<in> free_set s" "unat p = i * FRAME_SIZE"
      "free_set s' = free_set s - {i}" "frames_inv s'"
    by (rule allocate_frame_Some [OF inv a])
  show "frames_inv s'" by (rule i(4))
  show "frame_is_free s p" unfolding frame_is_free_def i(2) using i(1) by (simp add: FRAME_SIZE_def)
  have "unat q mod FRAME_SIZE = 0 \<and> unat q div FRAME_SIZE = i \<longleftrightarrow> unat q = i * FRAME_SIZE"
    by (auto simp: FRAME_SIZE_def)
  also have "\<dots> \<longleftrightarrow> q = p" unfolding i(2) [symmetric] by simp
  finally show "frame_is_free s' q = (frame_is_free s q \<and> q \<noteq> p)"
    unfolding frame_is_free_def i(3) by blast
next
  fix s q
  assume "allocate_frame s = None"
  then show "\<not> frame_is_free s q" by (simp add: allocate_frame_None frame_is_free_def)
qed

section \<open>First fit\<close>

definition run_free :: "u8 list \<Rightarrow> nat \<Rightarrow> nat \<Rightarrow> bool" where
  "run_free bm i cnt \<longleftrightarrow> (\<forall>j \<in> {i..<i + cnt}. j < MAX_MANAGED_FRAMES \<and> \<not> bitmap_test j bm)"

text \<open>
  The loop invariant of the scan: the last \<open>run\<close> frames before \<open>idx\<close> are free, the one before
  them is not, and no run of the wanted length ends at or before \<open>idx\<close>.
\<close>

definition scan_inv :: "u8 list \<Rightarrow> nat \<Rightarrow> nat \<Rightarrow> nat \<Rightarrow> nat \<Rightarrow> bool" where
  "scan_inv bm cnt run run_start idx \<longleftrightarrow>
     run < cnt \<and> run \<le> idx \<and> (0 < run \<longrightarrow> run_start = idx - run) \<and>
     (\<forall>j \<in> {idx - run..<idx}. \<not> bitmap_test j bm) \<and>
     (run = idx \<or> bitmap_test (idx - run - 1) bm) \<and>
     (\<forall>k. k + cnt \<le> idx \<longrightarrow> \<not> run_free bm k cnt)"

lemma scan_inv_used:
  assumes "scan_inv bm cnt run run_start idx" and "bitmap_test idx bm"
  shows "scan_inv bm cnt 0 run_start (Suc idx)"
proof -
  have "\<not> run_free bm k cnt" if "k + cnt \<le> Suc idx" for k
  proof (cases "k + cnt \<le> idx")
    case False
    with that have "idx \<in> {k..<k + cnt}" using assms(1) by (auto simp: scan_inv_def)
    with assms(2) show ?thesis by (auto simp: run_free_def)
  qed (use assms(1) in \<open>auto simp: scan_inv_def\<close>)
  with assms show ?thesis by (auto simp: scan_inv_def)
qed

lemma scan_inv_free:
  assumes "scan_inv bm cnt run run_start idx" and "\<not> bitmap_test idx bm" and "run + 1 \<noteq> cnt"
  shows "scan_inv bm cnt (run + 1) (if run = 0 then idx else run_start) (Suc idx)"
proof -
  have "\<not> run_free bm k cnt" if "k + cnt \<le> Suc idx" for k
  proof (cases "k + cnt \<le> idx")
    case False
    with that assms have "idx - run - 1 \<in> {k..<k + cnt}" "bitmap_test (idx - run - 1) bm"
      by (auto simp: scan_inv_def)
    then show ?thesis by (auto simp: run_free_def)
  qed (use assms(1) in \<open>auto simp: scan_inv_def\<close>)
  moreover have "\<not> bitmap_test j bm" if "j \<in> {Suc idx - (run + 1)..<Suc idx}" for j
    using assms that by (cases "j = idx") (auto simp: scan_inv_def)
  ultimately show ?thesis using assms by (auto simp: scan_inv_def)
qed

lemma alloc_run_spec:
  assumes "scan_inv bm cnt run run_start idx"
  shows "case alloc_run bm cnt run run_start idx of
      None \<Rightarrow> \<forall>k. \<not> run_free bm k cnt
    | Some i \<Rightarrow> run_free bm i cnt \<and> (\<forall>k < i. \<not> run_free bm k cnt)"
  using assms
proof (induction bm cnt run run_start idx rule: alloc_run.induct)
  case (1 bm cnt run run_start idx)
  note inv = "1.prems"
  consider (out) "MAX_MANAGED_FRAMES \<le> idx"
    | (used) "idx < MAX_MANAGED_FRAMES" "bitmap_test idx bm"
    | (hit) "idx < MAX_MANAGED_FRAMES" "\<not> bitmap_test idx bm" "run + 1 = cnt"
    | (more) "idx < MAX_MANAGED_FRAMES" "\<not> bitmap_test idx bm" "run + 1 \<noteq> cnt"
    by linarith
  then show ?case
  proof cases
    case out
    have "\<not> run_free bm k cnt" for k
    proof
      assume f: "run_free bm k cnt"
      have "0 < cnt" using inv by (auto simp: scan_inv_def)
      then have "k + cnt - 1 \<in> {k..<k + cnt}" by simp
      with f have "k + cnt - 1 < MAX_MANAGED_FRAMES" unfolding run_free_def by blast
      with out inv f show False by (auto simp: scan_inv_def)
    qed
    with out show ?thesis by (simp add: alloc_run.simps [of bm cnt run run_start idx])
  next
    case used
    from "1.IH"(2) [OF used(1)] scan_inv_used [OF inv used(2)] used show ?thesis
      by (simp add: alloc_run.simps [of bm cnt run run_start idx])
  next
    case hit
    have st: "(if run = 0 then idx else run_start) = idx - run"
      using inv by (auto simp: scan_inv_def)
    have "\<not> bitmap_test j bm" if "j \<in> {idx - run..<Suc idx}" for j
      using hit(2) inv that by (cases "j = idx") (auto simp: scan_inv_def)
    then have "run_free bm (idx - run) cnt"
      using hit inv by (auto simp: run_free_def scan_inv_def)
    moreover have "\<not> run_free bm k cnt" if "k < idx - run" for k
      using inv hit that by (auto simp: scan_inv_def)
    ultimately show ?thesis
      using hit st by (simp add: alloc_run.simps [of bm cnt run run_start idx])
  next
    case more
    from "1.IH"(1) [OF more(1,2) refl refl] scan_inv_free [OF inv more(2,3)] more show ?thesis
      by (simp add: alloc_run.simps [of bm cnt run run_start idx] Let_def)
  qed
qed

lemma scan_inv_start: "0 < cnt \<Longrightarrow> scan_inv bm cnt 0 0 0"
  by (auto simp: scan_inv_def)

lemma run_free_set: "run_free (bitmap s) i cnt \<longleftrightarrow> {i..<i + cnt} \<subseteq> free_set s"
  by (auto simp: run_free_def free_set_def)

lemma bitmap_test_set_all:
  assumes "length bm = BITMAP_SIZE" and "\<forall>i \<in> set is. i < MAX_MANAGED_FRAMES"
  shows "length (fold bitmap_set is bm) = BITMAP_SIZE \<and>
    (bitmap_test j (fold bitmap_set is bm) \<longleftrightarrow> j \<in> set is \<or> bitmap_test j bm)"
  using assms
proof (induction "is" arbitrary: bm)
  case (Cons i "is")
  then show ?case using bitmap_test_set [of bm i j] by auto
qed simp

lemma free_set_set_run:
  assumes "frames_inv s" and "{i..<i + cnt} \<subseteq> free_set s"
    and "s' = s\<lparr>bitmap := fold bitmap_set [i..<i + cnt] (bitmap s), free_frames := free_frames s - cnt\<rparr>"
  shows "free_set s' = free_set s - {i..<i + cnt}" and "frames_inv s'"
proof -
  have len: "length (bitmap s) = BITMAP_SIZE" using assms(1) by (simp add: frames_inv_def)
  have lt: "\<forall>j \<in> set [i..<i + cnt]. j < MAX_MANAGED_FRAMES" using assms(2) by (auto simp: free_set_def)
  note t = bitmap_test_set_all [OF len lt]
  have bm: "bitmap s' = fold bitmap_set [i..<i + cnt] (bitmap s)"
    and fr: "free_frames s' = card (free_set s) - cnt"
    unfolding assms(3) using assms(1) by (simp_all add: frames_inv_def)
  have "bitmap_test j (bitmap s') \<longleftrightarrow> j \<in> {i..<i + cnt} \<or> bitmap_test j (bitmap s)" for j
    unfolding bm using conjunct2 [OF t, of j] by (simp only: set_upt)
  then show fs: "free_set s' = free_set s - {i..<i + cnt}" unfolding free_set_def by blast
  have "card (free_set s') = card (free_set s) - card {i..<i + cnt}"
    unfolding fs by (rule card_Diff_subset [OF _ assms(2)]) simp
  moreover have "length (bitmap s') = BITMAP_SIZE" unfolding bm using t by (rule conjunct1)
  ultimately show "frames_inv s'" using fr by (simp add: frames_inv_def)
qed

lemma free_frame_cases:
  assumes "frames_inv s"
  shows "frames_inv (free_frame a s)"
    and "free_set (free_frame a s) =
      (if is_pinned a s \<or> MAX_MANAGED_FRAMES \<le> unat a div FRAME_SIZE then free_set s
       else insert (unat a div FRAME_SIZE) (free_set s))"
proof -
  let ?i = "unat a div FRAME_SIZE"
  have len: "length (bitmap s) = BITMAP_SIZE" and fr: "free_frames s = card (free_set s)"
    using assms by (simp_all add: frames_inv_def)
  have "frames_inv (free_frame a s) \<and> free_set (free_frame a s) =
      (if is_pinned a s \<or> MAX_MANAGED_FRAMES \<le> ?i then free_set s else insert ?i (free_set s))"
  proof (cases "\<not> is_pinned a s \<and> ?i < MAX_MANAGED_FRAMES \<and> bitmap_test ?i (bitmap s)")
    case True
    then have e: "free_frame a s = s\<lparr>bitmap := bitmap_clear ?i (bitmap s), free_frames := free_frames s + 1\<rparr>"
      by (simp add: free_frame_def)
    have "?i \<notin> free_set s" using True by (simp add: free_set_def)
    then show ?thesis unfolding e
      using True free_set_clear [OF len, of ?i] len fr by (simp add: frames_inv_def)
  next
    case False
    then have "free_frame a s = s" by (auto simp: free_frame_def)
    with False assms show ?thesis by (auto simp: free_set_def)
  qed
  then show "frames_inv (free_frame a s)" and "free_set (free_frame a s) =
      (if is_pinned a s \<or> MAX_MANAGED_FRAMES \<le> ?i then free_set s else insert ?i (free_set s))"
    by simp_all
qed

lemma reserve_frame_cases:
  assumes "frames_inv s"
  shows "frames_inv (reserve_frame a s)"
    and "free_set (reserve_frame a s) = free_set s - {unat a div FRAME_SIZE}"
proof -
  let ?i = "unat a div FRAME_SIZE"
  have len: "length (bitmap s) = BITMAP_SIZE" and fr: "free_frames s = card (free_set s)"
    using assms by (simp_all add: frames_inv_def)
  have "frames_inv (reserve_frame a s) \<and> free_set (reserve_frame a s) = free_set s - {?i}"
  proof (cases "?i \<in> free_set s")
    case True
    then have e: "reserve_frame a s = s\<lparr>bitmap := bitmap_set ?i (bitmap s), free_frames := free_frames s - 1\<rparr>"
      by (simp add: reserve_frame_def free_set_def)
    have lt: "?i < MAX_MANAGED_FRAMES" using True by (simp add: free_set_def)
    show ?thesis unfolding e using True free_set_set [OF len lt] len fr
      by (simp add: frames_inv_def card_Diff_singleton)
  next
    case False
    then have "reserve_frame a s = s" by (auto simp: reserve_frame_def free_set_def Let_def)
    with False assms show ?thesis by simp
  qed
  then show "frames_inv (reserve_frame a s)"
    and "free_set (reserve_frame a s) = free_set s - {?i}" by simp_all
qed

lemma inc_ref_other [simp]:
  "bitmap (inc_ref a s) = bitmap s" "pinned (inc_ref a s) = pinned s"
  "free_set (inc_ref a s) = free_set s" "frames_inv (inc_ref a s) = frames_inv s"
  by (simp_all add: inc_ref_def split: option.splits)

lemma dec_ref_other [simp]:
  "bitmap (snd (dec_ref a s)) = bitmap s" "pinned (snd (dec_ref a s)) = pinned s"
  "free_set (snd (dec_ref a s)) = free_set s" "frames_inv (snd (dec_ref a s)) = frames_inv s"
  by (simp_all add: dec_ref_def Let_def split: option.splits)

lemma free_frame_other [simp]:
  "shared_frames (free_frame a s) = shared_frames s" "pinned (free_frame a s) = pinned s"
  by (simp_all add: free_frame_def Let_def)

lemma reserve_frame_other [simp]:
  "shared_frames (reserve_frame a s) = shared_frames s" "pinned (reserve_frame a s) = pinned s"
  by (simp_all add: reserve_frame_def Let_def)

lemma frames_inv_release: "frames_inv s \<Longrightarrow> frames_inv (release_user_frame a s)"
  by (auto simp: release_user_frame_def split: prod.splits intro: free_frame_cases(1))
    (metis dec_ref_other(4) free_frame_cases(1) snd_conv)+

section \<open>Reference counts, abstractly\<close>

definition live_at :: "frame_state \<Rightarrow> u64 \<Rightarrow> nat \<Rightarrow> bool" where
  "live_at s a i \<longleftrightarrow>
     i < length (shared_frames s) \<and> fst (shared_frames s ! i) = a \<and> 0 < snd (shared_frames s ! i)"

text \<open>At most one live entry per frame address.\<close>

definition shared_wf :: "frame_state \<Rightarrow> bool" where
  "shared_wf s \<longleftrightarrow> (\<forall>a i j. live_at s a i \<and> live_at s a j \<longrightarrow> i = j)"

definition refcount :: "frame_state \<Rightarrow> u64 \<Rightarrow> nat" where
  "refcount s a =
     (case find_index (\<lambda>(x, n). x = a \<and> 0 < n) (shared_frames s) of
        None \<Rightarrow> 0 | Some i \<Rightarrow> unat (snd (shared_frames s ! i)))"

lemma find_live: "find_index (\<lambda>(x, n). x = a \<and> 0 < n) (shared_frames s) = Some i \<Longrightarrow> live_at s a i"
  by (auto simp: find_index_Some_iff live_at_def split: prod.splits)

lemma find_live_None:
  "find_index (\<lambda>(x, n). x = a \<and> 0 < n) (shared_frames s) = None \<longleftrightarrow> (\<forall>i. \<not> live_at s a i)"
  unfolding find_index_None_iff live_at_def all_set_conv_all_nth by (auto simp: case_prod_beta)

lemma refcount_live:
  assumes "shared_wf s" and "live_at s a i"
  shows "refcount s a = unat (snd (shared_frames s ! i))"
proof (cases "find_index (\<lambda>(x, n). x = a \<and> 0 < n) (shared_frames s)")
  case None
  with assms(2) show ?thesis by (simp add: find_live_None)
next
  case (Some j)
  with find_live [OF Some] assms have "j = i" unfolding shared_wf_def by blast
  with Some show ?thesis by (simp add: refcount_def)
qed

lemma refcount_dead: "(\<forall>i. \<not> live_at s a i) \<Longrightarrow> refcount s a = 0"
  by (simp add: refcount_def find_live_None [symmetric])

lemma refcount_pos_iff: "0 < refcount s a \<longleftrightarrow> (\<exists>i. live_at s a i)"
proof (cases "find_index (\<lambda>(x, n). x = a \<and> 0 < n) (shared_frames s)")
  case None
  then have "\<forall>i. \<not> live_at s a i" by (simp add: find_live_None)
  then show ?thesis using refcount_dead [of s a] by simp
next
  case (Some j)
  from find_live [OF this] have "0 < unat (snd (shared_frames s ! j))"
    by (simp add: live_at_def unat_gt_0 word_neq_0_conv)
  with Some find_live [OF Some] show ?thesis by (auto simp: refcount_def)
qed

lemma is_tracked_refcount: "is_tracked a s \<longleftrightarrow> 0 < refcount s a"
proof -
  have "is_tracked a s \<longleftrightarrow> find_index (\<lambda>(x, n). x = a \<and> 0 < n) (shared_frames s) \<noteq> None"
    unfolding is_tracked_def list_ex_iff find_index_None_iff by blast
  then show ?thesis unfolding find_live_None refcount_pos_iff by blast
qed

text \<open>Overwriting the one entry at index \<open>i\<close> for frame \<open>a\<close>.\<close>

lemma live_at_update:
  assumes "s' = s\<lparr>shared_frames := (shared_frames s)[i := (x, n)]\<rparr>" and "i < length (shared_frames s)"
  shows "live_at s' b j \<longleftrightarrow> (if j = i then b = x \<and> 0 < n else live_at s b j)"
  unfolding assms(1) using assms(2) by (auto simp: live_at_def)

lemma shared_update:
  assumes wf: "shared_wf s" and s': "s' = s\<lparr>shared_frames := (shared_frames s)[i := (x, n)]\<rparr>"
    and i: "i < length (shared_frames s)" and own: "\<forall>b. live_at s b i \<longrightarrow> b = a"
    and oth: "\<forall>j. live_at s a j \<longrightarrow> j = i" and x: "0 < n \<longrightarrow> x = a"
  shows "shared_wf s' \<and> refcount s' b = (if b = a then unat n else refcount s b)"
proof -
  note l = live_at_update [OF s' i]
  have wf': "shared_wf s'"
    unfolding shared_wf_def l using wf oth x by (auto simp: shared_wf_def)
  have "refcount s' a = unat n"
  proof (cases "0 < n")
    case True
    then have "live_at s' a i" using x by (simp add: l)
    from refcount_live [OF wf' this] show ?thesis using s' i by simp
  next
    case False
    then have "\<forall>j. \<not> live_at s' a j" unfolding l using oth by auto
    moreover have "n = 0" using False by (simp add: word_gt_0)
    ultimately show ?thesis by (simp add: refcount_dead)
  qed
  moreover have "refcount s' b = refcount s b" if "b \<noteq> a"
  proof (cases "\<exists>j. live_at s b j")
    case True
    then obtain j where j: "live_at s b j" ..
    with own that have ne: "j \<noteq> i" by blast
    with j have "live_at s' b j" by (simp add: l)
    from refcount_live [OF wf' this] refcount_live [OF wf j] ne s' show ?thesis by simp
  next
    case False
    then have "\<forall>j. \<not> live_at s' b j" using that x by (auto simp: l)
    with False show ?thesis by (simp add: refcount_dead)
  qed
  ultimately show ?thesis using wf' by simp
qed

lemma live_at_unique_addr: "live_at s a i \<Longrightarrow> live_at s b i \<Longrightarrow> b = a"
  by (auto simp: live_at_def)

lemma dec_ref_spec:
  assumes "shared_wf s"
  shows "shared_wf (snd (dec_ref a s)) \<and> (fst (dec_ref a s) \<longleftrightarrow> refcount s a = 1) \<and>
    refcount (snd (dec_ref a s)) b = (if b = a then refcount s a - 1 else refcount s b)"
proof (cases "find_index (\<lambda>(x, n). x = a \<and> 0 < n) (shared_frames s)")
  case None
  then have "dec_ref a s = (False, s)" by (simp add: dec_ref_def)
  moreover from None have "refcount s a = 0" by (simp add: refcount_def)
  ultimately show ?thesis using assms by simp
next
  case (Some i)
  let ?n = "snd (shared_frames s ! i)"
  note la = find_live [OF Some]
  have rc: "refcount s a = unat ?n" by (rule refcount_live [OF assms la])
  have i: "i < length (shared_frames s)" and nz: "?n \<noteq> 0" and fa: "fst (shared_frames s ! i) = a"
    using la by (auto simp: live_at_def)
  have m: "unat (?n - 1) = unat ?n - 1" using nz by (simp add: unat_minus_one)
  have one: "?n - 1 = 0 \<longleftrightarrow> unat ?n = 1"
    unfolding right_minus_eq unat_1 [symmetric, where 'a = 8] by (rule unat_inj_iff [symmetric])
  define x where "x = (if ?n - 1 = 0 then 0 else a)"
  define t where "t = s\<lparr>shared_frames := (shared_frames s)[i := (x, ?n - 1)]\<rparr>"
  have e: "dec_ref a s = (?n - 1 = 0, t)"
    unfolding dec_ref_def Some t_def x_def option.case Let_def fa by (cases "?n - 1 = 0") simp_all
  have "shared_wf t \<and> refcount t b = (if b = a then unat (?n - 1) else refcount s b)"
  proof (rule shared_update [OF assms t_def i])
    show "\<forall>b. live_at s b i \<longrightarrow> b = a" using la live_at_unique_addr by blast
    show "\<forall>j. live_at s a j \<longrightarrow> j = i" using la assms unfolding shared_wf_def by blast
    show "0 < ?n - 1 \<longrightarrow> x = a" by (auto simp: x_def)
  qed
  then show ?thesis unfolding e fst_conv snd_conv one rc m by simp
qed

lemma inc_ref_spec:
  assumes "shared_wf s" and "0 < refcount s a \<or> (\<exists>e \<in> set (shared_frames s). snd e = 0)"
  shows "shared_wf (inc_ref a s) \<and>
    refcount (inc_ref a s) b = (if b = a then (refcount s a + 1) mod 256 else refcount s b)"
proof (cases "find_index (\<lambda>(x, n). x = a \<and> 0 < n) (shared_frames s)")
  case None
  then have dead: "\<forall>i. \<not> live_at s a i" by (simp add: find_live_None)
  then have rc: "refcount s a = 0" by (rule refcount_dead)
  with assms(2) obtain i where f: "find_index (\<lambda>(x, n). n = 0) (shared_frames s) = Some i"
    using find_index_ex [of _ "shared_frames s" "\<lambda>(x, n). n = 0"] by (auto simp: case_prod_beta)
  from find_index_SomeD(1,2) [OF f] have i: "i < length (shared_frames s)" "snd (shared_frames s ! i) = 0"
    by (auto simp: case_prod_beta)
  define t where "t = s\<lparr>shared_frames := (shared_frames s)[i := (a, 1)]\<rparr>"
  have e: "inc_ref a s = t" unfolding inc_ref_def None f t_def by simp
  have "shared_wf t \<and> refcount t b = (if b = a then unat (1 :: u8) else refcount s b)"
    by (rule shared_update [OF assms(1) t_def i(1)]) (use dead i in \<open>auto simp: live_at_def\<close>)
  then show ?thesis unfolding e rc by simp
next
  case (Some i)
  let ?n = "snd (shared_frames s ! i)"
  note la = find_live [OF Some]
  have rc: "refcount s a = unat ?n" by (rule refcount_live [OF assms(1) la])
  have i: "i < length (shared_frames s)" and fa: "fst (shared_frames s ! i) = a"
    using la by (auto simp: live_at_def)
  define t where "t = s\<lparr>shared_frames := (shared_frames s)[i := (a, ?n + 1)]\<rparr>"
  have e: "inc_ref a s = t" unfolding inc_ref_def Some t_def option.case fa ..
  have "shared_wf t \<and> refcount t b = (if b = a then unat (?n + 1) else refcount s b)"
  proof (rule shared_update [OF assms(1) t_def i])
    show "\<forall>b. live_at s b i \<longrightarrow> b = a" using la live_at_unique_addr by blast
    show "\<forall>j. live_at s a j \<longrightarrow> j = i" using la assms(1) unfolding shared_wf_def by blast
  qed simp
  moreover have "unat (?n + 1) = (unat ?n + 1) mod 256" by (simp add: unat_word_ariths)
  ultimately show ?thesis unfolding e rc by simp
qed

text \<open>When neither a live entry nor a free slot exists, the reference is silently not recorded.\<close>

lemma inc_ref_full:
  assumes "refcount s a = 0" and "\<forall>e \<in> set (shared_frames s). snd e \<noteq> 0"
  shows "inc_ref a s = s"
proof -
  have "find_index (\<lambda>(x, n). x = a \<and> 0 < n) (shared_frames s) = None"
    using assms(1) refcount_pos_iff [of s a] by (simp add: find_live_None)
  moreover have "find_index (\<lambda>(x, n). n = 0) (shared_frames s) = None"
    using assms(2) unfolding find_index_None_iff by (auto simp: case_prod_beta)
  ultimately show ?thesis by (simp add: inc_ref_def)
qed

lemma refcount_free_frame [simp]: "refcount (free_frame a s) b = refcount s b"
  unfolding refcount_def free_frame_other ..

lemma shared_wf_free_frame [simp]: "shared_wf (free_frame a s) = shared_wf s"
  by (simp add: shared_wf_def live_at_def)

lemma is_pinned_cong: "pinned s' = pinned s \<Longrightarrow> is_pinned a s' = is_pinned a s"
  by (simp add: is_pinned_def)

lemma release_spec:
  fixes a :: u64
  assumes "frames_inv s" and "shared_wf s"
  defines "t \<equiv> release_user_frame a s"
  shows "frames_inv t" and "shared_wf t" and "pinned t = pinned s"
    and "refcount t b = (if b = a then refcount s a - 1 else refcount s b)"
    and "free_set t = (if refcount s a \<le> 1 then free_set (free_frame a s) else free_set s)"
proof -
  note d = dec_ref_spec [OF assms(2), of a]
  show "frames_inv t" unfolding t_def using assms(1) by (rule frames_inv_release)
  have t: "t = (if refcount s a = 0 \<or> refcount s a = 1 then free_frame a (snd (dec_ref a s))
      else snd (dec_ref a s))"
  proof (cases "0 < refcount s a")
    case True
    then show ?thesis using d
      by (simp add: t_def release_user_frame_def is_tracked_refcount case_prod_beta)
  next
    case False
    then have "dec_ref a s = (False, s)"
      using refcount_pos_iff [of s a] find_live_None [of a s] by (simp add: dec_ref_def)
    with False show ?thesis by (simp add: t_def release_user_frame_def is_tracked_refcount)
  qed
  show "shared_wf t" unfolding t using d by simp
  show "pinned t = pinned s" unfolding t by simp
  show "refcount t b = (if b = a then refcount s a - 1 else refcount s b)"
    unfolding t using dec_ref_spec [OF assms(2), of a b] by (cases "b = a") simp_all
  have "free_set (free_frame a (snd (dec_ref a s))) = free_set (free_frame a s)"
    using free_frame_cases(2) [OF assms(1)] free_frame_cases(2) [of "snd (dec_ref a s)"] assms(1)
      is_pinned_cong [of "snd (dec_ref a s)" s] by simp
  then show "free_set t = (if refcount s a \<le> 1 then free_set (free_frame a s) else free_set s)"
    unfolding t by (auto simp: le_Suc_eq)
qed

lemma inc_ref_iter:
  assumes "shared_wf s" and "refcount s a = 0" and "\<exists>e \<in> set (shared_frames s). snd e = 0" and "n < 256"
  shows "shared_wf ((inc_ref a ^^ n) s) \<and> refcount ((inc_ref a ^^ n) s) a = n"
  using assms(4)
proof (induction n)
  case 0
  then show ?case using assms by simp
next
  case (Suc n)
  let ?t = "(inc_ref a ^^ n) s"
  from Suc have IH: "shared_wf ?t" "refcount ?t a = n" by simp_all
  have "0 < refcount ?t a \<or> (\<exists>e \<in> set (shared_frames ?t). snd e = 0)"
    using IH(2) assms(3) by (cases n) simp_all
  from inc_ref_spec [OF IH(1) this, of a] IH(2) Suc.prems show ?case by simp
qed

lemma inc_ref_iter_other:
  "frames_inv ((inc_ref a ^^ n) s) = frames_inv s" "free_set ((inc_ref a ^^ n) s) = free_set s"
  "pinned ((inc_ref a ^^ n) s) = pinned s"
  by (induction n) simp_all

lemma release_iter:
  assumes "frames_inv s" and "shared_wf s" and "\<not> is_pinned a s"
    and "unat a div FRAME_SIZE < MAX_MANAGED_FRAMES" and "0 < refcount s a" and "k \<le> refcount s a"
  shows "frames_inv ((release_user_frame a ^^ k) s) \<and> shared_wf ((release_user_frame a ^^ k) s) \<and>
    pinned ((release_user_frame a ^^ k) s) = pinned s \<and>
    refcount ((release_user_frame a ^^ k) s) a = refcount s a - k \<and>
    free_set ((release_user_frame a ^^ k) s) =
      (if k = refcount s a then insert (unat a div FRAME_SIZE) (free_set s) else free_set s)"
  using assms(6)
proof (induction k)
  case 0
  then show ?case using assms by simp
next
  case (Suc k)
  let ?t = "(release_user_frame a ^^ k) s"
  from Suc have IH: "frames_inv ?t" "shared_wf ?t" "pinned ?t = pinned s"
      "refcount ?t a = refcount s a - k" "free_set ?t = free_set s" by simp_all
  have np: "\<not> is_pinned a ?t" using assms(3) is_pinned_cong [OF IH(3)] by simp
  have ff: "free_set (free_frame a ?t) = insert (unat a div FRAME_SIZE) (free_set s)"
    using free_frame_cases(2) [OF IH(1), of a] np assms(4) IH(5) by simp
  note r = release_spec [OF IH(1,2), of a]
  have "refcount ?t a \<le> 1 \<longleftrightarrow> Suc k = refcount s a" using IH(4) Suc.prems by auto
  with r ff IH(3,4,5) show ?case by simp
qed

section \<open>Initialisation\<close>

lemma test_full: "i < MAX_MANAGED_FRAMES \<Longrightarrow> bitmap_test i (replicate BITMAP_SIZE 0xFF)"
proof -
  assume "i < MAX_MANAGED_FRAMES"
  then have "i div 8 < BITMAP_SIZE" by (rule managed_div [of i "replicate BITMAP_SIZE 0", simplified])
  moreover have "bit (0xFF :: u8) (i mod 8)"
  proof -
    have m: "(0xFF :: u8) = mask 8" by (simp add: mask_eq_exp_minus_1)
    show ?thesis unfolding m bit_mask_iff by simp
  qed
  ultimately show ?thesis by (simp add: bitmap_test_bit)
qed

text \<open>
  The indices the loop over one descriptor clears, given where it stands; it stops at the end of
  the bitmap.
\<close>

definition desc_frames :: "nat \<Rightarrow> nat \<Rightarrow> nat \<Rightarrow> nat \<Rightarrow> nat \<Rightarrow> nat set" where
  "desc_frames kernel_end fb_start fb_end stop frame_addr =
     {i. \<exists>k. let a = frame_addr + k * FRAME_SIZE in
          i = a div FRAME_SIZE \<and> a < stop \<and> kernel_end \<le> a \<and> \<not> (fb_start \<le> i \<and> i < fb_end) \<and>
          i < MAX_MANAGED_FRAMES}"

lemma desc_frames_step:
  "desc_frames kend fs fe stop a =
     (if a < stop \<and> kend \<le> a \<and> \<not> (fs \<le> a div FRAME_SIZE \<and> a div FRAME_SIZE < fe) \<and>
         a div FRAME_SIZE < MAX_MANAGED_FRAMES
      then insert (a div FRAME_SIZE) (desc_frames kend fs fe stop (a + FRAME_SIZE))
      else desc_frames kend fs fe stop (a + FRAME_SIZE))"
proof -
  have "desc_frames kend fs fe stop a =
      {i. i = a div FRAME_SIZE \<and> a < stop \<and> kend \<le> a \<and> \<not> (fs \<le> i \<and> i < fe) \<and> i < MAX_MANAGED_FRAMES} \<union>
      desc_frames kend fs fe stop (a + FRAME_SIZE)"
    (is "?L = ?H \<union> ?R")
  proof (intro set_eqI iffI)
    fix i assume "i \<in> ?L"
    then obtain k where k: "i = (a + k * FRAME_SIZE) div FRAME_SIZE" "a + k * FRAME_SIZE < stop"
        "kend \<le> a + k * FRAME_SIZE" "\<not> (fs \<le> i \<and> i < fe)" "i < MAX_MANAGED_FRAMES"
      by (auto simp: desc_frames_def Let_def)
    show "i \<in> ?H \<union> ?R"
    proof (cases k)
      case 0
      with k show ?thesis by simp
    next
      case (Suc m)
      with k have "i \<in> ?R" unfolding desc_frames_def Let_def
        by (auto simp: add.assoc intro!: exI [of _ m])
      then show ?thesis ..
    qed
  next
    fix i assume "i \<in> ?H \<union> ?R"
    then show "i \<in> ?L"
    proof
      assume "i \<in> ?H"
      then show ?thesis unfolding desc_frames_def Let_def by (auto intro!: exI [of _ 0])
    next
      assume "i \<in> ?R"
      then obtain m where "i = (a + FRAME_SIZE + m * FRAME_SIZE) div FRAME_SIZE" "a + FRAME_SIZE + m * FRAME_SIZE < stop"
          "kend \<le> a + FRAME_SIZE + m * FRAME_SIZE" "\<not> (fs \<le> i \<and> i < fe)" "i < MAX_MANAGED_FRAMES"
        by (auto simp: desc_frames_def Let_def)
      then show ?thesis unfolding desc_frames_def Let_def by (intro CollectI exI [of _ "Suc m"]) (simp add: add.assoc)
    qed
  qed
  then show ?thesis by auto
qed

lemma desc_frames_ge:
  assumes "i \<in> desc_frames kend fs fe stop a"
  shows "a div FRAME_SIZE \<le> i" and "i * FRAME_SIZE < stop" and "i < MAX_MANAGED_FRAMES"
    and "kend < (i + 1) * FRAME_SIZE" and "\<not> (fs \<le> i \<and> i < fe)"
proof -
  from assms obtain k where k: "i = (a + k * FRAME_SIZE) div FRAME_SIZE" "a + k * FRAME_SIZE < stop"
      "kend \<le> a + k * FRAME_SIZE" "\<not> (fs \<le> i \<and> i < fe)" "i < MAX_MANAGED_FRAMES"
    by (auto simp: desc_frames_def Let_def)
  show "a div FRAME_SIZE \<le> i" unfolding k(1) by (simp add: FRAME_SIZE_def)
  have "i * FRAME_SIZE \<le> a + k * FRAME_SIZE" unfolding k(1) by (rule div_times_less_eq_dividend)
  with k(2) show "i * FRAME_SIZE < stop" by simp
  have "a + k * FRAME_SIZE < (i + 1) * FRAME_SIZE" unfolding k(1) by (simp add: FRAME_SIZE_def)
  with k(3) show "kend < (i + 1) * FRAME_SIZE" by simp
  show "i < MAX_MANAGED_FRAMES" "\<not> (fs \<le> i \<and> i < fe)" by (rule k(5), rule k(4))
qed

lemma finite_desc_frames [simp]: "finite (desc_frames kend fs fe stop a)"
  by (rule finite_subset [of _ "{..<MAX_MANAGED_FRAMES}"]) (auto dest: desc_frames_ge(3))

lemma desc_frames_fresh: "a div FRAME_SIZE \<notin> desc_frames kend fs fe stop (a + FRAME_SIZE)"
proof
  assume "a div FRAME_SIZE \<in> desc_frames kend fs fe stop (a + FRAME_SIZE)"
  from desc_frames_ge(1) [OF this] show False by (simp add: FRAME_SIZE_def)
qed

lemma desc_frames_done:
  assumes "stop \<le> a \<or> MAX_MANAGED_FRAMES \<le> a div FRAME_SIZE"
  shows "desc_frames kend fs fe stop a = {}"
proof -
  have "i \<notin> desc_frames kend fs fe stop a" for i
  proof
    assume m: "i \<in> desc_frames kend fs fe stop a"
    then obtain k where "a + k * FRAME_SIZE < stop" by (auto simp: desc_frames_def Let_def)
    with assms desc_frames_ge(1,3) [OF m] show False by linarith
  qed
  then show ?thesis by blast
qed

lemma init_desc_spec:
  assumes "length bm = BITMAP_SIZE" and "init_desc kend fs fe stop a (bm, tot, fr) = (bm', tot', fr')"
  shows "length bm' = BITMAP_SIZE \<and>
    (\<forall>j. bitmap_test j bm' \<longleftrightarrow> bitmap_test j bm \<and> j \<notin> desc_frames kend fs fe stop a) \<and>
    tot' = tot + card (desc_frames kend fs fe stop a) \<and> fr' = fr + card (desc_frames kend fs fe stop a)"
  using assms
proof (induction kend fs fe stop a "(bm, tot, fr)" arbitrary: bm tot fr rule: init_desc.induct)
  case (1 kend fs fe stop a bm tot fr)
  let ?i = "a div FRAME_SIZE" and ?R = "desc_frames kend fs fe stop (a + FRAME_SIZE)"
  note step = desc_frames_step [of kend fs fe stop a]
  note unf = init_desc.simps [of kend fs fe stop a "(bm, tot, fr)"]
  consider (fin) "stop \<le> a \<or> MAX_MANAGED_FRAMES \<le> ?i"
    | (low) "a < stop" "\<not> MAX_MANAGED_FRAMES \<le> ?i" "a < kend"
    | (fb) "a < stop" "\<not> MAX_MANAGED_FRAMES \<le> ?i" "\<not> a < kend" "fs \<le> ?i \<and> ?i < fe"
    | (clear) "a < stop" "\<not> MAX_MANAGED_FRAMES \<le> ?i" "\<not> a < kend" "\<not> (fs \<le> ?i \<and> ?i < fe)"
    by linarith
  then show ?case
  proof cases
    case fin
    then have "init_desc kend fs fe stop a (bm, tot, fr) = (bm, tot, fr)" unfolding unf by auto
    with "1.prems" desc_frames_done [OF fin] show ?thesis by simp
  next
    case low
    then have e: "init_desc kend fs fe stop (a + FRAME_SIZE) (bm, tot, fr) = (bm', tot', fr')"
      and r: "desc_frames kend fs fe stop a = ?R"
      using "1.prems"(2) unfolding unf step by simp_all
    from "1.hyps"(1) [OF low(1) refl low(2,3) "1.prems"(1) e] show ?thesis unfolding r .
  next
    case fb
    then have e: "init_desc kend fs fe stop (a + FRAME_SIZE) (bm, tot, fr) = (bm', tot', fr')"
      and r: "desc_frames kend fs fe stop a = ?R"
      using "1.prems"(2) unfolding unf step by simp_all
    from "1.hyps"(2) [OF fb(1) refl fb(2-4) "1.prems"(1) e] show ?thesis unfolding r .
  next
    case clear
    then have e: "init_desc kend fs fe stop (a + FRAME_SIZE) (bitmap_clear ?i bm, tot + 1, fr + 1) =
        (bm', tot', fr')" and r: "desc_frames kend fs fe stop a = insert ?i ?R"
      using "1.prems"(2) unfolding unf step Let_def by (auto split: if_splits)
    have c: "card (insert ?i ?R) = Suc (card ?R)" using desc_frames_fresh by (intro card_insert_disjoint) simp_all
    have len: "length (bitmap_clear ?i bm) = BITMAP_SIZE" using "1.prems"(1) by simp
    have t: "bitmap_test j (bitmap_clear ?i bm) \<longleftrightarrow> j \<noteq> ?i \<and> bitmap_test j bm" for j
      using bitmap_test_clear [OF "1.prems"(1)] clear(2) by simp
    from "1.hyps"(3) [OF clear(1) refl clear(2-4) refl refl len e] show ?thesis
      unfolding r c t by auto
  qed
qed

text \<open>The frames of all conventional descriptors; firmware ranges are page aligned and disjoint.\<close>

definition md_stop :: "memory_descriptor \<Rightarrow> nat" where
  "md_stop d = unat (md_phys_start d) + unat (md_page_count d) * FRAME_SIZE"

definition mmap_wf :: "memory_descriptor list \<Rightarrow> bool" where
  "mmap_wf ds \<longleftrightarrow>
     (\<forall>d \<in> set ds. unat (md_phys_start d) mod FRAME_SIZE = 0 \<and> md_stop d < 2 ^ 64) \<and>
     sorted_wrt (\<lambda>d e. md_stop d \<le> unat (md_phys_start e) \<or> md_stop e \<le> unat (md_phys_start d)) ds"

definition map_frames :: "nat \<Rightarrow> nat \<Rightarrow> nat \<Rightarrow> memory_descriptor list \<Rightarrow> nat set" where
  "map_frames kend fs fe ds =
     (\<Union>d \<in> {d \<in> set ds. md_ty d = MEMORY_CONVENTIONAL}.
        {i. kend \<le> i * FRAME_SIZE \<and> unat (md_phys_start d) \<le> i * FRAME_SIZE \<and> i * FRAME_SIZE < md_stop d \<and>
            \<not> (fs \<le> i \<and> i < fe) \<and> i < MAX_MANAGED_FRAMES})"

lemma desc_frames_aligned:
  assumes "a mod FRAME_SIZE = 0"
  shows "desc_frames kend fs fe stop a =
    {i. kend \<le> i * FRAME_SIZE \<and> a \<le> i * FRAME_SIZE \<and> i * FRAME_SIZE < stop \<and>
        \<not> (fs \<le> i \<and> i < fe) \<and> i < MAX_MANAGED_FRAMES}"
    (is "?L = ?R")
proof (intro set_eqI iffI)
  from assms obtain c where c: "a = c * FRAME_SIZE" by (auto simp: mod_eq_0_iff_dvd dvd_def mult.commute)
  have dv: "(a + k * FRAME_SIZE) div FRAME_SIZE = c + k" for k unfolding c by (simp add: FRAME_SIZE_def)
  {
    fix i assume "i \<in> ?L"
    then obtain k where "i = c + k" "a + k * FRAME_SIZE < stop" "kend \<le> a + k * FRAME_SIZE"
        "\<not> (fs \<le> i \<and> i < fe)" "i < MAX_MANAGED_FRAMES"
      unfolding desc_frames_def Let_def dv by blast
    then show "i \<in> ?R" by (simp add: c algebra_simps)
  next
    fix i assume r: "i \<in> ?R"
    then have "c * FRAME_SIZE \<le> i * FRAME_SIZE" by (simp add: c)
    then have "c \<le> i" by (simp add: FRAME_SIZE_def)
    then obtain k where k: "i = c + k" by (metis le_iff_add)
    show "i \<in> ?L" unfolding desc_frames_def Let_def dv
      by (intro CollectI exI [of _ k]) (use r k in \<open>simp add: c algebra_simps\<close>)
  }
qed

lemma md_stop_word:
  assumes "md_stop d < 2 ^ 64"
  shows "unat (md_phys_start d + md_page_count d * of_nat FRAME_SIZE) = md_stop d"
proof -
  have "(md_phys_start d + md_page_count d * of_nat FRAME_SIZE :: u64) = of_nat (md_stop d)"
    by (simp add: md_stop_def)
  then show ?thesis using assms by (simp only: unat_of_nat_u64)
qed

lemma map_frames_Cons:
  "map_frames kend fs fe (d # ds) =
     (if md_ty d = MEMORY_CONVENTIONAL
      then {i. kend \<le> i * FRAME_SIZE \<and> unat (md_phys_start d) \<le> i * FRAME_SIZE \<and> i * FRAME_SIZE < md_stop d \<and>
               \<not> (fs \<le> i \<and> i < fe) \<and> i < MAX_MANAGED_FRAMES} \<union> map_frames kend fs fe ds
      else map_frames kend fs fe ds)"
  unfolding map_frames_def by auto

lemma finite_map_frames [simp]: "finite (map_frames kend fs fe ds)"
  by (rule finite_subset [of _ "{..<MAX_MANAGED_FRAMES}"]) (auto simp: map_frames_def)

lemma map_frames_disjoint:
  assumes "mmap_wf (d # ds)"
  shows "{i. kend \<le> i * FRAME_SIZE \<and> unat (md_phys_start d) \<le> i * FRAME_SIZE \<and> i * FRAME_SIZE < md_stop d \<and>
      \<not> (fs \<le> i \<and> i < fe) \<and> i < MAX_MANAGED_FRAMES} \<inter> map_frames kend fs fe ds = {}"
  using assms unfolding mmap_wf_def map_frames_def by fastforce

lemma init_map_spec:
  assumes "mmap_wf ds" and "length bm = BITMAP_SIZE"
    and "init_map kend fs fe ds (bm, tot, fr) = (bm', tot', fr')"
  shows "length bm' = BITMAP_SIZE \<and>
    (\<forall>j. bitmap_test j bm' \<longleftrightarrow> bitmap_test j bm \<and> j \<notin> map_frames kend fs fe ds) \<and>
    tot' = tot + card (map_frames kend fs fe ds) \<and> fr' = fr + card (map_frames kend fs fe ds)"
  using assms
proof (induction ds arbitrary: bm tot fr)
  case Nil
  then show ?case by (simp add: map_frames_def)
next
  case (Cons d ds)
  have wf: "mmap_wf ds" using Cons.prems(1) by (simp add: mmap_wf_def)
  show ?case
  proof (cases "md_ty d = MEMORY_CONVENTIONAL")
    case False
    with Cons.prems(3) have "init_map kend fs fe ds (bm, tot, fr) = (bm', tot', fr')" by simp
    from Cons.IH [OF wf Cons.prems(2) this] False show ?thesis by (simp add: map_frames_Cons)
  next
    case True
    let ?a = "unat (md_phys_start d)" and ?M = "map_frames kend fs fe ds"
    let ?D = "desc_frames kend fs fe (md_stop d) ?a"
    have al: "?a mod FRAME_SIZE = 0" and lt: "md_stop d < 2 ^ 64"
      using Cons.prems(1) by (simp_all add: mmap_wf_def)
    obtain bm1 tot1 fr1 where d: "init_desc kend fs fe (md_stop d) ?a (bm, tot, fr) = (bm1, tot1, fr1)"
      by (metis prod_cases3)
    have r: "init_map kend fs fe ds (bm1, tot1, fr1) = (bm', tot', fr')"
      using Cons.prems(3) True d by (simp add: md_stop_word [OF lt] del: of_nat_mult)
    note D = init_desc_spec [OF Cons.prems(2) d]
    have len: "length bm1 = BITMAP_SIZE" using D by blast
    note M = Cons.IH [OF wf len r]
    have u: "map_frames kend fs fe (d # ds) = ?D \<union> ?M" and dj: "?D \<inter> ?M = {}"
      using True map_frames_disjoint [OF Cons.prems(1)]
      unfolding map_frames_Cons desc_frames_aligned [OF al] by simp_all
    have "card (?D \<union> ?M) = card ?D + card ?M" using dj by (intro card_Un_disjoint) simp_all
    with D M show ?thesis unfolding u by simp
  qed
qed

lemma reserve_all:
  assumes "frames_inv s"
  shows "frames_inv (fold reserve_frame as s) \<and> pinned (fold reserve_frame as s) = pinned s \<and>
    free_set (fold reserve_frame as s) = free_set s - (\<lambda>a. unat a div FRAME_SIZE) ` set as"
  using assms
proof (induction as arbitrary: s)
  case Nil
  then show ?case by simp
next
  case (Cons a as)
  from Cons.IH [OF reserve_frame_cases(1) [OF Cons.prems]] show ?case
    using reserve_frame_cases(2) [OF Cons.prems, of a] by auto
qed

lemma frames_init_spec:
  fixes info :: boot_info and kernel_end_raw cr3 :: u64 and rd :: "u64 \<Rightarrow> u64" and s :: frame_state
  assumes "length (bitmap s) = BITMAP_SIZE" and "mmap_wf (bi_mmap info)"
  defines "t \<equiv> frames_init info kernel_end_raw rd cr3 s"
  shows "frames_inv t" and "pinned t = pinned (pin_range (bi_fb_addr info) (bi_fb_addr info + fb_bytes info) s)"
    and "free_set t =
      map_frames (unat (kernel_end_of kernel_end_raw)) (unat (bi_fb_addr info div of_nat FRAME_SIZE))
        ((unat (bi_fb_addr info + fb_bytes info) + FRAME_SIZE - 1) div FRAME_SIZE) (bi_mmap info)
      - (\<lambda>a. unat a div FRAME_SIZE) ` set (page_table_frames rd cr3)"
proof -
  let ?k = "unat (kernel_end_of kernel_end_raw)" and ?fs = "unat (bi_fb_addr info div of_nat FRAME_SIZE)"
  let ?fe = "(unat (bi_fb_addr info + fb_bytes info) + FRAME_SIZE - 1) div FRAME_SIZE"
  let ?M = "map_frames ?k ?fs ?fe (bi_mmap info)"
  define s1 where "s1 = pin_range (bi_fb_addr info) (bi_fb_addr info + fb_bytes info) s"
  have b1: "length (bitmap s1) = BITMAP_SIZE" using assms(1) by (simp add: s1_def pin_range_def Let_def)
  obtain bm tot fr where m: "init_map ?k ?fs ?fe (bi_mmap info) (replicate BITMAP_SIZE 0xFF, 0, 0) = (bm, tot, fr)"
    by (metis prod_cases3)
  define u where "u = s1\<lparr>bitmap := bm, total_frames := tot, free_frames := fr\<rparr>"
  have t: "t = fold reserve_frame (page_table_frames rd cr3) u"
    unfolding t_def frames_init_def reserve_active_page_tables_def Let_def s1_def [symmetric] b1 m
    by (simp add: u_def)
  have len: "length (replicate BITMAP_SIZE (0xFF :: u8)) = BITMAP_SIZE" by simp
  note M = init_map_spec [OF assms(2) len m]
  have sub: "?M \<subseteq> {..<MAX_MANAGED_FRAMES}" by (auto simp: map_frames_def)
  have "free_set u = {i. i < MAX_MANAGED_FRAMES \<and> \<not> bitmap_test i bm}" by (simp add: free_set_def u_def)
  also have "\<dots> = ?M" using M test_full sub by blast
  finally have fu: "free_set u = ?M" .
  have "frames_inv u" unfolding frames_inv_def fu using M by (simp add: u_def)
  from reserve_all [OF this, of "page_table_frames rd cr3"] fu show "frames_inv t"
    and "free_set t = ?M - (\<lambda>a. unat a div FRAME_SIZE) ` set (page_table_frames rd cr3)"
    and "pinned t = pinned (pin_range (bi_fb_addr info) (bi_fb_addr info + fb_bytes info) s)"
    unfolding t s1_def [symmetric] by (simp_all add: u_def)
qed

section \<open>Pinned frames\<close>

lemma unat_page_base: "unat (a AND NOT 0xFFF :: u64) = unat a div FRAME_SIZE * FRAME_SIZE"
proof -
  have m: "(0xFFF :: u64) = mask 12" by (simp add: mask_eq_exp_minus_1)
  have "a AND NOT (mask 12) = push_bit 12 (drop_bit 12 a)"
    by (rule bit_eqI) (auto simp: bit_simps)
  then have "a AND NOT 0xFFF = (a div 4096) * 4096"
    unfolding m by (simp add: push_bit_eq_mult drop_bit_eq_div)
  then have "unat (a AND NOT 0xFFF) = (unat (a div 4096) * 4096) mod 2 ^ 64"
    by (simp add: unat_word_ariths)
  also have "\<dots> = unat a div 4096 * 4096"
  proof -
    have "unat (a div 4096) = unat a div 4096" by (simp add: unat_div)
    moreover have "unat a div 4096 * 4096 < 2 ^ LENGTH(64)"
      using div_times_less_eq_dividend unsigned_less by (rule le_less_trans)
    ultimately show ?thesis by simp
  qed
  finally show ?thesis by (simp add: FRAME_SIZE_def)
qed

definition pins_aligned :: "frame_state \<Rightarrow> bool" where
  "pins_aligned s \<longleftrightarrow> (\<forall>(b, e) \<in> set (pinned s). unat b mod FRAME_SIZE = 0 \<and> unat e mod FRAME_SIZE = 0)"

text \<open>No free frame lies in a pinned range.\<close>

definition pins_safe :: "frame_state \<Rightarrow> bool" where
  "pins_safe s \<longleftrightarrow> (\<forall>i \<in> free_set s. \<not> is_pinned (of_nat (i * FRAME_SIZE)) s)"

lemma page_bound_iff:
  fixes x a :: nat
  assumes "x mod FRAME_SIZE = 0"
  shows "x \<le> a \<longleftrightarrow> x div FRAME_SIZE \<le> a div FRAME_SIZE"
proof -
  have "x = x div FRAME_SIZE * FRAME_SIZE" using assms by (auto simp: FRAME_SIZE_def)
  then show ?thesis by (metis FRAME_SIZE_def less_eq_div_iff_mult_less_eq zero_less_numeral)
qed

lemma is_pinned_frame:
  assumes "pins_aligned s" and "unat a div FRAME_SIZE = unat b div FRAME_SIZE"
  shows "is_pinned a s = is_pinned b s"
proof -
  have "(unat x \<le> unat a \<longleftrightarrow> unat x \<le> unat b) \<and> (unat a < unat x \<longleftrightarrow> unat b < unat x)"
    if "unat x mod FRAME_SIZE = 0" for x :: u64
    unfolding not_le [symmetric] page_bound_iff [OF that] assms(2) by simp
  then show ?thesis using assms(1)
    unfolding is_pinned_def list_ex_iff pins_aligned_def word_le_nat_alt word_less_nat_alt
    by (intro bex_cong refl) (auto simp: case_prod_beta)
qed

text \<open>Every operation of the allocator the rest of the kernel can call.\<close>

inductive frame_step :: "frame_state \<Rightarrow> frame_state \<Rightarrow> bool" where
  step_alloc: "allocate_frame s = Some (p, s') \<Longrightarrow> frame_step s s'"
| step_allocs: "allocate_frames n s = Some (p, s') \<Longrightarrow> frame_step s s'"
| step_free: "frame_step s (free_frame a s)"
| step_reserve: "frame_step s (reserve_frame a s)"
| step_inc: "frame_step s (inc_ref a s)"
| step_dec: "frame_step s (snd (dec_ref a s))"
| step_release: "frame_step s (release_user_frame a s)"

definition frames_ok :: "frame_state \<Rightarrow> bool" where
  "frames_ok s \<longleftrightarrow> frames_inv s \<and> pins_aligned s \<and> pins_safe s"

lemma frames_ok_smaller:
  assumes "frames_ok s" and "frames_inv s'" and "pinned s' = pinned s" and "free_set s' \<subseteq> free_set s"
  shows "frames_ok s'"
  using assms by (auto simp: frames_ok_def pins_aligned_def pins_safe_def is_pinned_def)

lemma frames_ok_free:
  assumes "frames_ok s"
  shows "frames_ok (free_frame a s)"
proof (cases "is_pinned a s \<or> MAX_MANAGED_FRAMES \<le> unat a div FRAME_SIZE")
  case True
  have inv: "frames_inv s" using assms by (simp add: frames_ok_def)
  show ?thesis
    by (rule frames_ok_smaller [OF assms free_frame_cases(1) [OF inv]])
      (use True free_frame_cases(2) [OF inv, of a] in simp_all)
next
  case False
  let ?i = "unat a div FRAME_SIZE"
  have inv: "frames_inv s" and al: "pins_aligned s" and ps: "pins_safe s"
    using assms by (simp_all add: frames_ok_def)
  have fs: "free_set (free_frame a s) = insert ?i (free_set s)"
    using free_frame_cases(2) [OF inv, of a] False by simp
  have "unat (of_nat (?i * FRAME_SIZE) :: u64) div FRAME_SIZE = ?i"
    using frame_addr_unat [of ?i] False by (simp only: not_le de_Morgan_disj) (simp add: FRAME_SIZE_def)
  then have "is_pinned (of_nat (?i * FRAME_SIZE)) s = is_pinned a s"
    using al by (intro is_pinned_frame)
  then have "\<not> is_pinned (of_nat (?i * FRAME_SIZE)) s" using False by blast
  then have "pins_safe (free_frame a s)"
    unfolding pins_safe_def fs is_pinned_cong [OF free_frame_other(2)] using ps
    unfolding pins_safe_def by blast
  moreover have "pins_aligned (free_frame a s)" using al by (simp add: pins_aligned_def)
  ultimately show ?thesis using free_frame_cases(1) [OF inv] by (simp add: frames_ok_def)
qed

lemma frames_ok_dec: "frames_ok s \<Longrightarrow> frames_ok (snd (dec_ref a s))"
  by (rule frames_ok_smaller [where s = s]) (auto simp: frames_ok_def)

lemma allocate_frames_Some:
  assumes "frames_inv s" and "allocate_frames cnt s = Some (p, s')"
  obtains i where "0 < cnt" and "{i..<i + cnt} \<subseteq> free_set s" and "p = of_nat (i * FRAME_SIZE)"
    and "free_set s' = free_set s - {i..<i + cnt}" and "frames_inv s'" and "pinned s' = pinned s"
    and "\<forall>k < i. \<not> {k..<k + cnt} \<subseteq> free_set s"
proof -
  from assms(2) obtain i where c: "0 < cnt" and r: "alloc_run (bitmap s) cnt 0 0 0 = Some i"
      and p: "p = of_nat (i * FRAME_SIZE)"
      and s': "s' = s\<lparr>bitmap := fold bitmap_set [i..<i + cnt] (bitmap s), free_frames := free_frames s - cnt\<rparr>"
    by (auto simp: allocate_frames_def split: if_splits option.splits)
  from alloc_run_spec [OF scan_inv_start [OF c], of "bitmap s"] r
  have f: "{i..<i + cnt} \<subseteq> free_set s" "\<forall>k < i. \<not> {k..<k + cnt} \<subseteq> free_set s"
    by (simp_all add: run_free_set)
  show thesis
  proof (rule that [of i])
    show "pinned s' = pinned s" unfolding s' by simp
  qed (fact c f p free_set_set_run [OF assms(1) f(1) s'])+
qed

lemma frame_step_ok:
  assumes "frame_step s s'" and "frames_ok s"
  shows "frames_ok s'"
  using assms
proof (cases rule: frame_step.cases)
  case (step_alloc p)
  have inv: "frames_inv s" using assms(2) by (simp add: frames_ok_def)
  obtain i where "free_set s' = free_set s - {i}" "frames_inv s'" "pinned s' = pinned s"
    by (rule allocate_frame_Some [OF inv step_alloc])
  then show ?thesis by (intro frames_ok_smaller [OF assms(2)]) auto
next
  case (step_allocs n p)
  have inv: "frames_inv s" using assms(2) by (simp add: frames_ok_def)
  obtain i where "free_set s' = free_set s - {i..<i + n}" "frames_inv s'" "pinned s' = pinned s"
    by (rule allocate_frames_Some [OF inv step_allocs])
  then show ?thesis by (intro frames_ok_smaller [OF assms(2)]) auto
next
  case (step_free a)
  then show ?thesis using frames_ok_free [OF assms(2)] by simp
next
  case (step_reserve a)
  have inv: "frames_inv s" using assms(2) by (simp add: frames_ok_def)
  show ?thesis unfolding step_reserve
    by (rule frames_ok_smaller [OF assms(2)]) (use reserve_frame_cases [OF inv] in auto)
next
  case (step_inc a)
  show ?thesis unfolding step_inc
    by (rule frames_ok_smaller [OF assms(2)]) (use assms(2) in \<open>simp_all add: frames_ok_def\<close>)
next
  case (step_dec a)
  then show ?thesis using frames_ok_dec [OF assms(2)] by simp
next
  case (step_release a)
  then show ?thesis
    using frames_ok_free [OF assms(2), of a] frames_ok_dec [OF assms(2), of a]
      frames_ok_free [OF frames_ok_dec [OF assms(2)], of a a]
    by (simp add: release_user_frame_def case_prod_beta)
qed

lemma frame_steps_ok: "frame_step\<^sup>*\<^sup>* s s' \<Longrightarrow> frames_ok s \<Longrightarrow> frames_ok s'"
  by (induction rule: rtranclp_induct) (auto intro: frame_step_ok)

lemma frame_step_pinned: "frame_step s s' \<Longrightarrow> pinned s' = pinned s"
  by (cases rule: frame_step.cases)
    (auto simp: allocate_frame_def allocate_frames_def release_user_frame_def case_prod_beta
       split: option.splits if_splits)

lemma frame_steps_pinned: "frame_step\<^sup>*\<^sup>* s s' \<Longrightarrow> pinned s' = pinned s"
  by (induction rule: rtranclp_induct) (auto dest: frame_step_pinned)

lemma pin_range_one:
  assumes "pinned s = []"
  shows "pinned (pin_range b e s) = [(b AND NOT 0xFFF, (e + 0xFFF) AND NOT 0xFFF)]"
  using assms by (simp add: pin_range_def MAX_PINNED_RANGES_def Let_def)

lemma frames_init_ok:
  assumes "length (bitmap s) = BITMAP_SIZE" and "mmap_wf (bi_mmap info)" and "pinned s = []"
  shows "frames_ok (frames_init info kernel_end_raw rd cr3 s)"
proof -
  let ?t = "frames_init info kernel_end_raw rd cr3 s"
  let ?b = "bi_fb_addr info" and ?e = "bi_fb_addr info + fb_bytes info"
  note I = frames_init_spec [OF assms(1,2), of kernel_end_raw rd cr3]
  have p: "pinned ?t = [(?b AND NOT 0xFFF, (?e + 0xFFF) AND NOT 0xFFF)]"
    using I(2) pin_range_one [OF assms(3)] by simp
  have ub: "unat (?b AND NOT 0xFFF) = unat ?b div FRAME_SIZE * FRAME_SIZE"
    and ue: "unat ((?e + 0xFFF) AND NOT 0xFFF) = unat (?e + 0xFFF) div FRAME_SIZE * FRAME_SIZE"
    by (rule unat_page_base)+
  have al: "pins_aligned ?t" unfolding pins_aligned_def p
    by (simp only: list.set ball_simps case_prod_conv ub ue mod_mult_self2_is_0 simp_thms)
  have ip: "is_pinned x ?t \<longleftrightarrow> unat ?b div FRAME_SIZE * FRAME_SIZE \<le> unat x \<and>
      unat x < unat (?e + 0xFFF) div FRAME_SIZE * FRAME_SIZE" for x
    unfolding is_pinned_def p list_ex_iff list.set ub [symmetric] ue [symmetric]
    by (simp only: bex_simps case_prod_conv word_le_nat_alt word_less_nat_alt simp_thms)
  have "\<not> is_pinned (of_nat (i * FRAME_SIZE)) ?t" if i: "i \<in> free_set ?t" for i
  proof
    assume "is_pinned (of_nat (i * FRAME_SIZE)) ?t"
    moreover have im: "i < MAX_MANAGED_FRAMES" using i by (simp add: free_set_def)
    ultimately have "unat ?b div FRAME_SIZE * FRAME_SIZE \<le> i * FRAME_SIZE"
        and "i * FRAME_SIZE < unat (?e + 0xFFF) div FRAME_SIZE * FRAME_SIZE"
      unfolding ip frame_addr_unat [OF im] by blast+
    then have "unat ?b div FRAME_SIZE \<le> i" and l: "i < unat (?e + 0xFFF) div FRAME_SIZE"
      by (simp_all add: FRAME_SIZE_def)
    moreover have "unat (?e + 0xFFF) \<le> unat ?e + FRAME_SIZE - 1"
      using unat_plus_if_size by (simp add: unat_word_ariths FRAME_SIZE_def)
    then have "unat (?e + 0xFFF) div FRAME_SIZE \<le> (unat ?e + FRAME_SIZE - 1) div FRAME_SIZE"
      by (rule div_le_mono)
    moreover have "unat (?b div of_nat FRAME_SIZE) = unat ?b div FRAME_SIZE"
      by (simp add: unat_div FRAME_SIZE_def)
    ultimately show False using i unfolding I(3) map_frames_def by auto
  qed
  then show ?thesis using I(1) al by (simp add: frames_ok_def pins_safe_def)
qed

section \<open>Properties\<close>

text \<open>A concrete allocator whose free frames are exactly the listed ones.\<close>

definition w_frames :: "nat list \<Rightarrow> frame_state" where
  "w_frames is = \<lparr>bitmap = fold bitmap_clear is (replicate BITMAP_SIZE 0xFF), total_frames = length is,
     free_frames = length is, pinned = [], shared_frames = [(0, 0), (0, 0)]\<rparr>"

lemma bitmap_test_clear_all:
  assumes "length bm = BITMAP_SIZE" and "\<forall>i \<in> set is. i < MAX_MANAGED_FRAMES"
  shows "length (fold bitmap_clear is bm) = BITMAP_SIZE \<and>
    (bitmap_test j (fold bitmap_clear is bm) \<longleftrightarrow> j \<notin> set is \<and> bitmap_test j bm)"
  using assms
proof (induction "is" arbitrary: bm)
  case (Cons i "is")
  then show ?case using bitmap_test_clear [of bm i j] by auto
qed simp

lemma w_frames_free:
  assumes "distinct is" and "\<forall>i \<in> set is. i < MAX_MANAGED_FRAMES"
  shows "free_set (w_frames is) = set is" and "frames_inv (w_frames is)"
proof -
  have l: "length (replicate BITMAP_SIZE (0xFF :: u8)) = BITMAP_SIZE" by simp
  note c = bitmap_test_clear_all [OF l assms(2)]
  have b: "bitmap (w_frames is) = fold bitmap_clear is (replicate BITMAP_SIZE 0xFF)"
    by (simp add: w_frames_def)
  have "i \<in> free_set (w_frames is) \<longleftrightarrow> i \<in> set is" for i
    unfolding free_set_def b mem_Collect_eq using conjunct2 [OF c, of i] test_full [of i] assms(2) by blast
  then show fs: "free_set (w_frames is) = set is" by blast
  show "frames_inv (w_frames is)" unfolding frames_inv_def fs b
    using conjunct1 [OF c] distinct_card [OF assms(1)] by (simp add: w_frames_def)
qed

lemma managed_limit: "MAX_MANAGED_FRAMES = 8388608"
  by (simp add: MAX_MANAGED_FRAMES_def BITMAP_SIZE_def)

text \<open>
  C6: \<open>init\<close> makes free exactly the frames of the conventional memory descriptors that lie above
  the kernel image, outside the frame buffer and below the bitmap's limit, minus the frames of the
  page tables the firmware left active; and the free counter equals their number.
\<close>

theorem frames_init_exact:
  assumes "length (bitmap s) = BITMAP_SIZE" and "mmap_wf (bi_mmap info)"
  shows "frames_inv (frames_init info kernel_end_raw rd cr3 s) \<and>
    free_set (frames_init info kernel_end_raw rd cr3 s) =
      {i. i < MAX_MANAGED_FRAMES \<and>
          (\<exists>d \<in> set (bi_mmap info). md_ty d = MEMORY_CONVENTIONAL \<and>
             unat (md_phys_start d) \<le> i * FRAME_SIZE \<and> i * FRAME_SIZE < md_stop d) \<and>
          unat (kernel_end_of kernel_end_raw) \<le> i * FRAME_SIZE \<and>
          \<not> (unat (bi_fb_addr info) div FRAME_SIZE \<le> i \<and>
             i < (unat (bi_fb_addr info + fb_bytes info) + FRAME_SIZE - 1) div FRAME_SIZE)}
      - {unat a div FRAME_SIZE |a. a \<in> set (page_table_frames rd cr3)}"
proof -
  have "unat (bi_fb_addr info div of_nat FRAME_SIZE) = unat (bi_fb_addr info) div FRAME_SIZE"
    by (simp add: unat_div FRAME_SIZE_def)
  then show ?thesis
    using frames_init_spec(1,3) [OF assms, of kernel_end_raw rd cr3] unfolding map_frames_def by auto
qed

definition w_boot :: boot_info where
  "w_boot = \<lparr>bi_magic = 0x4D4F5249, bi_version = 5, bi_fb_addr = 0x80000000, bi_fb_width = 800, bi_fb_height = 600, bi_fb_stride = 800, bi_fb_bpp = 32,
     bi_mmap = [\<lparr>md_ty = 7, md_phys_start = 0x100000, md_page_count = 0x1000\<rparr>,
                \<lparr>md_ty = 2, md_phys_start = 0x2000000, md_page_count = 16\<rparr>],
     bi_svc_addr = 0, bi_svc_count = 0, bi_svc_entry_size = 24, bi_rsdp_addr = 0, bi_boot_disk_valid = 0, bi_boot_disk_dev = 0,
     bi_boot_disk_func = 0\<rparr>"

lemma w_boot_wf: "mmap_wf (bi_mmap w_boot)"
  by (simp add: w_boot_def mmap_wf_def md_stop_def FRAME_SIZE_def)

theorem frames_init_exact_witness:
  "frames_inv (frames_init w_boot 0x200000 (\<lambda>_. 0) 0x300000 (w_frames [])) \<and>
   0x400 \<in> free_set (frames_init w_boot 0x200000 (\<lambda>_. 0) 0x300000 (w_frames [])) \<and>
   0x300 \<notin> free_set (frames_init w_boot 0x200000 (\<lambda>_. 0) 0x300000 (w_frames []))"
proof -
  have l: "length (bitmap (w_frames [])) = BITMAP_SIZE" by (simp add: w_frames_def)
  have p: "page_table_frames (\<lambda>_. 0) 0x300000 = [0x300000]"
    by (simp add: page_table_frames_def)
  have k: "kernel_end_of 0x200000 = 0x200000" by (simp add: kernel_end_of_def)
  show ?thesis
    using frames_init_exact [OF l w_boot_wf, of "0x200000" "\<lambda>_. 0" "0x300000"]
    by (simp add: p k w_boot_def MEMORY_CONVENTIONAL_def md_stop_def FRAME_SIZE_def managed_limit)
qed

text \<open>
  C7: the frame buffer is never handed out. After \<open>init\<close> and any sequence of allocations,
  releases, reservations and reference-count changes, whatever addresses they are given, the free
  counter is exact and no frame of the frame buffer is free; so no allocation returns one.
\<close>

theorem framebuffer_never_allocated:
  assumes "length (bitmap s0) = BITMAP_SIZE" and "mmap_wf (bi_mmap info)" and "pinned s0 = []"
    and "unat (bi_fb_addr info) + unat (fb_bytes info) + 0xFFF < 2 ^ 64"
    and "frame_step\<^sup>*\<^sup>* (frames_init info kernel_end_raw rd cr3 s0) s"
    and "unat (bi_fb_addr info) div FRAME_SIZE \<le> i"
    and "i < (unat (bi_fb_addr info) + unat (fb_bytes info) + 0xFFF) div FRAME_SIZE"
  shows "frames_inv s \<and> i \<notin> free_set s \<and> (\<forall>p s'. allocate_frame s = Some (p, s') \<longrightarrow> unat p \<noteq> i * FRAME_SIZE)"
proof -
  let ?b = "bi_fb_addr info" and ?e = "bi_fb_addr info + fb_bytes info"
  have ok: "frames_ok s" using frame_steps_ok [OF assms(5) frames_init_ok [OF assms(1-3)]] .
  have p: "pinned s = [(?b AND NOT 0xFFF, (?e + 0xFFF) AND NOT 0xFFF)]"
    using frame_steps_pinned [OF assms(5)] frames_init_spec(2) [OF assms(1,2)] pin_range_one [OF assms(3)]
    by simp
  have ue: "unat (?e + 0xFFF) = unat ?b + unat (fb_bytes info) + 0xFFF"
    using assms(4) by (simp add: unat_word_ariths)
  have inv: "frames_inv s" using ok by (simp add: frames_ok_def)
  have nf: "i \<notin> free_set s"
  proof
    assume f: "i \<in> free_set s"
    then have im: "i < MAX_MANAGED_FRAMES" by (simp add: free_set_def)
    have "unat (?b AND NOT 0xFFF) \<le> i * FRAME_SIZE" "i * FRAME_SIZE < unat ((?e + 0xFFF) AND NOT 0xFFF)"
      unfolding unat_page_base ue using assms(6,7) by (simp_all add: FRAME_SIZE_def)
    then have "is_pinned (of_nat (i * FRAME_SIZE)) s"
      unfolding is_pinned_def p list_ex_iff list.set
      by (simp only: bex_simps case_prod_conv word_le_nat_alt word_less_nat_alt frame_addr_unat [OF im]) simp
    with ok f show False unfolding frames_ok_def pins_safe_def by blast
  qed
  have "unat q \<noteq> i * FRAME_SIZE" if a: "allocate_frame s = Some (q, s')" for q s'
  proof -
    obtain j where "j \<in> free_set s" "unat q = j * FRAME_SIZE" by (rule allocate_frame_Some [OF inv a])
    with nf show ?thesis by (auto simp: FRAME_SIZE_def)
  qed
  with inv nf show ?thesis by blast
qed

theorem framebuffer_never_allocated_witness:
  "0x80010 \<notin> free_set (free_frame 0x80010000 (frames_init w_boot 0x200000 (\<lambda>_. 0) 0x300000 (w_frames [])))"
proof -
  let ?i = "frames_init w_boot 0x200000 (\<lambda>_. 0) 0x300000 (w_frames [])"
  have s: "frame_step\<^sup>*\<^sup>* ?i (free_frame 0x80010000 ?i)" by (rule r_into_rtranclp, rule step_free)
  have fb: "unat (bi_fb_addr w_boot) = 0x80000000" "unat (fb_bytes w_boot) = 1920000"
    by (simp_all add: w_boot_def fb_bytes_def)
  have l: "length (bitmap (w_frames [])) = BITMAP_SIZE" "pinned (w_frames []) = []"
    by (simp_all add: w_frames_def)
  show ?thesis
    using framebuffer_never_allocated [OF l(1) w_boot_wf l(2) _ s, of "0x80010"] unfolding fb
    by (simp add: FRAME_SIZE_def)
qed

text \<open>
  C8: \<open>allocate_frame\<close> never hands a frame out twice. Any number of consecutive allocations
  returns pairwise distinct, page-aligned frames that were free, leaves exactly the other frames
  free and keeps the counter exact.
\<close>

theorem allocations_disjoint:
  assumes "frames_inv s" and "alloc_many allocate_frame n s = Some (ps, s')"
  shows "distinct ps \<and> length ps = n \<and> frames_inv s' \<and>
    (\<forall>p \<in> set ps. frame_is_free s p \<and> unat p mod FRAME_SIZE = 0) \<and>
    (\<forall>q. frame_is_free s' q \<longleftrightarrow> frame_is_free s q \<and> q \<notin> set ps)"
  using bitmap_frames.alloc_many_sound [OF assms] by (auto simp: frame_is_free_def)

lemma alloc_next:
  assumes "distinct is" and "\<forall>i \<in> set is. i < MAX_MANAGED_FRAMES" and "is \<noteq> []"
  shows "\<exists>p s'. allocate_frame (w_frames is) = Some (p, s')"
proof -
  have "allocate_frame (w_frames is) \<noteq> None"
    unfolding allocate_frame_None w_frames_free(1) [OF assms(1,2)] using assms(3) by simp
  then show ?thesis by auto
qed

theorem allocations_disjoint_witness:
  "\<exists>p s'. alloc_many allocate_frame 1 (w_frames [7, 9]) = Some ([p], s') \<and>
     unat p mod FRAME_SIZE = 0 \<and> \<not> frame_is_free s' p"
proof -
  have m: "\<forall>i \<in> set [7, 9]. i < MAX_MANAGED_FRAMES" by (simp add: managed_limit)
  obtain p s' where a: "allocate_frame (w_frames [7, 9]) = Some (p, s')"
    using alloc_next [OF _ m] by auto
  have inv: "frames_inv (w_frames [7, 9])" by (rule w_frames_free(2) [OF _ m]) simp
  have r: "alloc_many allocate_frame 1 (w_frames [7, 9]) = Some ([p], s')" using a by simp
  from allocations_disjoint [OF inv r] r show ?thesis by auto
qed

text \<open>
  \<open>allocate_frames\<close> is first fit and complete. It fails exactly when asked for zero frames or
  when no run of that many free frames exists; otherwise it returns the lowest such run, marks
  exactly it as used and keeps the counter exact.
\<close>

theorem allocate_frames_first_fit:
  assumes "frames_inv s"
  shows "(allocate_frames cnt s = None \<longleftrightarrow> cnt = 0 \<or> (\<forall>k. \<not> {k..<k + cnt} \<subseteq> free_set s)) \<and>
    (\<forall>p s'. allocate_frames cnt s = Some (p, s') \<longrightarrow>
       (\<exists>i. unat p = i * FRAME_SIZE \<and> {i..<i + cnt} \<subseteq> free_set s \<and>
            (\<forall>k < i. \<not> {k..<k + cnt} \<subseteq> free_set s) \<and>
            free_set s' = free_set s - {i..<i + cnt} \<and> frames_inv s'))"
proof (intro conjI allI impI)
  show "allocate_frames cnt s = None \<longleftrightarrow> cnt = 0 \<or> (\<forall>k. \<not> {k..<k + cnt} \<subseteq> free_set s)"
  proof (cases "cnt = 0")
    case False
    then have "0 < cnt" by simp
    from alloc_run_spec [OF scan_inv_start [OF this], of "bitmap s"] False show ?thesis
      by (cases "alloc_run (bitmap s) cnt 0 0 0") (auto simp: allocate_frames_def run_free_set)
  qed (simp add: allocate_frames_def)
next
  fix p s' assume a: "allocate_frames cnt s = Some (p, s')"
  obtain i where i: "0 < cnt" "{i..<i + cnt} \<subseteq> free_set s" "p = of_nat (i * FRAME_SIZE)"
      "free_set s' = free_set s - {i..<i + cnt}" "frames_inv s'" "\<forall>k < i. \<not> {k..<k + cnt} \<subseteq> free_set s"
    by (rule allocate_frames_Some [OF assms a])
  have "i \<in> {i..<i + cnt}" using i(1) by simp
  with i(2) have "i \<in> free_set s" by blast
  then have "i < MAX_MANAGED_FRAMES" by (simp add: free_set_def)
  from frame_addr_unat [OF this] i(2-6) show "\<exists>i. unat p = i * FRAME_SIZE \<and> {i..<i + cnt} \<subseteq> free_set s \<and>
      (\<forall>k < i. \<not> {k..<k + cnt} \<subseteq> free_set s) \<and> free_set s' = free_set s - {i..<i + cnt} \<and> frames_inv s'"
    by blast
qed

theorem allocate_frames_first_fit_witness:
  "allocate_frames 3 (w_frames [7, 9, 10]) = None \<and>
   (\<exists>s'. allocate_frames 2 (w_frames [7, 9, 10]) = Some (9 * 4096, s'))"
proof -
  let ?s = "w_frames [7, 9, 10]"
  have m: "\<forall>i \<in> set [7, 9, 10]. i < MAX_MANAGED_FRAMES" by (simp add: managed_limit)
  have inv: "frames_inv ?s" by (rule w_frames_free(2) [OF _ m]) simp
  have fs: "free_set ?s = {7, 9, 10}" using w_frames_free(1) [OF _ m] by simp
  have r3: "\<not> {k..<k + 3} \<subseteq> {7, 9, 10 :: nat}" for k
  proof
    assume a: "{k..<k + 3} \<subseteq> {7, 9, 10 :: nat}"
    have "k \<in> {k..<k + 3}" "k + 1 \<in> {k..<k + 3}" "k + 2 \<in> {k..<k + 3}" by simp_all
    with a have "k \<in> {7, 9, 10}" "k + 1 \<in> {7, 9, 10}" "k + 2 \<in> {7, 9, 10}" by blast+
    then show False by auto
  qed
  have r2: "{k..<k + 2} \<subseteq> {7, 9, 10 :: nat} \<longleftrightarrow> k = 9" for k
  proof
    assume a: "{k..<k + 2} \<subseteq> {7, 9, 10 :: nat}"
    have "k \<in> {k..<k + 2}" "k + 1 \<in> {k..<k + 2}" by simp_all
    with a have "k \<in> {7, 9, 10}" "k + 1 \<in> {7, 9, 10}" by blast+
    then show "k = 9" by auto
  qed (auto simp: numeral_eq_Suc)
  have "allocate_frames 2 ?s \<noteq> None"
    using conjunct1 [OF allocate_frames_first_fit [OF inv, of 2]] unfolding fs r2 by simp
  then obtain p s' where a: "allocate_frames 2 ?s = Some (p, s')" by auto
  then have "unat p = 9 * FRAME_SIZE"
    using conjunct2 [OF allocate_frames_first_fit [OF inv, of 2]] unfolding fs r2 by blast
  then have "unat p = unat (9 * 4096 :: u64)" by (simp add: FRAME_SIZE_def)
  then have "p = 9 * 4096" by (simp only: unat_inj_iff)
  with a conjunct1 [OF allocate_frames_first_fit [OF inv, of 3]] show ?thesis
    unfolding fs using r3 by auto
qed

text \<open>
  C9: shared ownership. A frame in use that is given \<open>n\<close> references (fewer than 256) is returned
  to the allocator by exactly the \<open>n\<close>-th release: not before, and then for sure. Other frames'
  references are untouched.
\<close>

theorem shared_frame_lifetime:
  assumes "frames_inv s" and "shared_wf s" and "refcount s a = 0"
    and "\<exists>e \<in> set (shared_frames s). snd e = 0"
    and "\<not> is_pinned a s" and "unat a div FRAME_SIZE < MAX_MANAGED_FRAMES"
    and "0 < n" and "n < 256" and "k \<le> n"
  shows "frames_inv ((release_user_frame a ^^ k) ((inc_ref a ^^ n) s)) \<and>
    refcount ((release_user_frame a ^^ k) ((inc_ref a ^^ n) s)) a = n - k \<and>
    free_set ((release_user_frame a ^^ k) ((inc_ref a ^^ n) s)) =
      (if k = n then insert (unat a div FRAME_SIZE) (free_set s) else free_set s)"
proof -
  let ?t = "(inc_ref a ^^ n) s"
  have t: "shared_wf ?t" "refcount ?t a = n"
    using inc_ref_iter [OF assms(2-4,8)] by blast+
  have "frames_inv ?t" "\<not> is_pinned a ?t" "free_set ?t = free_set s"
    using inc_ref_iter_other [where a = a and n = n and s = s] is_pinned_cong [of ?t s] assms(1,5) by simp_all
  then show ?thesis using release_iter [of ?t a k] t assms(6,7,9) by simp
qed

theorem shared_frame_lifetime_witness:
  "free_set ((release_user_frame 0x5000 ^^ 1) ((inc_ref 0x5000 ^^ 2) (w_frames [7]))) = {7} \<and>
   free_set ((release_user_frame 0x5000 ^^ 2) ((inc_ref 0x5000 ^^ 2) (w_frames [7]))) = {5, 7}"
proof -
  let ?s = "w_frames [7]"
  have m: "\<forall>i \<in> set [7]. i < MAX_MANAGED_FRAMES" by (simp add: managed_limit)
  have inv: "frames_inv ?s" and fs: "free_set ?s = {7}" using w_frames_free [OF _ m] by simp_all
  have sf: "shared_frames ?s = [(0, 0), (0, 0)]" "pinned ?s = []" by (simp_all add: w_frames_def)
  have dead: "\<not> live_at ?s a i" for a i
    unfolding live_at_def sf by (auto simp: nth_Cons split: nat.splits)
  have h: "shared_wf ?s" "refcount ?s 0x5000 = 0" "\<exists>e \<in> set (shared_frames ?s). snd e = 0"
      "\<not> is_pinned 0x5000 ?s" "unat (0x5000 :: u64) div FRAME_SIZE < MAX_MANAGED_FRAMES"
    using dead by (simp_all add: shared_wf_def refcount_dead sf is_pinned_def managed_limit FRAME_SIZE_def)
  have "free_set ((release_user_frame 0x5000 ^^ k) ((inc_ref 0x5000 ^^ 2) ?s)) =
      (if k = 2 then {5, 7} else {7})" if "k \<le> 2" for k
    using shared_frame_lifetime [OF inv h, of 2 k] that unfolding fs by (simp add: FRAME_SIZE_def)
  from this [of 1] this [of 2] show ?thesis by simp
qed

text \<open>
  C10: the count is a \<open>u8\<close>. The 256th reference to a frame wraps it to zero, which makes the entry
  a free slot: the frame looks untracked, and the first release after that returns it to the
  allocator while 255 mappings of it remain.
\<close>

theorem refcount_wraps:
  assumes "frames_inv s" and "shared_wf s" and "refcount s a = 255"
    and "\<not> is_pinned a s" and "unat a div FRAME_SIZE < MAX_MANAGED_FRAMES"
  shows "refcount (inc_ref a s) a = 0 \<and> \<not> is_tracked a (inc_ref a s) \<and>
    unat a div FRAME_SIZE \<in> free_set (release_user_frame a (inc_ref a s))"
proof -
  let ?t = "inc_ref a s"
  have t: "shared_wf ?t" "refcount ?t a = 0" using inc_ref_spec [OF assms(2), of a a] assms(3) by simp_all
  have inv: "frames_inv ?t" and np: "\<not> is_pinned a ?t"
    using assms(1,4) is_pinned_cong [of ?t s] by simp_all
  have "free_set (release_user_frame a ?t) = insert (unat a div FRAME_SIZE) (free_set ?t)"
    using release_spec(5) [OF inv t(1), of a] free_frame_cases(2) [OF inv, of a] t(2) np assms(5) by simp
  with t show ?thesis by (simp add: is_tracked_refcount)
qed

theorem refcount_wraps_witness:
  "5 \<in> free_set (release_user_frame 0x5000 (inc_ref 0x5000 (w_frames [7]\<lparr>shared_frames := [(0x5000, 255)]\<rparr>)))"
proof -
  let ?s = "w_frames [7]\<lparr>shared_frames := [(0x5000, 255)]\<rparr>"
  have m: "\<forall>i \<in> set [7]. i < MAX_MANAGED_FRAMES" by (simp add: managed_limit)
  have inv: "frames_inv ?s" using w_frames_free [OF _ m] by simp
  have h: "shared_wf ?s" "refcount ?s 0x5000 = 255" "\<not> is_pinned 0x5000 ?s"
      "unat (0x5000 :: u64) div FRAME_SIZE < MAX_MANAGED_FRAMES"
    by (simp_all add: shared_wf_def live_at_def refcount_def is_pinned_def w_frames_def managed_limit FRAME_SIZE_def)
  from refcount_wraps [OF inv h] show ?thesis by (simp add: FRAME_SIZE_def)
qed

end
