(* ===== verification/Paging.thy ===== *)
theory Paging
  imports Frames
begin

text \<open>
  Virtual memory, \<open>kernel/src/memory/paging.rs\<close>, and the part of \<open>kernel/src/domain.rs\<close> it reads
  (the domain table and \<open>pml4_of\<close>).

  Page tables are a typed heap: \<open>ptabs t i\<close> is entry \<open>i\<close> of the table in the physical frame at
  address \<open>t\<close>; an entry is an address and a set of flags, the all-zero word being the unused
  entry. The kernel reaches tables through the offset mapping, so \<open>PHYS_OFFSET + t\<close> in the source
  is \<open>t\<close> here; that this mapping is there is the theorem on \<open>setup_page_tables\<close>.

  The kernel's own walks and writes (\<open>setup_page_tables\<close>, \<open>map_framebuffer\<close>,
  \<open>resolve_user_page\<close>, \<open>free_user_space\<close>) are modelled entry by entry. \<open>map_to\<close> and \<open>unmap\<close>
  belong to the \<open>x86_64\<close> crate: they are a parameter, the record \<open>mapper\<close>, and what the kernel
  relies on is the locale \<open>page_mapper\<close>, interpreted below on a four-level reference walk.
\<close>

section \<open>Layout constants\<close>

definition PHYS_OFFSET :: u64 where
  "PHYS_OFFSET = 0xFFFF800000000000"

definition USER_SPACE_BASE :: u64 where
  "USER_SPACE_BASE = 0x0000008000000000"

definition USER_SPACE_END :: u64 where
  "USER_SPACE_END = USER_SPACE_BASE + 0x0000008000000000"

definition USER_STACK_TOP :: u64 where
  "USER_STACK_TOP = USER_SPACE_BASE + 0x401000"

definition USER_STACK_PAGES :: u64 where
  "USER_STACK_PAGES = 8"

definition HEAP_START :: u64 where
  "HEAP_START = 0x444444440000"

definition HEAP_SIZE :: nat where
  "HEAP_SIZE = 4 * 1024 * 1024"

definition MANAGED_MEMORY :: u64 where
  "MANAGED_MEMORY = 32 * 1024 * 1024 * 1024"

definition MANAGED_PDS :: nat where
  "MANAGED_PDS = unat (MANAGED_MEMORY div (512 * 0x200000))"

definition FB_VIRT_BASE :: u64 where
  "FB_VIRT_BASE = 0xFFFFC00000000000"

definition FB_WINDOW_SIZE :: u64 where
  "FB_WINDOW_SIZE = 512 * 0x200000"

section \<open>Page tables\<close>

datatype ptflag = PRESENT | WRITABLE | USER_ACCESSIBLE | NO_CACHE | HUGE_PAGE | NO_EXECUTE

record pte =
  pte_addr :: u64
  pte_flags :: "ptflag set"

definition unused_pte :: pte where
  "unused_pte = \<lparr>pte_addr = 0, pte_flags = {}\<rparr>"

definition is_unused :: "pte \<Rightarrow> bool" where
  "is_unused e \<longleftrightarrow> e = unused_pte"

type_synonym tables = "u64 \<Rightarrow> nat \<Rightarrow> pte"

record mem =
  frames :: frame_state
  ptabs :: tables

definition set_entry :: "u64 \<Rightarrow> nat \<Rightarrow> pte \<Rightarrow> tables \<Rightarrow> tables" where
  "set_entry t i e pt = pt(t := (pt t)(i := e))"

definition zero_table :: "u64 \<Rightarrow> tables \<Rightarrow> tables" where
  "zero_table t pt = pt(t := (\<lambda>_. unused_pte))"

definition p4_index :: "u64 \<Rightarrow> nat" where
  "p4_index v = unat (drop_bit 39 v AND 0x1FF)"

definition p3_index :: "u64 \<Rightarrow> nat" where
  "p3_index v = unat (drop_bit 30 v AND 0x1FF)"

definition p2_index :: "u64 \<Rightarrow> nat" where
  "p2_index v = unat (drop_bit 21 v AND 0x1FF)"

definition p1_index :: "u64 \<Rightarrow> nat" where
  "p1_index v = unat (drop_bit 12 v AND 0x1FF)"

definition page_of :: "u64 \<Rightarrow> u64" where
  "page_of v = v AND NOT 0xFFF"

section \<open>Boot page tables\<close>

text \<open>\<open>BOOT_PML4\<close>, \<open>BOOT_PDPT\<close> and \<open>BOOT_PDS\<close> are static objects; their addresses are arguments.\<close>

definition setup_pd :: "nat \<Rightarrow> u64 \<Rightarrow> tables \<Rightarrow> tables" where
  "setup_pd i pd_p pt =
     (if pd_p = 0 then pt
      else fold (\<lambda>j. set_entry pd_p j
                   \<lparr>pte_addr = of_nat i * 0x40000000 + of_nat j * 0x200000,
                    pte_flags = {PRESENT, WRITABLE, HUGE_PAGE}\<rparr>) [0..<512] pt)"

definition setup_page_tables :: "u64 \<Rightarrow> u64 \<Rightarrow> u64 \<Rightarrow> tables \<Rightarrow> u64 \<times> tables" where
  "setup_page_tables pml4 pdpt pds_base pt =
     (let pd_phys = map (\<lambda>i. pds_base + of_nat (i * 4096)) [0..<MANAGED_PDS];
          pt1 = fold (\<lambda>p pt. if p \<noteq> 0 then zero_table p pt else pt) pd_phys
                  (zero_table pdpt (zero_table pml4 pt));
          up = \<lparr>pte_addr = pdpt, pte_flags = {PRESENT, WRITABLE}\<rparr>;
          pt2 = set_entry pml4 256 up (set_entry pml4 0 up pt1);
          pt3 = fold (\<lambda>(i, p) pt. if p \<noteq> 0 then set_entry pdpt i \<lparr>pte_addr = p, pte_flags = {PRESENT, WRITABLE}\<rparr> pt else pt)
                  (zip [0..<MANAGED_PDS] pd_phys) pt2;
          pt4 = fold (\<lambda>(i, p). setup_pd i p) (zip [0..<MANAGED_PDS] pd_phys) pt3
      in (pml4, pt4))"

definition map_framebuffer :: "u64 \<Rightarrow> u64 \<Rightarrow> u64 \<Rightarrow> u64 \<Rightarrow> u64 \<Rightarrow> tables \<Rightarrow> u64 option \<times> tables" where
  "map_framebuffer fb_pdpt fb_pd pml4 fb_addr fb_len pt =
     (if fb_addr = 0 \<or> fb_len = 0 then (None, pt)
      else (let aligned = fb_addr AND NOT (0x200000 - 1); offset = fb_addr - aligned
            in case checked_add offset fb_len of
                 None \<Rightarrow> (None, pt)
               | Some span \<Rightarrow>
                   (let pages = (span div 0x200000) + (if span mod 0x200000 \<noteq> 0 then 1 else 0)
                    in if FB_WINDOW_SIZE < pages * 0x200000 then (None, pt)
                       else (let pt1 = zero_table fb_pd (zero_table fb_pdpt pt);
                                 pt2 = set_entry pml4 (p4_index FB_VIRT_BASE) \<lparr>pte_addr = fb_pdpt, pte_flags = {PRESENT, WRITABLE}\<rparr> pt1;
                                 pt3 = set_entry fb_pdpt 0 \<lparr>pte_addr = fb_pd, pte_flags = {PRESENT, WRITABLE}\<rparr> pt2;
                                 pt4 = fold (\<lambda>i. set_entry fb_pd i
                                         \<lparr>pte_addr = aligned + of_nat i * 0x200000, pte_flags = {PRESENT, WRITABLE, HUGE_PAGE}\<rparr>)
                                       [0..<unat pages] pt3
                             in (Some (FB_VIRT_BASE + offset), pt4)))))"

definition is_identity_mapped :: "u64 \<Rightarrow> u64 \<Rightarrow> bool" where
  "is_identity_mapped addr len = (case checked_add addr len of None \<Rightarrow> False | Some e \<Rightarrow> e \<le> MANAGED_MEMORY)"

definition is_user_address :: "u64 \<Rightarrow> bool" where
  "is_user_address vaddr \<longleftrightarrow> drop_bit 39 vaddr AND 0x1FF = 1"

section \<open>User mappings\<close>

datatype UserPagePerm = ReadOnly | ReadWrite | ReadExecute

fun flags_for :: "UserPagePerm \<Rightarrow> ptflag set" where
  "flags_for ReadExecute = {PRESENT, USER_ACCESSIBLE}"
| "flags_for ReadWrite = {PRESENT, USER_ACCESSIBLE, WRITABLE, NO_EXECUTE}"
| "flags_for ReadOnly = {PRESENT, USER_ACCESSIBLE, NO_EXECUTE}"

record domain =
  dom_id :: u64
  dom_pml4 :: u64

type_synonym domains = "domain option list"

definition pml4_of :: "domains \<Rightarrow> u64 \<Rightarrow> u64 res" where
  "pml4_of doms d =
     bind_res (index_res doms (unat d)) (\<lambda>slot.
       case slot of None \<Rightarrow> Inl ExpectFailed | Some dm \<Rightarrow> Inr (dom_pml4 dm))"

text \<open>
  The crate's constructors: \<open>VirtAddr::new\<close> panics on a non-canonical address,
  \<open>PhysAddr::new\<close> on one with bits above 51 set.
\<close>

definition canonical :: "u64 \<Rightarrow> bool" where
  "canonical v \<longleftrightarrow> drop_bit 47 v = 0 \<or> drop_bit 47 v = 0x1FFFF"

definition VirtAddr_new :: "u64 \<Rightarrow> u64 res" where
  "VirtAddr_new v = (if canonical v then Inr v else Inl NonCanonical)"

definition PhysAddr_new :: "u64 \<Rightarrow> u64 res" where
  "PhysAddr_new p = (if drop_bit 52 p = 0 then Inr p else Inl NonCanonical)"

record mapper =
  map_to :: "u64 \<Rightarrow> u64 \<Rightarrow> u64 \<Rightarrow> ptflag set \<Rightarrow> mem \<Rightarrow> mem option"
  unmap :: "u64 \<Rightarrow> u64 \<Rightarrow> mem \<Rightarrow> (u64 \<times> mem) option"

definition map_user_page :: "mapper \<Rightarrow> domains \<Rightarrow> u64 \<Rightarrow> u64 \<Rightarrow> u64 \<Rightarrow> UserPagePerm \<Rightarrow> mem \<Rightarrow> mem res" where
  "map_user_page mp doms d vaddr paddr perm m =
     bind_res (pml4_of doms d) (\<lambda>pml4.
     bind_res (VirtAddr_new vaddr) (\<lambda>va.
     bind_res (PhysAddr_new paddr) (\<lambda>pa.
       case map_to mp pml4 (page_of va) (page_of pa) (flags_for perm) m of
         None \<Rightarrow> Inl MapFailed
       | Some m' \<Rightarrow> Inr m')))"

definition map_mmio :: "mapper \<Rightarrow> domains \<Rightarrow> u64 \<Rightarrow> u64 \<Rightarrow> u64 \<Rightarrow> mem \<Rightarrow> mem res" where
  "map_mmio mp doms d vaddr paddr m =
     bind_res (pml4_of doms d) (\<lambda>pml4.
     bind_res (VirtAddr_new vaddr) (\<lambda>va.
     bind_res (PhysAddr_new paddr) (\<lambda>pa.
       case map_to mp pml4 (page_of va) (page_of pa)
              {PRESENT, WRITABLE, USER_ACCESSIBLE, NO_CACHE, NO_EXECUTE} m of
         None \<Rightarrow> Inl MapFailed
       | Some m' \<Rightarrow> Inr m')))"

text \<open>The four-level walk, from the root table.\<close>

definition walk :: "tables \<Rightarrow> u64 \<Rightarrow> u64 \<Rightarrow> u64 option" where
  "walk pt pml4 vaddr =
     (let pml4e = pt pml4 (p4_index vaddr)
      in if PRESENT \<notin> pte_flags pml4e then None
         else (let pdpte = pt (pte_addr pml4e) (p3_index vaddr)
               in if PRESENT \<notin> pte_flags pdpte then None
                  else (let pde = pt (pte_addr pdpte) (p2_index vaddr)
                        in if PRESENT \<notin> pte_flags pde then None
                           else if HUGE_PAGE \<in> pte_flags pde then Some (pte_addr pde + (vaddr AND 0x1FFFFF))
                           else (let e = pt (pte_addr pde) (p1_index vaddr)
                                 in if PRESENT \<notin> pte_flags e then None
                                    else Some (pte_addr e + (vaddr AND 0xFFF))))))"

definition resolve_user_page :: "domains \<Rightarrow> u64 \<Rightarrow> u64 \<Rightarrow> mem \<Rightarrow> u64 option res" where
  "resolve_user_page doms d vaddr m = bind_res (pml4_of doms d) (\<lambda>pml4. Inr (walk (ptabs m) pml4 vaddr))"

definition unmap_user_page :: "mapper \<Rightarrow> domains \<Rightarrow> u64 \<Rightarrow> u64 \<Rightarrow> mem \<Rightarrow> (u64 option \<times> mem) res" where
  "unmap_user_page mp doms d vaddr m =
     bind_res (pml4_of doms d) (\<lambda>pml4.
     bind_res (VirtAddr_new vaddr) (\<lambda>va.
       Inr (case unmap mp pml4 (page_of va) m of
              None \<Rightarrow> (None, m)
            | Some (frame, m') \<Rightarrow> (Some frame, m'))))"

section \<open>Releasing an address space\<close>

definition release_frame :: "u64 \<Rightarrow> mem \<Rightarrow> mem" where
  "release_frame a m = m\<lparr>frames := release_user_frame a (frames m)\<rparr>"

definition free_table :: "u64 \<Rightarrow> mem \<Rightarrow> mem" where
  "free_table a m = m\<lparr>frames := free_frame a (frames m)\<rparr>"

definition set_unused :: "u64 \<Rightarrow> nat \<Rightarrow> mem \<Rightarrow> mem" where
  "set_unused t i m = m\<lparr>ptabs := set_entry t i unused_pte (ptabs m)\<rparr>"

definition free_p1 :: "u64 \<Rightarrow> nat \<Rightarrow> mem \<Rightarrow> mem" where
  "free_p1 pt_phys p1 m =
     (if is_unused (ptabs m pt_phys p1) then m
      else set_unused pt_phys p1 (release_frame (pte_addr (ptabs m pt_phys p1)) m))"

definition free_p2 :: "u64 \<Rightarrow> nat \<Rightarrow> mem \<Rightarrow> mem" where
  "free_p2 pd_phys p2 m =
     (let e = ptabs m pd_phys p2
      in if is_unused e then m
         else if HUGE_PAGE \<in> pte_flags e then
           set_unused pd_phys p2
             (fold (\<lambda>i. release_frame (pte_addr e + of_nat i * of_nat FRAME_SIZE)) [0..<512] m)
         else set_unused pd_phys p2 (free_table (pte_addr e) (fold (free_p1 (pte_addr e)) [0..<512] m)))"

definition free_p3 :: "u64 \<Rightarrow> nat \<Rightarrow> mem \<Rightarrow> mem" where
  "free_p3 pdpt_phys p3 m =
     (let e = ptabs m pdpt_phys p3
      in if is_unused e then m
         else set_unused pdpt_phys p3 (free_table (pte_addr e) (fold (free_p2 (pte_addr e)) [0..<512] m)))"

definition free_user_space :: "u64 \<Rightarrow> mem \<Rightarrow> mem" where
  "free_user_space pml4 m =
     (let e = ptabs m pml4 (p4_index USER_SPACE_BASE)
      in if is_unused e then m
         else set_unused pml4 (p4_index USER_SPACE_BASE)
                (free_table (pte_addr e) (fold (free_p3 (pte_addr e)) [0..<512] m)))"

section \<open>The kernel heap\<close>

text \<open>
  \<open>init_heap\<close> maps the heap page by page; the heap allocator it then starts is a crate and has no
  effect on the state modelled here. \<open>paging_init\<close> is \<open>paging::init\<close> on the tables.
\<close>

fun map_heap_pages :: "mapper \<Rightarrow> u64 \<Rightarrow> u64 list \<Rightarrow> mem \<Rightarrow> mem res" where
  "map_heap_pages mp pml4 [] m = Inr m"
| "map_heap_pages mp pml4 (page # pages) m =
     (case allocate_frame (frames m) of
        None \<Rightarrow> Inl ExpectFailed
      | Some (frame, fr) \<Rightarrow>
          (case map_to mp pml4 page (page_of frame) {PRESENT, WRITABLE} (m\<lparr>frames := fr\<rparr>) of
             None \<Rightarrow> Inl ExpectFailed
           | Some m' \<Rightarrow> map_heap_pages mp pml4 pages m'))"

definition init_heap :: "mapper \<Rightarrow> u64 \<Rightarrow> mem \<Rightarrow> mem res" where
  "init_heap mp pml4 m =
     map_heap_pages mp pml4
       (map (\<lambda>i. page_of HEAP_START + of_nat (i * 4096))
          [0..<(unat (page_of (HEAP_START + of_nat HEAP_SIZE - 1)) - unat (page_of HEAP_START)) div 4096 + 1]) m"

definition paging_init ::
  "mapper \<Rightarrow> boot_info \<Rightarrow> u64 \<Rightarrow> u64 \<Rightarrow> u64 \<Rightarrow> u64 \<Rightarrow> u64 \<Rightarrow> mem \<Rightarrow> (u64 option \<times> mem) res" where
  "paging_init mp info pml4_addr pdpt_addr pds_addr fb_pdpt fb_pd m =
     (case setup_page_tables pml4_addr pdpt_addr pds_addr (ptabs m) of
        (pml4, pt1) \<Rightarrow>
          (case map_framebuffer fb_pdpt fb_pd pml4 (bi_fb_addr info) (fb_bytes info) pt1 of
             (fb_virt, pt2) \<Rightarrow>
               bind_res (init_heap mp pml4 (m\<lparr>ptabs := pt2\<rparr>)) (\<lambda>m'. Inr (fb_virt, m'))))"

section \<open>Indices\<close>

lemma index_div:
  "p4_index v = unat v div 2 ^ 39 mod 512" "p3_index v = unat v div 2 ^ 30 mod 512"
  "p2_index v = unat v div 2 ^ 21 mod 512" "p1_index v = unat v div 2 ^ 12 mod 512"
proof -
  have m: "unat (drop_bit k v AND 0x1FF) = unat v div 2 ^ k mod 512" for k
  proof -
    have "(0x1FF :: u64) = mask 9" by (simp add: mask_eq_exp_minus_1)
    then have "drop_bit k v AND 0x1FF = take_bit 9 (drop_bit k v)" by (simp add: take_bit_eq_mask)
    moreover have "take_bit 64 (unat v) = unat v"
    proof (rule take_bit_nat_eq_self)
      have "unat v < 2 ^ LENGTH(64)" by (rule unsigned_less)
      then show "unat v < 2 ^ 64" by simp
    qed
    ultimately have "unat (drop_bit k v AND 0x1FF) = take_bit 9 (drop_bit k (unat v))"
      by (simp add: unsigned_take_bit_eq unsigned_drop_bit_eq)
    then show ?thesis by (simp add: take_bit_eq_mod drop_bit_eq_div)
  qed
  show "p4_index v = unat v div 2 ^ 39 mod 512" "p3_index v = unat v div 2 ^ 30 mod 512"
    "p2_index v = unat v div 2 ^ 21 mod 512" "p1_index v = unat v div 2 ^ 12 mod 512"
    unfolding p4_index_def p3_index_def p2_index_def p1_index_def by (rule m)+
qed

lemma index_bound: "p4_index v < 512" "p3_index v < 512" "p2_index v < 512" "p1_index v < 512"
  by (simp_all add: index_div)

lemma low_bits: "unat (v AND 0x1FFFFF :: u64) = unat v mod 2 ^ 21" "unat (v AND 0xFFF :: u64) = unat v mod 2 ^ 12"
proof -
  have "(0x1FFFFF :: u64) = mask 21" "(0xFFF :: u64) = mask 12" by (simp_all add: mask_eq_exp_minus_1)
  then have "v AND 0x1FFFFF = take_bit 21 v" "v AND 0xFFF = take_bit 12 v" by (simp_all add: take_bit_eq_mask)
  then show "unat (v AND 0x1FFFFF) = unat v mod 2 ^ 21" "unat (v AND 0xFFF) = unat v mod 2 ^ 12"
    by (simp_all add: take_bit_eq_mod unat_mod)
qed

lemma is_user_p4: "is_user_address v \<longleftrightarrow> p4_index v = 1"
proof -
  have "p4_index v = 1 \<longleftrightarrow> unat (drop_bit 39 v AND 0x1FF) = unat (1 :: u64)" by (simp add: p4_index_def)
  then show ?thesis unfolding is_user_address_def unat_inj_iff by simp
qed

lemma user_p4 [simp]: "p4_index USER_SPACE_BASE = 1"
  by (simp add: index_div USER_SPACE_BASE_def)

section \<open>Boot tables translate\<close>

lemma fold_set_entry:
  "fold (\<lambda>j. set_entry t j (f j)) [0..<n] pt = pt(t := (\<lambda>j. if j < n then f j else pt t j))"
  by (induction n) (auto simp: set_entry_def fun_eq_iff less_Suc_eq)

lemma zip_map_upt: "zip [0..<n] (map f [0..<n]) = map (\<lambda>i. (i, f i)) [0..<n]"
  by (simp add: zip_map2 zip_same_conv_map)

lemma fold_zero_tables:
  "0 \<notin> set ps \<Longrightarrow> fold (\<lambda>p pt. if p \<noteq> 0 then zero_table p pt else pt) ps pt t =
     (if t \<in> set ps then (\<lambda>_. unused_pte) else pt t)"
  by (induction ps arbitrary: pt) (auto simp: zero_table_def)

lemma fold_setup_pd:
  assumes "\<forall>i < n. f i \<noteq> 0" and "inj_on f {..<n}"
  shows "(\<forall>k < n. fold (\<lambda>i. setup_pd i (f i)) [0..<n] pt (f k) =
      (\<lambda>j. if j < 512 then \<lparr>pte_addr = of_nat k * 0x40000000 + of_nat j * 0x200000,
             pte_flags = {PRESENT, WRITABLE, HUGE_PAGE}\<rparr> else pt (f k) j)) \<and>
    (\<forall>t. t \<notin> f ` {..<n} \<longrightarrow> fold (\<lambda>i. setup_pd i (f i)) [0..<n] pt t = pt t)"
  using assms
proof (induction n)
  case (Suc n)
  have inj: "inj_on f {..<n}" using Suc.prems(2) by (rule inj_on_subset) auto
  have nz: "\<forall>i < n. f i \<noteq> 0" using Suc.prems(1) by simp
  let ?p = "fold (\<lambda>i. setup_pd i (f i)) [0..<n] pt"
  note IH = Suc.IH [OF nz inj]
  have ne: "f k \<noteq> f n" if "k < n" for k
    using inj_onD [OF Suc.prems(2), of k n] that by auto
  have fn: "f n \<notin> f ` {..<n}" using ne by (metis imageE lessThan_iff)
  have step: "fold (\<lambda>i. setup_pd i (f i)) [0..<Suc n] pt = setup_pd n (f n) ?p" by simp
  have sp: "setup_pd n (f n) ?p = ?p(f n := (\<lambda>j. if j < 512 then
      \<lparr>pte_addr = of_nat n * 0x40000000 + of_nat j * 0x200000, pte_flags = {PRESENT, WRITABLE, HUGE_PAGE}\<rparr>
      else ?p (f n) j))"
    using Suc.prems(1) by (simp add: setup_pd_def fold_set_entry)
  have fpn: "?p (f n) = pt (f n)" using IH fn by blast
  show ?case unfolding step sp fpn
  proof (intro conjI allI impI)
    fix k assume "k < Suc n"
    then show "(?p(f n := (\<lambda>j. if j < 512 then \<lparr>pte_addr = of_nat n * 0x40000000 + of_nat j * 0x200000,
        pte_flags = {PRESENT, WRITABLE, HUGE_PAGE}\<rparr> else pt (f n) j))) (f k) =
      (\<lambda>j. if j < 512 then \<lparr>pte_addr = of_nat k * 0x40000000 + of_nat j * 0x200000,
             pte_flags = {PRESENT, WRITABLE, HUGE_PAGE}\<rparr> else pt (f k) j)"
      using ne IH by (cases "k = n") auto
  next
    fix t assume "t \<notin> f ` {..<Suc n}"
    then have "t \<noteq> f n" "t \<notin> f ` {..<n}" by auto
    then show "(?p(f n := (\<lambda>j. if j < 512 then \<lparr>pte_addr = of_nat n * 0x40000000 + of_nat j * 0x200000,
        pte_flags = {PRESENT, WRITABLE, HUGE_PAGE}\<rparr> else pt (f n) j))) t = pt t"
      using IH by simp
  qed
qed simp

text \<open>What \<open>setup_page_tables\<close> leaves in each of its tables.\<close>

lemma setup_tables:
  fixes pml4 pdpt pds_base :: u64 and pt :: tables
  defines "pd \<equiv> \<lambda>i. pds_base + of_nat (i * 4096)"
  assumes dist: "distinct (pml4 # pdpt # map pd [0..<MANAGED_PDS])" and nz: "0 \<notin> set (map pd [0..<MANAGED_PDS])"
  defines "pt' \<equiv> snd (setup_page_tables pml4 pdpt pds_base pt)"
  shows "fst (setup_page_tables pml4 pdpt pds_base pt) = pml4"
    and "pt' pml4 = (\<lambda>_. unused_pte)(0 := \<lparr>pte_addr = pdpt, pte_flags = {PRESENT, WRITABLE}\<rparr>,
           256 := \<lparr>pte_addr = pdpt, pte_flags = {PRESENT, WRITABLE}\<rparr>)"
    and "pt' pdpt = (\<lambda>i. if i < MANAGED_PDS then \<lparr>pte_addr = pd i, pte_flags = {PRESENT, WRITABLE}\<rparr> else unused_pte)"
    and "k < MANAGED_PDS \<Longrightarrow> j < 512 \<Longrightarrow> pt' (pd k) j = \<lparr>pte_addr = of_nat k * 0x40000000 + of_nat j * 0x200000,
           pte_flags = {PRESENT, WRITABLE, HUGE_PAGE}\<rparr>"
proof -
  let ?n = MANAGED_PDS
  let ?up = "\<lparr>pte_addr = pdpt, pte_flags = {PRESENT, WRITABLE}\<rparr>"
  let ?pds = "map pd [0..<?n]"
  let ?z = "fold (\<lambda>p pt. if p \<noteq> 0 then zero_table p pt else pt) ?pds (zero_table pdpt (zero_table pml4 pt))"
  let ?p2 = "set_entry pml4 256 ?up (set_entry pml4 0 ?up ?z)"
  let ?g = "\<lambda>i. \<lparr>pte_addr = pd i, pte_flags = {PRESENT, WRITABLE}\<rparr>"
  let ?p3 = "?p2(pdpt := (\<lambda>j. if j < ?n then ?g j else ?p2 pdpt j))"
  have inj: "inj_on pd {..<?n}" using dist by (simp add: distinct_map atLeast0LessThan)
  have nz': "\<forall>i < ?n. pd i \<noteq> 0" using nz by auto
  have notin: "pml4 \<notin> pd ` {..<?n}" "pdpt \<notin> pd ` {..<?n}" "pml4 \<noteq> pdpt"
    using dist by (auto simp: atLeast0LessThan)
  have z: "?z pml4 = (\<lambda>_. unused_pte)" "?z pdpt = (\<lambda>_. unused_pte)"
    using notin nz by (auto simp: fold_zero_tables zero_table_def)
  have "fold (\<lambda>(i, p) pt. if p \<noteq> 0 then set_entry pdpt i \<lparr>pte_addr = p, pte_flags = {PRESENT, WRITABLE}\<rparr> pt else pt)
      (zip [0..<?n] ?pds) ?p2 = fold (\<lambda>i. set_entry pdpt i (?g i)) [0..<?n] ?p2"
    unfolding zip_map_upt fold_map comp_def by (rule fold_cong) (use nz' in auto)
  also have "\<dots> = ?p3" by (rule fold_set_entry)
  finally have p3: "fold (\<lambda>(i, p) pt. if p \<noteq> 0 then set_entry pdpt i \<lparr>pte_addr = p, pte_flags = {PRESENT, WRITABLE}\<rparr> pt else pt)
      (zip [0..<?n] ?pds) ?p2 = ?p3" .
  have p4: "fold (\<lambda>(i, p). setup_pd i p) (zip [0..<?n] ?pds) ?p3 = fold (\<lambda>i. setup_pd i (pd i)) [0..<?n] ?p3"
    unfolding zip_map_upt fold_map comp_def by simp
  have res: "setup_page_tables pml4 pdpt pds_base pt = (pml4, fold (\<lambda>i. setup_pd i (pd i)) [0..<?n] ?p3)"
    unfolding setup_page_tables_def Let_def pd_def [symmetric] p3 p4 ..
  show "fst (setup_page_tables pml4 pdpt pds_base pt) = pml4" by (simp add: res)
  note F = fold_setup_pd [OF nz' inj, of ?p3]
  have pt': "pt' = fold (\<lambda>i. setup_pd i (pd i)) [0..<?n] ?p3" by (simp add: pt'_def res)
  have "pt' pml4 = ?p3 pml4" unfolding pt' using F notin(1) by blast
  then show "pt' pml4 = (\<lambda>_. unused_pte)(0 := ?up, 256 := ?up)"
    using z notin(3) by (simp add: set_entry_def)
  have "pt' pdpt = ?p3 pdpt" unfolding pt' using F notin(2) by blast
  then show "pt' pdpt = (\<lambda>i. if i < ?n then ?g i else unused_pte)"
    using z notin(3) by (auto simp: set_entry_def)
  show "pt' (pd k) j = \<lparr>pte_addr = of_nat k * 0x40000000 + of_nat j * 0x200000,
      pte_flags = {PRESENT, WRITABLE, HUGE_PAGE}\<rparr>" if "k < ?n" "j < 512"
    unfolding pt' using F that by simp
qed

lemma managed_pds [simp]: "MANAGED_PDS = 32"
  by (simp add: MANAGED_PDS_def MANAGED_MEMORY_def)

lemma huge_page_parts:
  fixes n :: nat
  shows "n = n div 2 ^ 30 * 0x40000000 + n div 2 ^ 21 mod 512 * 0x200000 + n mod 2 ^ 21"
proof -
  have "n div 2 ^ 21 div 512 = n div 2 ^ 30" by (simp flip: div_mult2_eq)
  then have 1: "n div 2 ^ 21 = n div 2 ^ 30 * 512 + n div 2 ^ 21 mod 512"
    by (metis div_mult_mod_eq)
  have 2: "n = n div 2 ^ 21 * 2 ^ 21 + n mod 2 ^ 21" by (rule div_mult_mod_eq [symmetric])
  define a b c d where "a = n div 2 ^ 21" and "b = n div 2 ^ 30" and "c = n div 2 ^ 21 mod 512"
    and "d = n mod 2 ^ 21"
  have "a = b * 512 + c" "n = a * 2 ^ 21 + d" using 1 2 by (simp_all only: a_def b_def c_def d_def)
  then have "n = b * 0x40000000 + c * 0x200000 + d" by simp
  then show ?thesis by (simp only: b_def c_def d_def)
qed

lemma huge_page_word:
  fixes a :: u64
  assumes "v AND 0x1FFFFF = a AND 0x1FFFFF"
  shows "of_nat (unat a div 2 ^ 30) * 0x40000000 + of_nat (unat a div 2 ^ 21 mod 512) * 0x200000 + (v AND 0x1FFFFF) = a"
proof -
  have "(of_nat (unat (a AND 0x1FFFFF)) :: u64) = a AND 0x1FFFFF" by (simp only: of_nat_unat ucast_id)
  then have l: "a AND 0x1FFFFF = of_nat (unat a mod 2 ^ 21)" unfolding low_bits(1) by simp
  have "a = of_nat (unat a)" by simp
  also have "\<dots> = of_nat (unat a div 2 ^ 30 * 0x40000000 + unat a div 2 ^ 21 mod 512 * 0x200000 + unat a mod 2 ^ 21)"
    using huge_page_parts [of "unat a"] by simp
  finally have "a = of_nat (unat a div 2 ^ 30) * 0x40000000 + of_nat (unat a div 2 ^ 21 mod 512) * 0x200000 +
      of_nat (unat a mod 2 ^ 21)" unfolding of_nat_add of_nat_mult of_nat_numeral .
  then show ?thesis unfolding assms l ..
qed

lemma offset_parts:
  fixes n :: nat
  assumes "n < 32 * 1024 * 1024 * 1024"
  shows "(0xFFFF800000000000 + n) div 2 ^ 39 mod 512 = 256"
    and "(0xFFFF800000000000 + n) div 2 ^ 30 mod 512 = n div 2 ^ 30"
    and "(0xFFFF800000000000 + n) div 2 ^ 21 mod 512 = n div 2 ^ 21 mod 512"
    and "(0xFFFF800000000000 + n) mod 2 ^ 21 = n mod 2 ^ 21"
    and "n div 2 ^ 39 mod 512 = 0" and "n div 2 ^ 30 mod 512 = n div 2 ^ 30" and "n div 2 ^ 30 < 32"
proof -
  show l: "n div 2 ^ 30 < 32" using assms by simp
  then show "n div 2 ^ 30 mod 512 = n div 2 ^ 30" by simp
  have z: "n div 2 ^ 39 = 0" using assms by simp
  then show "n div 2 ^ 39 mod 512 = 0" by simp
  have "0xFFFF800000000000 + n = n + 33554176 * 2 ^ 39" by simp
  then have "(0xFFFF800000000000 + n) div 2 ^ 39 = n div 2 ^ 39 + 33554176"
    by (simp add: div_mult_self1)
  then show "(0xFFFF800000000000 + n) div 2 ^ 39 mod 512 = 256" using z by simp
  have "0xFFFF800000000000 + n = n + 17179738112 * 2 ^ 30" by simp
  then have "(0xFFFF800000000000 + n) div 2 ^ 30 = n div 2 ^ 30 + 33554176 * 512"
    by (simp add: div_mult_self1)
  then have "(0xFFFF800000000000 + n) div 2 ^ 30 mod 512 = n div 2 ^ 30 mod 512"
    by (simp only: mod_mult_self1)
  then show "(0xFFFF800000000000 + n) div 2 ^ 30 mod 512 = n div 2 ^ 30" using l by simp
  have e: "0xFFFF800000000000 + n = n + 8796025913344 * 2 ^ 21" by simp
  then have "(0xFFFF800000000000 + n) div 2 ^ 21 = n div 2 ^ 21 + 17179738112 * 512"
    by (simp add: div_mult_self1)
  then show "(0xFFFF800000000000 + n) div 2 ^ 21 mod 512 = n div 2 ^ 21 mod 512"
    by (simp only: mod_mult_self1)
  show "(0xFFFF800000000000 + n) mod 2 ^ 21 = n mod 2 ^ 21" using e by (simp only: mod_mult_self1)
qed

lemma walk_huge:
  assumes "pt pml4 (p4_index v) = \<lparr>pte_addr = t3, pte_flags = f4\<rparr>" and "PRESENT \<in> f4"
    and "pt t3 (p3_index v) = \<lparr>pte_addr = t2, pte_flags = f3\<rparr>" and "PRESENT \<in> f3"
    and "pt t2 (p2_index v) = \<lparr>pte_addr = b, pte_flags = f2\<rparr>" and "PRESENT \<in> f2" and "HUGE_PAGE \<in> f2"
  shows "walk pt pml4 v = Some (b + (v AND 0x1FFFFF))"
  using assms by (simp add: walk_def)



section \<open>What releasing an address space does\<close>

text \<open>
  The specification: the list of allocator calls, read off the tables as they were, and the set
  of tables of an address space. \<open>tree2\<close>, \<open>tree3\<close>, \<open>tree4\<close> say that the tables of a domain form
  a tree: no table is shared or its own descendant.
\<close>

datatype act = Release u64 | FreeTable u64

fun do_act :: "act \<Rightarrow> frame_state \<Rightarrow> frame_state" where
  "do_act (Release a) = release_user_frame a"
| "do_act (FreeTable a) = free_frame a"

definition p1_acts :: "tables \<Rightarrow> u64 \<Rightarrow> nat \<Rightarrow> act list" where
  "p1_acts pt t i = (if is_unused (pt t i) then [] else [Release (pte_addr (pt t i))])"

definition p2_acts :: "tables \<Rightarrow> u64 \<Rightarrow> nat \<Rightarrow> act list" where
  "p2_acts pt pd i =
     (let e = pt pd i
      in if is_unused e then []
         else if HUGE_PAGE \<in> pte_flags e then map (\<lambda>j. Release (pte_addr e + of_nat j * of_nat FRAME_SIZE)) [0..<512]
         else concat (map (p1_acts pt (pte_addr e)) [0..<512]) @ [FreeTable (pte_addr e)])"

definition p3_acts :: "tables \<Rightarrow> u64 \<Rightarrow> nat \<Rightarrow> act list" where
  "p3_acts pt pdpt i =
     (let e = pt pdpt i
      in if is_unused e then []
         else concat (map (p2_acts pt (pte_addr e)) [0..<512]) @ [FreeTable (pte_addr e)])"

definition space_acts :: "tables \<Rightarrow> u64 \<Rightarrow> act list" where
  "space_acts pt pml4 =
     (let e = pt pml4 1
      in if is_unused e then [] else concat (map (p3_acts pt (pte_addr e)) [0..<512]) @ [FreeTable (pte_addr e)])"

definition sub1 :: "tables \<Rightarrow> u64 \<Rightarrow> nat \<Rightarrow> u64 set" where
  "sub1 pt pd i =
     (let e = pt pd i in if is_unused e \<or> HUGE_PAGE \<in> pte_flags e then {} else {pte_addr e})"

definition sub2 :: "tables \<Rightarrow> u64 \<Rightarrow> nat \<Rightarrow> u64 set" where
  "sub2 pt pdpt i =
     (let e = pt pdpt i
      in if is_unused e then {} else insert (pte_addr e) (\<Union>j < 512. sub1 pt (pte_addr e) j))"

definition user_tables :: "tables \<Rightarrow> u64 \<Rightarrow> u64 set" where
  "user_tables pt pml4 =
     (let e = pt pml4 1 in if is_unused e then {} else insert (pte_addr e) (\<Union>i < 512. sub2 pt (pte_addr e) i))"

definition tree2 :: "tables \<Rightarrow> u64 \<Rightarrow> bool" where
  "tree2 pt pd \<longleftrightarrow> (\<forall>i < 512. pd \<notin> sub1 pt pd i) \<and> (\<forall>i < 512. \<forall>j < 512. i \<noteq> j \<longrightarrow> sub1 pt pd i \<inter> sub1 pt pd j = {})"

definition tree3 :: "tables \<Rightarrow> u64 \<Rightarrow> bool" where
  "tree3 pt pdpt \<longleftrightarrow> (\<forall>i < 512. pdpt \<notin> sub2 pt pdpt i \<and> (\<not> is_unused (pt pdpt i) \<longrightarrow> tree2 pt (pte_addr (pt pdpt i)))) \<and>
     (\<forall>i < 512. \<forall>j < 512. i \<noteq> j \<longrightarrow> sub2 pt pdpt i \<inter> sub2 pt pdpt j = {})"

definition tree4 :: "tables \<Rightarrow> u64 \<Rightarrow> bool" where
  "tree4 pt pml4 \<longleftrightarrow> (\<not> is_unused (pt pml4 1) \<longrightarrow> tree3 pt (pte_addr (pt pml4 1))) \<and> pml4 \<notin> user_tables pt pml4"

text \<open>Clearing the first \<open>n\<close> entries of one table and all 512 entries of others.\<close>

definition cleared :: "tables \<Rightarrow> u64 \<Rightarrow> nat \<Rightarrow> u64 set \<Rightarrow> tables" where
  "cleared pt t n T = (\<lambda>u i. if u = t \<and> i < n \<or> u \<in> T \<and> i < 512 then unused_pte else pt u i)"

lemma free_p1_all:
  "frames (fold (free_p1 t) [0..<n] m) = fold do_act (concat (map (p1_acts (ptabs m) t) [0..<n])) (frames m) \<and>
   ptabs (fold (free_p1 t) [0..<n] m) = cleared (ptabs m) t n {}"
proof (induction n)
  case 0
  then show ?case by (simp add: cleared_def)
next
  case (Suc n)
  let ?k = "fold (free_p1 t) [0..<n] m"
  have e: "ptabs ?k t n = ptabs m t n" using Suc.IH by (simp add: cleared_def)
  show ?case
  proof (cases "is_unused (ptabs m t n)")
    case True
    then have "free_p1 t n ?k = ?k" by (simp add: free_p1_def e)
    moreover have "cleared (ptabs m) t (Suc n) {} = cleared (ptabs m) t n {}"
      using True by (auto simp: cleared_def is_unused_def fun_eq_iff less_Suc_eq)
    ultimately show ?thesis using Suc.IH True by (simp add: p1_acts_def)
  next
    case False
    then have "free_p1 t n ?k = set_unused t n (release_frame (pte_addr (ptabs m t n)) ?k)"
      by (simp add: free_p1_def e)
    moreover have "set_entry t n unused_pte (cleared (ptabs m) t n {}) = cleared (ptabs m) t (Suc n) {}"
      by (auto simp: cleared_def set_entry_def fun_eq_iff less_Suc_eq)
    ultimately show ?thesis using Suc.IH False
      by (simp add: p1_acts_def set_unused_def release_frame_def)
  qed
qed

lemma release_frames_all:
  "frames (fold (\<lambda>i. release_frame (f i)) is m) = fold do_act (map (\<lambda>i. Release (f i)) is) (frames m) \<and>
   ptabs (fold (\<lambda>i. release_frame (f i)) is m) = ptabs m"
  by (induction "is" arbitrary: m) (simp_all add: release_frame_def)

lemma p1_acts_cong: "pt t = pt' t \<Longrightarrow> p1_acts pt t i = p1_acts pt' t i"
  by (simp add: p1_acts_def)

lemma cleared_step: "set_entry t n unused_pte (cleared pt t n T) = cleared pt t (Suc n) T"
  by (auto simp: cleared_def set_entry_def fun_eq_iff less_Suc_eq)

lemma cleared_nested:
  "cleared (cleared pt t n T) a 512 S = cleared pt t n (T \<union> insert a S)"
  by (auto simp: cleared_def fun_eq_iff)

lemma cleared_unused: "is_unused (pt t n) \<Longrightarrow> cleared pt t (Suc n) T = cleared pt t n T"
  by (auto simp: cleared_def is_unused_def fun_eq_iff less_Suc_eq)

lemma cleared_other: "u \<noteq> t \<Longrightarrow> u \<notin> T \<Longrightarrow> cleared pt t n T u = pt u"
  by (simp add: cleared_def)

lemma cleared_next: "t \<notin> T \<Longrightarrow> cleared pt t n T t n = pt t n"
  by (simp add: cleared_def)

lemma sub_Suc: "(\<Union>j < Suc n. f j) = (\<Union>j < n. f j) \<union> f n"
  by (auto simp: less_Suc_eq)

lemma free_p2_all:
  assumes "tree2 (ptabs m) pd" and "n \<le> 512"
  shows "frames (fold (free_p2 pd) [0..<n] m) = fold do_act (concat (map (p2_acts (ptabs m) pd) [0..<n])) (frames m) \<and>
    ptabs (fold (free_p2 pd) [0..<n] m) = cleared (ptabs m) pd n (\<Union>j < n. sub1 (ptabs m) pd j)"
  using assms(2)
proof (induction n)
  case 0
  then show ?case by (simp add: cleared_def)
next
  case (Suc n)
  let ?k = "fold (free_p2 pd) [0..<n] m" and ?T = "\<Union>j < n. sub1 (ptabs m) pd j" and ?e = "ptabs m pd n"
  from Suc have fr: "frames ?k = fold do_act (concat (map (p2_acts (ptabs m) pd) [0..<n])) (frames m)"
    and pt: "ptabs ?k = cleared (ptabs m) pd n ?T" by simp_all
  have pdT: "pd \<notin> ?T" using assms(1) Suc.prems by (auto simp: tree2_def)
  have e: "ptabs ?k pd n = ?e" unfolding pt by (rule cleared_next [OF pdT])
  consider (unused) "is_unused ?e" | (huge) "\<not> is_unused ?e" "HUGE_PAGE \<in> pte_flags ?e"
    | (table) "\<not> is_unused ?e" "HUGE_PAGE \<notin> pte_flags ?e" by blast
  then show ?case
  proof cases
    case unused
    have st: "fold (free_p2 pd) [0..<Suc n] m = ?k" using unused by (simp add: free_p2_def e)
    have "sub1 (ptabs m) pd n = {}" "p2_acts (ptabs m) pd n = []"
      using unused by (simp_all add: sub1_def p2_acts_def)
    then show ?thesis unfolding st sub_Suc using fr pt cleared_unused [of "ptabs m" pd n, OF unused] by simp
  next
    case huge
    let ?r = "fold (\<lambda>i. release_frame (pte_addr ?e + of_nat i * of_nat FRAME_SIZE)) [0..<512] ?k"
    note R = release_frames_all [of "\<lambda>i. pte_addr ?e + of_nat i * of_nat FRAME_SIZE" "[0..<512]" ?k]
    have st: "fold (free_p2 pd) [0..<Suc n] m = set_unused pd n ?r"
      using huge by (simp add: free_p2_def e Let_def)
    have "sub1 (ptabs m) pd n = {}" using huge by (simp add: sub1_def)
    moreover have "p2_acts (ptabs m) pd n = map (\<lambda>j. Release (pte_addr ?e + of_nat j * of_nat FRAME_SIZE)) [0..<512]"
      using huge by (simp add: p2_acts_def Let_def)
    ultimately show ?thesis unfolding st sub_Suc using R fr pt
      by (simp add: set_unused_def cleared_step)
  next
    case table
    let ?a = "pte_addr ?e"
    have sub: "sub1 (ptabs m) pd n = {?a}" using table by (simp add: sub1_def)
    have n: "n < 512" using Suc.prems by simp
    have "pd \<notin> sub1 (ptabs m) pd n" using assms(1) n unfolding tree2_def by blast
    then have "?a \<noteq> pd" unfolding sub by simp
    moreover have "?a \<notin> ?T"
    proof
      assume "?a \<in> ?T"
      then obtain j where j: "j < n" "?a \<in> sub1 (ptabs m) pd j" by blast
      then have "sub1 (ptabs m) pd j \<inter> sub1 (ptabs m) pd n = {}"
        using assms(1) Suc.prems unfolding tree2_def by auto
      with j(2) sub show False by blast
    qed
    ultimately have ak: "ptabs ?k ?a = ptabs m ?a" unfolding pt by (rule cleared_other)
    let ?r = "fold (free_p1 ?a) [0..<512] ?k"
    have "map (p1_acts (ptabs ?k) ?a) [0..<512] = map (p1_acts (ptabs m) ?a) [0..<512]"
      by (simp add: p1_acts_cong [of "ptabs ?k" ?a "ptabs m", OF ak])
    with free_p1_all [of ?a 512 ?k]
    have R: "frames ?r = fold do_act (concat (map (p1_acts (ptabs m) ?a) [0..<512])) (frames ?k)"
      "ptabs ?r = cleared (ptabs ?k) ?a 512 {}" by metis+
    have st: "fold (free_p2 pd) [0..<Suc n] m = set_unused pd n (free_table ?a ?r)"
      using table by (simp add: free_p2_def e Let_def)
    have pa: "p2_acts (ptabs m) pd n = concat (map (p1_acts (ptabs m) ?a) [0..<512]) @ [FreeTable ?a]"
      using table by (simp add: p2_acts_def Let_def)
    have "frames (set_unused pd n (free_table ?a ?r)) =
        fold do_act (concat (map (p2_acts (ptabs m) pd) [0..<Suc n])) (frames m)"
      using R(1) fr pa by (simp add: set_unused_def free_table_def)
    moreover have "ptabs (set_unused pd n (free_table ?a ?r)) = cleared (ptabs m) pd (Suc n) (\<Union>j < Suc n. sub1 (ptabs m) pd j)"
      unfolding sub_Suc sub using R(2) pt by (simp add: set_unused_def free_table_def cleared_nested cleared_step)
    ultimately show ?thesis unfolding st by blast
  qed
qed

lemma sub1_cong: "pt pd = pt' pd \<Longrightarrow> sub1 pt pd i = sub1 pt' pd i"
  by (simp add: sub1_def)

lemma tree2_cong: "pt pd = pt' pd \<Longrightarrow> tree2 pt pd = tree2 pt' pd"
  by (simp add: tree2_def sub1_def)

lemma p2_acts_cong:
  assumes "pt pd = pt' pd" and "\<forall>t \<in> sub1 pt pd i. pt t = pt' t"
  shows "p2_acts pt pd i = p2_acts pt' pd i"
proof -
  have e: "pt' pd i = pt pd i" using assms(1) by simp
  let ?a = "pte_addr (pt pd i)"
  have "p1_acts pt ?a = p1_acts pt' ?a" if "\<not> is_unused (pt pd i)" "HUGE_PAGE \<notin> pte_flags (pt pd i)"
  proof
    fix j
    have "?a \<in> sub1 pt pd i" using that by (simp add: sub1_def)
    with assms(2) have "pt ?a = pt' ?a" by blast
    then show "p1_acts pt ?a j = p1_acts pt' ?a j" by (rule p1_acts_cong)
  qed
  then show ?thesis unfolding p2_acts_def e Let_def by simp
qed

lemma free_p3_all:
  assumes "tree3 (ptabs m) pdpt" and "n \<le> 512"
  shows "frames (fold (free_p3 pdpt) [0..<n] m) = fold do_act (concat (map (p3_acts (ptabs m) pdpt) [0..<n])) (frames m) \<and>
    ptabs (fold (free_p3 pdpt) [0..<n] m) = cleared (ptabs m) pdpt n (\<Union>j < n. sub2 (ptabs m) pdpt j)"
  using assms(2)
proof (induction n)
  case 0
  then show ?case by (simp add: cleared_def)
next
  case (Suc n)
  let ?k = "fold (free_p3 pdpt) [0..<n] m" and ?T = "\<Union>j < n. sub2 (ptabs m) pdpt j" and ?e = "ptabs m pdpt n"
  from Suc have fr: "frames ?k = fold do_act (concat (map (p3_acts (ptabs m) pdpt) [0..<n])) (frames m)"
    and pt: "ptabs ?k = cleared (ptabs m) pdpt n ?T" by simp_all
  have n: "n < 512" using Suc.prems by simp
  have sub_pdpt: "pdpt \<notin> sub2 (ptabs m) pdpt j" if "j < 512" for j
    using assms(1) that unfolding tree3_def by blast
  have pT: "pdpt \<notin> ?T" using sub_pdpt n by auto
  have e: "ptabs ?k pdpt n = ?e" unfolding pt by (rule cleared_next [OF pT])
  show ?case
  proof (cases "is_unused ?e")
    case True
    have st: "fold (free_p3 pdpt) [0..<Suc n] m = ?k" using True by (simp add: free_p3_def e)
    have "sub2 (ptabs m) pdpt n = {}" "p3_acts (ptabs m) pdpt n = []"
      using True by (simp_all add: sub2_def p3_acts_def)
    then show ?thesis unfolding st sub_Suc using fr pt cleared_unused [of "ptabs m" pdpt n, OF True] by simp
  next
    case False
    let ?a = "pte_addr ?e"
    let ?S = "\<Union>j < 512. sub1 (ptabs m) ?a j"
    have sub: "sub2 (ptabs m) pdpt n = insert ?a ?S" using False by (simp add: sub2_def Let_def)
    have disj: "sub2 (ptabs m) pdpt n \<inter> ?T = {}"
    proof -
      have "sub2 (ptabs m) pdpt n \<inter> sub2 (ptabs m) pdpt j = {}" if "j < n" for j
        using assms(1) n that unfolding tree3_def by auto
      then show ?thesis by blast
    qed
    have same: "ptabs ?k t = ptabs m t" if "t \<in> insert ?a ?S" for t
    proof -
      have "t \<in> sub2 (ptabs m) pdpt n" unfolding sub by (rule that)
      then have "t \<noteq> pdpt" "t \<notin> ?T" using sub_pdpt [OF n] disj by auto
      then show ?thesis unfolding pt by (rule cleared_other)
    qed
    have ak: "ptabs m ?a = ptabs ?k ?a" using same by simp
    have tr: "tree2 (ptabs ?k) ?a"
      using assms(1) n False tree2_cong [of "ptabs m" ?a "ptabs ?k", OF ak] unfolding tree3_def by blast
    have sb: "sub1 (ptabs ?k) ?a j = sub1 (ptabs m) ?a j" for j using sub1_cong [of "ptabs m" ?a "ptabs ?k" j, OF ak] by (rule sym)
    have ac: "p2_acts (ptabs ?k) ?a j = p2_acts (ptabs m) ?a j" if "j < 512" for j
    proof (rule p2_acts_cong [symmetric, of "ptabs m" ?a "ptabs ?k", OF ak], intro ballI)
      fix t assume "t \<in> sub1 (ptabs m) ?a j"
      then have "t \<in> insert ?a ?S" using that by blast
      then show "ptabs m t = ptabs ?k t" by (rule same [symmetric])
    qed
    have mp: "map (p2_acts (ptabs ?k) ?a) [0..<512] = map (p2_acts (ptabs m) ?a) [0..<512]"
      using ac by simp
    let ?r = "fold (free_p2 ?a) [0..<512] ?k"
    have R: "frames ?r = fold do_act (concat (map (p2_acts (ptabs m) ?a) [0..<512])) (frames ?k)"
      "ptabs ?r = cleared (ptabs ?k) ?a 512 ?S"
      using free_p2_all [OF tr order_refl] unfolding mp sb by blast+
    have st: "fold (free_p3 pdpt) [0..<Suc n] m = set_unused pdpt n (free_table ?a ?r)"
      using False by (simp add: free_p3_def e Let_def)
    have pa: "p3_acts (ptabs m) pdpt n = concat (map (p2_acts (ptabs m) ?a) [0..<512]) @ [FreeTable ?a]"
      using False by (simp add: p3_acts_def Let_def)
    have "frames (set_unused pdpt n (free_table ?a ?r)) =
        fold do_act (concat (map (p3_acts (ptabs m) pdpt) [0..<Suc n])) (frames m)"
      using R(1) fr pa by (simp add: set_unused_def free_table_def)
    moreover have "ptabs (set_unused pdpt n (free_table ?a ?r)) = cleared (ptabs m) pdpt (Suc n) (\<Union>j < Suc n. sub2 (ptabs m) pdpt j)"
      unfolding sub_Suc sub using R(2) pt by (simp add: set_unused_def free_table_def cleared_nested cleared_step)
    ultimately show ?thesis unfolding st by blast
  qed
qed

lemma free_user_space_spec:
  assumes "tree4 (ptabs m) pml4"
  shows "frames (free_user_space pml4 m) = fold do_act (space_acts (ptabs m) pml4) (frames m)"
    and "ptabs (free_user_space pml4 m) =
      (\<lambda>u i. if u = pml4 \<and> i = 1 \<or> u \<in> user_tables (ptabs m) pml4 \<and> i < 512 then unused_pte else ptabs m u i)"
proof -
  let ?e = "ptabs m pml4 1"
  have "frames (free_user_space pml4 m) = fold do_act (space_acts (ptabs m) pml4) (frames m) \<and>
    ptabs (free_user_space pml4 m) =
      (\<lambda>u i. if u = pml4 \<and> i = 1 \<or> u \<in> user_tables (ptabs m) pml4 \<and> i < 512 then unused_pte else ptabs m u i)"
  proof (cases "is_unused ?e")
    case True
    then have "?e = unused_pte" by (simp add: is_unused_def)
    then show ?thesis using True
      by (auto simp: free_user_space_def space_acts_def user_tables_def fun_eq_iff)
  next
    case False
    let ?a = "pte_addr ?e"
    have tr: "tree3 (ptabs m) ?a" using assms False by (simp add: tree4_def)
    have ut: "user_tables (ptabs m) pml4 = insert ?a (\<Union>i < 512. sub2 (ptabs m) ?a i)"
      using False by (simp add: user_tables_def Let_def)
    let ?r = "fold (free_p3 ?a) [0..<512] m"
    note R = free_p3_all [OF tr order_refl]
    have st: "free_user_space pml4 m = set_unused pml4 1 (free_table ?a ?r)"
      using False by (simp add: free_user_space_def Let_def)
    have "ptabs (free_user_space pml4 m) = set_entry pml4 1 unused_pte
        (cleared (ptabs m) ?a 512 (\<Union>i < 512. sub2 (ptabs m) ?a i))"
      unfolding st using R by (simp add: set_unused_def free_table_def)
    also have "\<dots> = (\<lambda>u i. if u = pml4 \<and> i = 1 \<or> u \<in> user_tables (ptabs m) pml4 \<and> i < 512 then unused_pte else ptabs m u i)"
      unfolding ut by (auto simp: cleared_def set_entry_def fun_eq_iff)
    finally show ?thesis
      unfolding st using R False by (simp add: set_unused_def free_table_def space_acts_def Let_def)
  qed
  then show "frames (free_user_space pml4 m) = fold do_act (space_acts (ptabs m) pml4) (frames m)"
    and "ptabs (free_user_space pml4 m) =
      (\<lambda>u i. if u = pml4 \<and> i = 1 \<or> u \<in> user_tables (ptabs m) pml4 \<and> i < 512 then unused_pte else ptabs m u i)"
    by blast+
qed

lemma present_used: "PRESENT \<in> pte_flags e \<Longrightarrow> \<not> is_unused e"
  by (auto simp: is_unused_def unused_pte_def)

lemma huge_offset: "(v AND 0x1FFFFF :: u64) = of_nat (p1_index v) * of_nat FRAME_SIZE + (v AND 0xFFF)"
proof -
  let ?n = "unat v"
  have "?n mod 2 ^ 21 = ?n mod 2 ^ 12 + 2 ^ 12 * (?n div 2 ^ 12 mod 512)"
    using mod_mult2_eq [of ?n "2 ^ 12" 512] by simp
  then have "unat (v AND 0x1FFFFF) = p1_index v * FRAME_SIZE + unat (v AND 0xFFF)"
    unfolding low_bits index_div FRAME_SIZE_def by simp
  then have "(of_nat (unat (v AND 0x1FFFFF)) :: u64) = of_nat (p1_index v * FRAME_SIZE + unat (v AND 0xFFF))"
    by simp
  then show ?thesis by (simp only: of_nat_add of_nat_mult of_nat_unat ucast_id)
qed

lemma walk_released:
  assumes "is_user_address v" and "walk pt pml4 v = Some p"
  shows "\<exists>a. Release a \<in> set (space_acts pt pml4) \<and> p = a + (v AND 0xFFF)"
proof -
  let ?e4 = "pt pml4 1"
  let ?e3 = "pt (pte_addr ?e4) (p3_index v)"
  let ?e2 = "pt (pte_addr ?e3) (p2_index v)"
  let ?e1 = "pt (pte_addr ?e2) (p1_index v)"
  have p4: "p4_index v = 1" using assms(1) by (simp add: is_user_p4)
  have pr: "PRESENT \<in> pte_flags ?e4" "PRESENT \<in> pte_flags ?e3" "PRESENT \<in> pte_flags ?e2"
    and w: "p = (if HUGE_PAGE \<in> pte_flags ?e2 then pte_addr ?e2 + (v AND 0x1FFFFF) else pte_addr ?e1 + (v AND 0xFFF))"
    and pr1: "HUGE_PAGE \<notin> pte_flags ?e2 \<Longrightarrow> PRESENT \<in> pte_flags ?e1"
    using assms(2) unfolding walk_def Let_def p4 by (simp_all split: if_splits)
  define a where "a = (if HUGE_PAGE \<in> pte_flags ?e2 then pte_addr ?e2 + of_nat (p1_index v) * of_nat FRAME_SIZE
    else pte_addr ?e1)"
  have i1: "p1_index v \<in> set [0..<512]" and i2: "p2_index v \<in> set [0..<512]" and i3: "p3_index v \<in> set [0..<512]"
    using index_bound [of v] by simp_all
  have "Release a \<in> set (p2_acts pt (pte_addr ?e3) (p2_index v))"
  proof (cases "HUGE_PAGE \<in> pte_flags ?e2")
    case True
    then show ?thesis using present_used [OF pr(3)] i1 by (auto simp: p2_acts_def a_def Let_def)
  next
    case False
    have "Release a \<in> set (p1_acts pt (pte_addr ?e2) (p1_index v))"
      using present_used [OF pr1 [OF False]] False by (simp add: p1_acts_def a_def)
    with False i1 show ?thesis using present_used [OF pr(3)]
      unfolding p2_acts_def Let_def by (auto intro!: bexI [of _ "p1_index v"])
  qed
  then have "Release a \<in> set (p3_acts pt (pte_addr ?e4) (p3_index v))"
    using present_used [OF pr(2)] i2 unfolding p3_acts_def Let_def by (auto intro!: bexI [of _ "p2_index v"])
  then have "Release a \<in> set (space_acts pt pml4)"
    using present_used [OF pr(1)] i3 unfolding space_acts_def Let_def by (auto intro!: bexI [of _ "p3_index v"])
  moreover have "p = a + (v AND 0xFFF)" unfolding w a_def huge_offset by simp
  ultimately show ?thesis by blast
qed


text \<open>One user page, at \<open>USER_SPACE_BASE\<close>, in frame \<open>0x5000\<close>.\<close>

definition w_tables :: tables where
  "w_tables t i =
     (if t = 0x1000 \<and> i = 1 then \<lparr>pte_addr = 0x2000, pte_flags = {PRESENT}\<rparr>
      else if t = 0x2000 \<and> i = 0 then \<lparr>pte_addr = 0x3000, pte_flags = {PRESENT}\<rparr>
      else if t = 0x3000 \<and> i = 0 then \<lparr>pte_addr = 0x4000, pte_flags = {PRESENT}\<rparr>
      else if t = 0x4000 \<and> i = 0 then \<lparr>pte_addr = 0x5000, pte_flags = {PRESENT}\<rparr>
      else unused_pte)"

lemma w_tables_tree: "tree4 w_tables 0x1000"
proof -
  have s1: "sub1 w_tables 0x3000 i = (if i = 0 then {0x4000} else {})" for i
    by (simp add: sub1_def w_tables_def is_unused_def unused_pte_def)
  have s2: "sub2 w_tables 0x2000 i = (if i = 0 then {0x3000, 0x4000} else {})" for i
    by (auto simp: sub2_def w_tables_def is_unused_def unused_pte_def Let_def s1 [unfolded w_tables_def])
      (auto simp: sub1_def is_unused_def unused_pte_def w_tables_def split: if_splits)
  have "tree2 w_tables 0x3000" by (auto simp: tree2_def s1)
  then have "tree3 w_tables 0x2000"
    by (auto simp: tree3_def s2 w_tables_def is_unused_def unused_pte_def split: if_splits)
  moreover have "user_tables w_tables 0x1000 = {0x2000, 0x3000, 0x4000}"
    by (auto simp: user_tables_def Let_def s2 is_unused_def unused_pte_def w_tables_def [of "0x1000"] split: if_splits)
  ultimately show ?thesis by (simp add: tree4_def w_tables_def [of "0x1000"])
qed


section \<open>The frame buffer window\<close>

lemma window_parts:
  fixes k :: nat
  assumes "k < 2 ^ 30"
  shows "(0xFFFFC00000000000 + k) div 2 ^ 39 mod 512 = 384" and "(0xFFFFC00000000000 + k) div 2 ^ 30 mod 512 = 0"
    and "(0xFFFFC00000000000 + k) div 2 ^ 21 mod 512 = k div 2 ^ 21" and "(0xFFFFC00000000000 + k) mod 2 ^ 21 = k mod 2 ^ 21"
    and "k div 2 ^ 21 < 512"
proof -
  show l: "k div 2 ^ 21 < 512" using assms by simp
  have "0xFFFFC00000000000 + k = k + 33554304 * 2 ^ 39" by simp
  then have "(0xFFFFC00000000000 + k) div 2 ^ 39 = k div 2 ^ 39 + 33554304" by (simp add: div_mult_self1)
  then show "(0xFFFFC00000000000 + k) div 2 ^ 39 mod 512 = 384" using assms by simp
  have "0xFFFFC00000000000 + k = k + 33554304 * 512 * 2 ^ 30" by simp
  then have "(0xFFFFC00000000000 + k) div 2 ^ 30 = k div 2 ^ 30 + 33554304 * 512" by (simp add: div_mult_self1)
  then have "(0xFFFFC00000000000 + k) div 2 ^ 30 mod 512 = k div 2 ^ 30 mod 512" by (simp only: mod_mult_self1)
  then show "(0xFFFFC00000000000 + k) div 2 ^ 30 mod 512 = 0" using assms by simp
  have e: "0xFFFFC00000000000 + k = k + 8796059467776 * 2 ^ 21" by simp
  then have "(0xFFFFC00000000000 + k) div 2 ^ 21 = k div 2 ^ 21 + 17179803648 * 512" by (simp add: div_mult_self1)
  then have "(0xFFFFC00000000000 + k) div 2 ^ 21 mod 512 = k div 2 ^ 21 mod 512" by (simp only: mod_mult_self1)
  then show "(0xFFFFC00000000000 + k) div 2 ^ 21 mod 512 = k div 2 ^ 21" using l by simp
  show "(0xFFFFC00000000000 + k) mod 2 ^ 21 = k mod 2 ^ 21" using e by (simp only: mod_mult_self1)
qed

lemma huge_base: "(a AND NOT 0x1FFFFF :: u64) + (a AND 0x1FFFFF) = a"
proof -
  have "(a AND NOT 0x1FFFFF) + (a AND 0x1FFFFF) = (a AND NOT 0x1FFFFF) OR (a AND 0x1FFFFF)"
    by (rule disjunctive_add) (auto simp: bit_simps)
  also have "\<dots> = a" by (rule bit_eqI) (auto simp: bit_simps)
  finally show ?thesis .
qed

lemma div_ceil_word:
  fixes span :: u64
  defines "pages \<equiv> span div 0x200000 + (if span mod 0x200000 \<noteq> 0 then 1 else 0)"
  shows "unat span \<le> unat pages * 2 ^ 21" and "unat pages \<le> 2 ^ 43"
proof -
  let ?n = "unat span"
  have lt: "?n < 2 ^ 64" using unsigned_less [of span] by simp
  have d: "unat (span div 0x200000) = ?n div 2 ^ 21" by (simp add: unat_div)
  have "span mod 0x200000 = 0 \<longleftrightarrow> unat (span mod 0x200000) = unat (0 :: u64)" by (simp only: unat_inj_iff)
  then have m: "span mod 0x200000 = 0 \<longleftrightarrow> ?n mod 2 ^ 21 = 0" by (simp add: unat_mod)
  have b: "?n div 2 ^ 21 < 2 ^ 43" using lt by simp
  have "unat (span div 0x200000 + 1) = ?n div 2 ^ 21 + 1" using b d by (simp add: unat_word_ariths)
  with d m have p: "unat pages = ?n div 2 ^ 21 + (if ?n mod 2 ^ 21 = 0 then 0 else 1)" by (simp add: pages_def)
  show "unat pages \<le> 2 ^ 43" unfolding p using b by simp
  have e: "?n = ?n div 2 ^ 21 * 2 ^ 21 + ?n mod 2 ^ 21" by (rule div_mult_mod_eq [symmetric])
  have l: "?n mod 2 ^ 21 < 2 ^ 21" by simp
  show "?n \<le> unat pages * 2 ^ 21"
  proof (cases "?n mod 2 ^ 21 = 0")
    case True
    then show ?thesis using e unfolding p by simp
  next
    case False
    have "unat pages * 2 ^ 21 = ?n div 2 ^ 21 * 2 ^ 21 + 2 ^ 21" unfolding p using False by simp
    with e l show ?thesis by linarith
  qed
qed

lemma map_framebuffer_Some:
  assumes "map_framebuffer fb_pdpt fb_pd pml4 fb_addr fb_len pt = (Some virt, pt')" and "unat fb_len < 2 ^ 63"
    and "distinct [pml4, fb_pdpt, fb_pd]"
  obtains pages where "virt = FB_VIRT_BASE + (fb_addr AND 0x1FFFFF)"
    and "unat (fb_addr AND 0x1FFFFF) + unat fb_len \<le> pages * 2 ^ 21" and "pages \<le> 512"
    and "pt' pml4 = (pt pml4)(384 := \<lparr>pte_addr = fb_pdpt, pte_flags = {PRESENT, WRITABLE}\<rparr>)"
    and "pt' fb_pdpt = (\<lambda>_. unused_pte)(0 := \<lparr>pte_addr = fb_pd, pte_flags = {PRESENT, WRITABLE}\<rparr>)"
    and "pt' fb_pd = (\<lambda>i. if i < pages then \<lparr>pte_addr = (fb_addr AND NOT 0x1FFFFF) + of_nat i * 0x200000,
           pte_flags = {PRESENT, WRITABLE, HUGE_PAGE}\<rparr> else unused_pte)"
    and "\<forall>t. t \<notin> {pml4, fb_pdpt, fb_pd} \<longrightarrow> pt' t = pt t"
proof -
  let ?al = "fb_addr AND NOT (0x200000 - 1)"
  have al: "?al = fb_addr AND NOT 0x1FFFFF" by simp
  have off: "fb_addr - ?al = fb_addr AND 0x1FFFFF" unfolding al using huge_base [of fb_addr] by (simp add: algebra_simps)
  obtain span where sp: "checked_add (fb_addr AND 0x1FFFFF) fb_len = Some span"
    using assms(1) unfolding map_framebuffer_def Let_def off by (auto split: option.splits if_splits)
  define pages where "pages = span div 0x200000 + (if span mod 0x200000 \<noteq> 0 then 1 else 0)"
  have us: "unat span = unat (fb_addr AND 0x1FFFFF) + unat fb_len" using sp by (rule checked_add_Some_unat)
  note D = div_ceil_word [of span, folded pages_def]
  have p4: "p4_index FB_VIRT_BASE = 384" by (simp add: index_div FB_VIRT_BASE_def)
  have ne: "\<not> (fb_addr = 0 \<or> fb_len = 0)" using assms(1) by (auto simp: map_framebuffer_def)
  have guard: "\<not> FB_WINDOW_SIZE < pages * 0x200000" and v: "virt = FB_VIRT_BASE + (fb_addr AND 0x1FFFFF)"
    and pt': "pt' = fold (\<lambda>i. set_entry fb_pd i \<lparr>pte_addr = ?al + of_nat i * 0x200000, pte_flags = {PRESENT, WRITABLE, HUGE_PAGE}\<rparr>)
      [0..<unat pages] (set_entry fb_pdpt 0 \<lparr>pte_addr = fb_pd, pte_flags = {PRESENT, WRITABLE}\<rparr>
        (set_entry pml4 384 \<lparr>pte_addr = fb_pdpt, pte_flags = {PRESENT, WRITABLE}\<rparr> (zero_table fb_pd (zero_table fb_pdpt pt))))"
    using assms(1) ne unfolding map_framebuffer_def Let_def off sp option.case pages_def [symmetric] p4
    by (simp_all split: if_splits)
  have "unat span < 2 ^ 63 + 2 ^ 21" using us assms(2) low_bits(1) [of fb_addr] by simp
  have small: "unat pages * 2 ^ 21 < 2 ^ 64"
  proof -
    have "unat span div 2 ^ 21 < 2 ^ 42 + 2" using \<open>unat span < 2 ^ 63 + 2 ^ 21\<close> by simp
    moreover have "unat pages \<le> unat span div 2 ^ 21 + 1"
    proof -
      have "unat (span div 0x200000) = unat span div 2 ^ 21" by (simp add: unat_div)
      then show ?thesis unfolding pages_def by (auto simp: unat_word_ariths intro: order_trans [OF mod_less_eq_dividend])
    qed
    ultimately show ?thesis by simp
  qed
  then have "unat (pages * 0x200000) = unat pages * 2 ^ 21" by (simp add: unat_word_ariths)
  then have le: "unat pages \<le> 512" using guard by (simp add: FB_WINDOW_SIZE_def word_less_nat_alt)
  have d: "pml4 \<noteq> fb_pdpt" "pml4 \<noteq> fb_pd" "fb_pdpt \<noteq> fb_pd" using assms(3) by auto
  show thesis
  proof (rule that [of "unat pages"])
    show "virt = FB_VIRT_BASE + (fb_addr AND 0x1FFFFF)" by (rule v)
    show "unat (fb_addr AND 0x1FFFFF) + unat fb_len \<le> unat pages * 2 ^ 21" using D(1) us by simp
    show "unat pages \<le> 512" by (rule le)
  qed (use d in \<open>auto simp: pt' [unfolded al] fold_set_entry set_entry_def zero_table_def fun_eq_iff\<close>)
qed



end
