(* ===== verification/Mapper.thy ===== *)
theory Mapper
  imports Paging
begin

text \<open>
  What the kernel relies on from the page-table code of the \<open>x86_64\<close> crate, \<open>map_to\<close> and
  \<open>unmap\<close>, as the locale \<open>page_mapper\<close>: the documented effect on the entry of the page, that only
  tables on the way to that entry and frames taken from the allocator are written, and that a page
  that is already mapped is refused. The reference walk \<open>ref_map_to\<close>/\<open>ref_unmap\<close>, which follows the
  crate's documentation (missing tables are allocated and cleared, parent entries get the flags
  present, writable and user of the new page), is shown to satisfy it.
\<close>

section \<open>The way to an entry\<close>

definition next_addr :: "tables \<Rightarrow> u64 \<Rightarrow> nat \<Rightarrow> u64 option" where
  "next_addr pt t i =
     (let e = pt t i in if PRESENT \<in> pte_flags e \<and> HUGE_PAGE \<notin> pte_flags e then Some (pte_addr e) else None)"

fun path_from :: "tables \<Rightarrow> u64 \<Rightarrow> nat list \<Rightarrow> u64 list" where
  "path_from pt t [] = [t]"
| "path_from pt t (i # is) = t # (case next_addr pt t i of None \<Rightarrow> [] | Some u \<Rightarrow> path_from pt u is)"

abbreviation upper_indices :: "u64 \<Rightarrow> nat list" where
  "upper_indices v \<equiv> [p4_index v, p3_index v, p2_index v]"

definition path :: "tables \<Rightarrow> u64 \<Rightarrow> u64 \<Rightarrow> u64 list" where
  "path pt pml4 v = path_from pt pml4 (upper_indices v)"

fun last_table :: "tables \<Rightarrow> u64 \<Rightarrow> nat list \<Rightarrow> u64 option" where
  "last_table pt t [] = Some t"
| "last_table pt t (i # is) = (case next_addr pt t i of None \<Rightarrow> None | Some u \<Rightarrow> last_table pt u is)"

definition leaf_entry :: "tables \<Rightarrow> u64 \<Rightarrow> u64 \<Rightarrow> pte option" where
  "leaf_entry pt pml4 v =
     (case last_table pt pml4 (upper_indices v) of
        None \<Rightarrow> None
      | Some t \<Rightarrow> if PRESENT \<in> pte_flags (pt t (p1_index v)) then Some (pt t (p1_index v)) else None)"

text \<open>Tables in use are not free, and no table occurs twice on a way.\<close>

definition path_ok :: "mem \<Rightarrow> u64 \<Rightarrow> u64 \<Rightarrow> bool" where
  "path_ok m pml4 v \<longleftrightarrow> frames_inv (frames m) \<and> distinct (path (ptabs m) pml4 v) \<and>
     (\<forall>t \<in> set (path (ptabs m) pml4 v). \<not> frame_is_free (frames m) t)"

lemma leaf_walk:
  assumes "leaf_entry pt pml4 v = Some e"
  shows "walk pt pml4 v = Some (pte_addr e + (v AND 0xFFF))"
  using assms by (auto simp: leaf_entry_def next_addr_def walk_def Let_def split: option.splits if_splits)

lemma page_of_div: "unat (page_of v) = unat v div 2 ^ 12 * 2 ^ 12"
  using unat_page_base [of v] by (simp add: page_of_def FRAME_SIZE_def)

lemma index_page: "p4_index (page_of v) = p4_index v" "p3_index (page_of v) = p3_index v"
  "p2_index (page_of v) = p2_index v" "p1_index (page_of v) = p1_index v"
proof -
  have d: "n div 2 ^ 12 * 2 ^ 12 div 2 ^ (12 + k) = n div 2 ^ (12 + k)" for n k :: nat
    by (simp add: power_add div_mult2_eq)
  show "p4_index (page_of v) = p4_index v" "p3_index (page_of v) = p3_index v"
    "p2_index (page_of v) = p2_index v" "p1_index (page_of v) = p1_index v"
    unfolding index_div page_of_div using d [of "unat v" 27] d [of "unat v" 18] d [of "unat v" 9] d [of "unat v" 0]
    by simp_all
qed

lemma path_page: "path pt pml4 (page_of v) = path pt pml4 v"
  by (simp add: path_def index_page)

lemma leaf_page: "leaf_entry pt pml4 (page_of v) = leaf_entry pt pml4 v"
  unfolding leaf_entry_def index_page ..

lemma path_from_last: "last_table pt t is = Some u \<Longrightarrow> u \<in> set (path_from pt t is)"
  by (induction pt t "is" rule: path_from.induct) (auto split: option.splits)

lemma path_from_cong:
  assumes "\<And>u. u \<in> set (path_from pt t is) \<Longrightarrow> pt' u = pt u"
  shows "path_from pt' t is = path_from pt t is \<and> last_table pt' t is = last_table pt t is"
  using assms
proof (induction pt t "is" rule: path_from.induct)
  case (2 pt t i "is")
  have "pt' t = pt t" using "2.prems" by simp
  then have n: "next_addr pt' t i = next_addr pt t i" by (simp add: next_addr_def)
  show ?case
  proof (cases "next_addr pt t i")
    case (Some u)
    have "path_from pt' u is = path_from pt u is \<and> last_table pt' u is = last_table pt u is"
      by (rule "2.IH" [OF Some]) (use "2.prems" Some in simp)
    with n Some show ?thesis by simp
  qed (simp add: n)
qed simp

lemma leaf_cong:
  assumes "\<And>u. u \<in> set (path pt pml4 v) \<Longrightarrow> pt' u = pt u"
  shows "leaf_entry pt' pml4 v = leaf_entry pt pml4 v"
proof -
  have c: "last_table pt' pml4 (upper_indices v) = last_table pt pml4 (upper_indices v)"
    using path_from_cong [of pt pml4 "upper_indices v" pt'] assms by (simp add: path_def)
  show ?thesis
  proof (cases "last_table pt pml4 (upper_indices v)")
    case (Some t)
    from path_from_last [OF this] have "pt' t = pt t" using assms by (simp add: path_def)
    then show ?thesis unfolding leaf_entry_def c Some by simp
  next
    case None
    show ?thesis unfolding leaf_entry_def c None by simp
  qed
qed

section \<open>The contract\<close>

locale page_mapper =
  fixes mapf :: "u64 \<Rightarrow> u64 \<Rightarrow> u64 \<Rightarrow> ptflag set \<Rightarrow> mem \<Rightarrow> mem option"
    and unmapf :: "u64 \<Rightarrow> u64 \<Rightarrow> mem \<Rightarrow> (u64 \<times> mem) option"
  assumes map_entry: "path_ok m pml4 v \<Longrightarrow> PRESENT \<in> fl \<Longrightarrow> mapf pml4 v f fl m = Some m' \<Longrightarrow>
      leaf_entry (ptabs m') pml4 v = Some \<lparr>pte_addr = f, pte_flags = fl\<rparr>"
    and map_writes: "frames_inv (frames m) \<Longrightarrow> mapf pml4 v f fl m = Some m' \<Longrightarrow> t \<notin> set (path (ptabs m) pml4 v) \<Longrightarrow>
      \<not> frame_is_free (frames m) t \<Longrightarrow> ptabs m' t = ptabs m t"
    and map_taken: "leaf_entry (ptabs m) pml4 v = Some e \<Longrightarrow> mapf pml4 v f fl m = None"
    and map_frames: "mapf pml4 v f fl m = Some m' \<Longrightarrow>
      \<exists>n ps. alloc_many allocate_frame n (frames m) = Some (ps, frames m')"
    and unmap_some: "leaf_entry (ptabs m) pml4 v = Some e \<Longrightarrow>
      \<exists>t. last_table (ptabs m) pml4 (upper_indices v) = Some t \<and>
          unmapf pml4 v m = Some (pte_addr e, m\<lparr>ptabs := set_entry t (p1_index v) unused_pte (ptabs m)\<rparr>)"
    and unmap_none: "leaf_entry (ptabs m) pml4 v = None \<Longrightarrow> unmapf pml4 v m = None"
begin

lemma map_inv:
  assumes "frames_inv (frames m)" and "mapf pml4 v f fl m = Some m'"
  shows "frames_inv (frames m')" and "frame_is_free (frames m') q \<Longrightarrow> frame_is_free (frames m) q"
proof -
  obtain n ps where "alloc_many allocate_frame n (frames m) = Some (ps, frames m')"
    using map_frames [OF assms(2)] by blast
  from bitmap_frames.alloc_many_sound [OF assms(1) this]
  show "frames_inv (frames m')" and "frame_is_free (frames m') q \<Longrightarrow> frame_is_free (frames m) q" by blast+
qed

text \<open>A new mapping is what the walk finds at every address of the page.\<close>

lemma map_then_walk:
  assumes "path_ok m pml4 v" and "PRESENT \<in> fl" and "mapf pml4 (page_of v) f fl m = Some m'"
  shows "leaf_entry (ptabs m') pml4 v = Some \<lparr>pte_addr = f, pte_flags = fl\<rparr>"
    and "walk (ptabs m') pml4 v = Some (f + (v AND 0xFFF))"
proof -
  have "path_ok m pml4 (page_of v)" using assms(1) by (simp add: path_ok_def path_page)
  from map_entry [OF this assms(2,3)]
  show l: "leaf_entry (ptabs m') pml4 v = Some \<lparr>pte_addr = f, pte_flags = fl\<rparr>" by (simp add: leaf_page)
  from leaf_walk [OF l] show "walk (ptabs m') pml4 v = Some (f + (v AND 0xFFF))" by simp
qed

text \<open>Isolation: a way that shares no table with the one mapped through keeps its entry.\<close>

lemma map_keeps_other:
  assumes "frames_inv (frames m)" and "mapf pml4 (page_of v) f fl m = Some m'"
    and "set (path (ptabs m) root w) \<inter> set (path (ptabs m) pml4 v) = {}"
    and "\<forall>t \<in> set (path (ptabs m) root w). \<not> frame_is_free (frames m) t"
  shows "leaf_entry (ptabs m') root w = leaf_entry (ptabs m) root w"
proof (rule leaf_cong)
  fix u assume u: "u \<in> set (path (ptabs m) root w)"
  then have "u \<notin> set (path (ptabs m) pml4 (page_of v))" using assms(3) by (auto simp: path_page)
  with map_writes [OF assms(1,2) this] u assms(4) show "ptabs m' u = ptabs m u" by blast
qed

text \<open>Mapping twice without unmapping fails; after unmapping the page is gone.\<close>

lemma map_twice:
  assumes "path_ok m pml4 v" and "PRESENT \<in> fl" and "mapf pml4 (page_of v) f fl m = Some m'"
  shows "mapf pml4 (page_of v) g fl' m' = None"
proof (rule map_taken)
  show "leaf_entry (ptabs m') pml4 (page_of v) = Some \<lparr>pte_addr = f, pte_flags = fl\<rparr>"
    using map_then_walk(1) [OF assms] by (simp add: leaf_page)
qed

end

section \<open>A reference walk\<close>

definition next_table :: "ptflag set \<Rightarrow> u64 \<Rightarrow> nat \<Rightarrow> mem \<Rightarrow> (u64 \<times> mem) option" where
  "next_table fl t i m =
     (let e = ptabs m t i
      in if is_unused e then
           (case allocate_frame (frames m) of
              None \<Rightarrow> None
            | Some (f, fr) \<Rightarrow>
                Some (f, m\<lparr>frames := fr, ptabs := zero_table f (set_entry t i \<lparr>pte_addr = f, pte_flags = fl\<rparr> (ptabs m))\<rparr>))
         else if HUGE_PAGE \<in> pte_flags e \<or> PRESENT \<notin> pte_flags e then None
         else Some (pte_addr e, m\<lparr>ptabs := set_entry t i (e\<lparr>pte_flags := pte_flags e \<union> fl\<rparr>) (ptabs m)\<rparr>))"

fun descend :: "ptflag set \<Rightarrow> u64 \<Rightarrow> nat list \<Rightarrow> mem \<Rightarrow> (u64 \<times> mem) option" where
  "descend fl t [] m = Some (t, m)"
| "descend fl t (i # is) m =
     (case next_table fl t i m of None \<Rightarrow> None | Some (u, m') \<Rightarrow> descend fl u is m')"

definition ref_map_to :: "u64 \<Rightarrow> u64 \<Rightarrow> u64 \<Rightarrow> ptflag set \<Rightarrow> mem \<Rightarrow> mem option" where
  "ref_map_to pml4 v f fl m =
     (case descend (fl \<inter> {PRESENT, WRITABLE, USER_ACCESSIBLE}) pml4 (upper_indices v) m of
        None \<Rightarrow> None
      | Some (t, m') \<Rightarrow>
          if is_unused (ptabs m' t (p1_index v))
          then Some (m'\<lparr>ptabs := set_entry t (p1_index v) \<lparr>pte_addr = f, pte_flags = fl\<rparr> (ptabs m')\<rparr>) else None)"

definition ref_unmap :: "u64 \<Rightarrow> u64 \<Rightarrow> mem \<Rightarrow> (u64 \<times> mem) option" where
  "ref_unmap pml4 v m =
     (case last_table (ptabs m) pml4 (upper_indices v) of
        None \<Rightarrow> None
      | Some t \<Rightarrow>
          if PRESENT \<in> pte_flags (ptabs m t (p1_index v))
          then Some (pte_addr (ptabs m t (p1_index v)), m\<lparr>ptabs := set_entry t (p1_index v) unused_pte (ptabs m)\<rparr>)
          else None)"

lemma next_table_cases:
  assumes "next_table fl t i m = Some (u, m')"
  obtains (new) fr where "is_unused (ptabs m t i)" and "allocate_frame (frames m) = Some (u, fr)"
      and "m' = m\<lparr>frames := fr, ptabs := zero_table u (set_entry t i \<lparr>pte_addr = u, pte_flags = fl\<rparr> (ptabs m))\<rparr>"
    | (old) "next_addr (ptabs m) t i = Some u"
      and "m' = m\<lparr>ptabs := set_entry t i (ptabs m t i\<lparr>pte_flags := pte_flags (ptabs m t i) \<union> fl\<rparr>) (ptabs m)\<rparr>"
  using assms by (auto simp: next_table_def next_addr_def Let_def split: if_splits option.splits)

lemma unused_next: "is_unused (pt t i) \<Longrightarrow> next_addr pt t i = None"
  by (simp add: next_addr_def is_unused_def unused_pte_def)

lemma alloc_one:
  assumes "frames_inv s" and "allocate_frame s = Some (u, s')"
  shows "frame_is_free s u" and "\<not> frame_is_free s' u" and "frames_inv s'"
    and "frame_is_free s' q \<Longrightarrow> frame_is_free s q"
  using bitmap_frames.alloc_free [OF assms] bitmap_frames.alloc_taken [OF assms] bitmap_frames.inv_alloc [OF assms]
  by blast+

lemma path_next_cong:
  "(\<And>x j. next_addr pt' x j = next_addr pt x j) \<Longrightarrow>
     path_from pt' t is = path_from pt t is \<and> last_table pt' t is = last_table pt t is"
  by (induction pt t "is" rule: path_from.induct) (auto split: option.splits)

lemma next_addr_flags:
  assumes "next_addr pt t i = Some u" and "HUGE_PAGE \<notin> fl"
  shows "next_addr (set_entry t i (pt t i\<lparr>pte_flags := pte_flags (pt t i) \<union> fl\<rparr>) pt) x j = next_addr pt x j"
  using assms by (auto simp: next_addr_def set_entry_def Let_def split: if_splits)

lemma path_zeroed: "pt a = (\<lambda>_. unused_pte) \<Longrightarrow> path_from pt a is = [a]"
  by (cases "is") (simp_all add: next_addr_def unused_pte_def)

text \<open>Only tables on the way and free frames are written.\<close>

lemma descend_writes:
  assumes "descend fl t is m = Some (u, m')" and "HUGE_PAGE \<notin> fl" and "frames_inv (frames m)"
    and "w \<notin> set (path_from (ptabs m) t is)" and "\<not> frame_is_free (frames m) w"
  shows "ptabs m' w = ptabs m w"
  using assms
proof (induction fl t "is" m arbitrary: u m' rule: descend.induct)
  case (2 fl t i "is" m)
  from "2.prems"(1) obtain a m1 where n: "next_table fl t i m = Some (a, m1)" and d: "descend fl a is m1 = Some (u, m')"
    by (auto split: option.splits)
  note IH = "2.IH" [OF n refl d "2.prems"(2)]
  have wt: "w \<noteq> t" using "2.prems"(4) by simp
  from n show ?case
  proof (cases rule: next_table_cases)
    case (new fr)
    note A = alloc_one [OF "2.prems"(3) new(2)]
    have wa: "w \<noteq> a" using A(1) "2.prems"(5) by blast
    have z: "ptabs m1 a = (\<lambda>_. unused_pte)" by (simp add: new(3) zero_table_def)
    have "frames_inv (frames m1)" "\<not> frame_is_free (frames m1) w" using A(3,4) "2.prems"(5) by (auto simp: new(3))
    then have "ptabs m' w = ptabs m1 w" using IH path_zeroed [of "ptabs m1" a, OF z] wa by simp
    then show ?thesis using wt wa by (simp add: new(3) zero_table_def set_entry_def)
  next
    case old
    have "path_from (ptabs m1) a is = path_from (ptabs m) a is"
      using path_next_cong [of "ptabs m1" "ptabs m"] next_addr_flags [OF old(1) "2.prems"(2)] by (simp add: old(2))
    then have "w \<notin> set (path_from (ptabs m1) a is)" using "2.prems"(4) old(1) by simp
    then have "ptabs m' w = ptabs m1 w" using IH "2.prems"(3,5) by (simp add: old(2))
    then show ?thesis using wt by (simp add: old(2) set_entry_def)
  qed
qed simp

lemma descend_end:
  assumes "descend fl t is m = Some (u, m')" and "HUGE_PAGE \<notin> fl" and "frames_inv (frames m)"
  shows "u \<in> set (path_from (ptabs m) t is) \<or> frame_is_free (frames m) u"
  using assms
proof (induction fl t "is" m arbitrary: u m' rule: descend.induct)
  case (2 fl t i "is" m)
  from "2.prems"(1) obtain a m1 where n: "next_table fl t i m = Some (a, m1)" and d: "descend fl a is m1 = Some (u, m')"
    by (auto split: option.splits)
  note IH = "2.IH" [OF n refl d "2.prems"(2)]
  from n show ?case
  proof (cases rule: next_table_cases)
    case (new fr)
    note A = alloc_one [OF "2.prems"(3) new(2)]
    have z: "ptabs m1 a = (\<lambda>_. unused_pte)" by (simp add: new(3) zero_table_def)
    from IH A show ?thesis unfolding path_zeroed [of "ptabs m1" a, OF z] by (auto simp: new(3))
  next
    case old
    have "path_from (ptabs m1) a is = path_from (ptabs m) a is"
      using path_next_cong [of "ptabs m1" "ptabs m"] next_addr_flags [OF old(1) "2.prems"(2)] by (simp add: old(2))
    with IH "2.prems"(3) old show ?thesis by simp
  qed
qed simp

text \<open>After the descent the way leads to the last table, without repetition.\<close>

lemma descend_path:
  assumes "descend fl t is m = Some (u, m')" and "PRESENT \<in> fl" and "HUGE_PAGE \<notin> fl" and "frames_inv (frames m)"
    and "distinct (path_from (ptabs m) t is)" and "\<forall>x \<in> set (path_from (ptabs m) t is). \<not> frame_is_free (frames m) x"
  shows "last_table (ptabs m') t is = Some u \<and> distinct (path_from (ptabs m') t is) \<and> frames_inv (frames m') \<and>
    (\<forall>x \<in> set (path_from (ptabs m') t is). x \<in> set (path_from (ptabs m) t is) \<or> frame_is_free (frames m) x)"
  using assms
proof (induction fl t "is" m arbitrary: u m' rule: descend.induct)
  case (2 fl t i "is" m)
  from "2.prems"(1) obtain a m1 where n: "next_table fl t i m = Some (a, m1)" and d: "descend fl a is m1 = Some (u, m')"
    by (auto split: option.splits)
  note IH = "2.IH" [OF n refl d "2.prems"(2,3)]
  note fl = "2.prems"(2,3)
  have tf: "\<not> frame_is_free (frames m) t" using "2.prems"(6) by simp
  from n show ?case
  proof (cases rule: next_table_cases)
    case (new fr)
    note A = alloc_one [OF "2.prems"(4) new(2)]
    have ta: "t \<noteq> a" using A(1) tf by blast
    have z: "ptabs m1 a = (\<lambda>_. unused_pte)" by (simp add: new(3) zero_table_def)
    note pz = path_zeroed [of "ptabs m1" a "is", OF z]
    have i1: "frames_inv (frames m1)" and f1: "\<not> frame_is_free (frames m1) a" "\<not> frame_is_free (frames m1) t"
      using A tf by (auto simp: new(3))
    from IH [OF i1] pz f1 have R: "last_table (ptabs m') a is = Some u" "distinct (path_from (ptabs m') a is)"
        "frames_inv (frames m')" "\<forall>x \<in> set (path_from (ptabs m') a is). x = a \<or> frame_is_free (frames m1) x"
      by simp_all
    have "ptabs m' t = ptabs m1 t" by (rule descend_writes [OF d fl(2) i1]) (use pz ta f1 in simp_all)
    then have nx: "next_addr (ptabs m') t i = Some a"
      using fl ta by (simp add: next_addr_def new(3) zero_table_def set_entry_def)
    have "t \<notin> set (path_from (ptabs m') a is)" using R(4) ta f1 by auto
    moreover have "frame_is_free (frames m) x" if "x \<in> set (path_from (ptabs m') a is)" for x
      using R(4) that A(1,4) by (auto simp: new(3))
    ultimately show ?thesis using nx R by simp
  next
    case old
    have p1: "path_from (ptabs m1) a is = path_from (ptabs m) a is"
      using path_next_cong [of "ptabs m1" "ptabs m"] next_addr_flags [OF old(1) fl(2)] by (simp add: old(2))
    have fr: "frames m1 = frames m" by (simp add: old(2))
    have ta: "t \<notin> set (path_from (ptabs m) a is)" using "2.prems"(5) old(1) by simp
    have R: "last_table (ptabs m') a is = Some u" "distinct (path_from (ptabs m') a is)" "frames_inv (frames m')"
        "\<forall>x \<in> set (path_from (ptabs m') a is). x \<in> set (path_from (ptabs m) a is) \<or> frame_is_free (frames m) x"
      using IH "2.prems"(4-6) old(1) unfolding p1 fr by simp_all
    have "ptabs m' t = ptabs m1 t"
      by (rule descend_writes [OF d fl(2)]) (use "2.prems"(4) p1 ta tf fr in simp_all)
    then have nx: "next_addr (ptabs m') t i = Some a"
      using next_addr_flags [OF old(1) fl(2), of t i] old(1) by (simp add: next_addr_def old(2))
    have "t \<notin> set (path_from (ptabs m') a is)" using R(4) ta tf by blast
    then show ?thesis using nx R old(1) by auto
  qed
qed simp

lemma last_table_leaf_write:
  assumes "last_table pt t is = Some u" and "distinct (path_from pt t is)"
  shows "last_table (set_entry u j e pt) t is = Some u"
  using assms
proof (induction pt t "is" rule: path_from.induct)
  case (2 pt t i "is")
  then obtain a where a: "next_addr pt t i = Some a" "last_table pt a is = Some u" by (auto split: option.splits)
  from path_from_last [OF a(2)] "2.prems"(2) a(1) have "u \<noteq> t" by auto
  then have "next_addr (set_entry u j e pt) t i = Some a" using a(1) by (simp add: next_addr_def set_entry_def)
  moreover have "last_table (set_entry u j e pt) a is = Some u"
    by (rule "2.IH" [OF a(1) a(2)]) (use "2.prems"(2) a(1) in simp)
  ultimately show ?case by simp
qed simp

lemma descend_frames:
  "descend fl t is m = Some (u, m') \<Longrightarrow> \<exists>n ps. alloc_many allocate_frame n (frames m) = Some (ps, frames m')"
proof (induction fl t "is" m arbitrary: u m' rule: descend.induct)
  case (1 fl t m)
  then have "alloc_many allocate_frame 0 (frames m) = Some ([], frames m')" by simp
  then show ?case by blast
next
  case (2 fl t i "is" m)
  from "2.prems" obtain a m1 where n: "next_table fl t i m = Some (a, m1)" and d: "descend fl a is m1 = Some (u, m')"
    by (auto split: option.splits)
  obtain k ps where k: "alloc_many allocate_frame k (frames m1) = Some (ps, frames m')"
    using "2.IH" [OF n refl d] by blast
  from n show ?case
  proof (cases rule: next_table_cases)
    case (new fr)
    then have "alloc_many allocate_frame (Suc k) (frames m) = Some (a # ps, frames m')" using k by simp
    then show ?thesis by blast
  next
    case old
    then show ?thesis using k by auto
  qed
qed

lemma descend_existing:
  assumes "last_table (ptabs m) t is = Some u" and "HUGE_PAGE \<notin> fl"
  shows "\<exists>m'. descend fl t is m = Some (u, m') \<and>
    (\<forall>x j. PRESENT \<in> pte_flags (ptabs m x j) \<longrightarrow> PRESENT \<in> pte_flags (ptabs m' x j))"
  using assms
proof (induction "is" arbitrary: t m)
  case (Cons i "is")
  then obtain a where a: "next_addr (ptabs m) t i = Some a" "last_table (ptabs m) a is = Some u"
    by (auto split: option.splits)
  define m1 where "m1 = m\<lparr>ptabs := set_entry t i (ptabs m t i\<lparr>pte_flags := pte_flags (ptabs m t i) \<union> fl\<rparr>) (ptabs m)\<rparr>"
  have nt: "next_table fl t i m = Some (a, m1)"
    using a(1) present_used [of "ptabs m t i"] by (auto simp: next_table_def next_addr_def m1_def Let_def split: if_splits)
  have "last_table (ptabs m1) a is = Some u"
    using path_next_cong [of "ptabs m1" "ptabs m" a "is"] next_addr_flags [OF a(1) Cons.prems(2)] a(2) by (simp add: m1_def)
  from Cons.IH [OF this Cons.prems(2)] obtain m' where d: "descend fl a is m1 = Some (u, m')"
    and p: "\<forall>x j. PRESENT \<in> pte_flags (ptabs m1 x j) \<longrightarrow> PRESENT \<in> pte_flags (ptabs m' x j)" by blast
  have "PRESENT \<in> pte_flags (ptabs m1 x j)" if "PRESENT \<in> pte_flags (ptabs m x j)" for x j
    using that by (auto simp: m1_def set_entry_def)
  with nt d p show ?case by auto
qed simp

interpretation crate: page_mapper ref_map_to ref_unmap
proof
  fix m pml4 v fl f m'
  assume ok: "path_ok m pml4 v" and p: "PRESENT \<in> fl" and r: "ref_map_to pml4 v f fl m = Some m'"
  let ?fl = "fl \<inter> {PRESENT, WRITABLE, USER_ACCESSIBLE}"
  obtain t m1 where d: "descend ?fl pml4 (upper_indices v) m = Some (t, m1)"
    and m': "m' = m1\<lparr>ptabs := set_entry t (p1_index v) \<lparr>pte_addr = f, pte_flags = fl\<rparr> (ptabs m1)\<rparr>"
    using r unfolding ref_map_to_def by (auto split: option.splits if_splits)
  have P: "PRESENT \<in> ?fl" "HUGE_PAGE \<notin> ?fl" using p by auto
  have "last_table (ptabs m1) pml4 (upper_indices v) = Some t \<and> distinct (path_from (ptabs m1) pml4 (upper_indices v))"
    using descend_path [OF d P] ok unfolding path_ok_def path_def by blast
  then have "last_table (ptabs m') pml4 (upper_indices v) = Some t"
    using last_table_leaf_write unfolding m' by (simp del: last_table.simps path_from.simps)
  then show "leaf_entry (ptabs m') pml4 v = Some \<lparr>pte_addr = f, pte_flags = fl\<rparr>"
    unfolding leaf_entry_def using p by (simp add: m' set_entry_def del: last_table.simps)
next
  fix m pml4 v f fl m' t
  assume inv: "frames_inv (frames m)" and r: "ref_map_to pml4 v f fl m = Some m'"
    and t: "t \<notin> set (path (ptabs m) pml4 v)" "\<not> frame_is_free (frames m) t"
  let ?fl = "fl \<inter> {PRESENT, WRITABLE, USER_ACCESSIBLE}"
  obtain u m1 where d: "descend ?fl pml4 (upper_indices v) m = Some (u, m1)"
    and m': "m' = m1\<lparr>ptabs := set_entry u (p1_index v) \<lparr>pte_addr = f, pte_flags = fl\<rparr> (ptabs m1)\<rparr>"
    using r unfolding ref_map_to_def by (auto split: option.splits if_splits)
  have h: "HUGE_PAGE \<notin> ?fl" by auto
  have "ptabs m1 t = ptabs m t"
    by (rule descend_writes [OF d h inv]) (use t in \<open>simp_all add: path_def del: path_from.simps\<close>)
  moreover have "u \<noteq> t" using descend_end [OF d h inv] t unfolding path_def by blast
  ultimately show "ptabs m' t = ptabs m t" by (simp add: m' set_entry_def)
next
  fix m :: mem and pml4 v f :: u64 and e fl
  assume l: "leaf_entry (ptabs m) pml4 v = Some e"
  let ?fl = "fl \<inter> {PRESENT, WRITABLE, USER_ACCESSIBLE}"
  obtain t where t: "last_table (ptabs m) pml4 (upper_indices v) = Some t" "PRESENT \<in> pte_flags (ptabs m t (p1_index v))"
    using l unfolding leaf_entry_def by (auto split: option.splits if_splits)
  have "HUGE_PAGE \<notin> ?fl" by auto
  from descend_existing [OF t(1) this] obtain m1 where "descend ?fl pml4 (upper_indices v) m = Some (t, m1)"
    "PRESENT \<in> pte_flags (ptabs m1 t (p1_index v))" using t(2) by blast
  then show "ref_map_to pml4 v f fl m = None"
    unfolding ref_map_to_def by (simp add: present_used del: descend.simps)
next
  fix m pml4 v f fl m'
  assume "ref_map_to pml4 v f fl m = Some m'"
  then obtain u m1 where "descend (fl \<inter> {PRESENT, WRITABLE, USER_ACCESSIBLE}) pml4 (upper_indices v) m = Some (u, m1)"
    and "frames m' = frames m1"
    unfolding ref_map_to_def by (auto split: option.splits if_splits)
  then show "\<exists>n ps. alloc_many allocate_frame n (frames m) = Some (ps, frames m')"
    using descend_frames by metis
next
  fix m :: mem and pml4 v :: u64 and e
  assume "leaf_entry (ptabs m) pml4 v = Some e"
  then show "\<exists>t. last_table (ptabs m) pml4 (upper_indices v) = Some t \<and>
      ref_unmap pml4 v m = Some (pte_addr e, m\<lparr>ptabs := set_entry t (p1_index v) unused_pte (ptabs m)\<rparr>)"
    unfolding leaf_entry_def ref_unmap_def by (auto split: option.splits if_splits)
next
  fix m :: mem and pml4 v :: u64
  assume "leaf_entry (ptabs m) pml4 v = None"
  then show "ref_unmap pml4 v m = None"
    unfolding leaf_entry_def ref_unmap_def by (auto split: option.splits if_splits)
qed

section \<open>Property\<close>

lemma flags_for_present [simp]: "PRESENT \<in> flags_for perm"
  by (cases perm) simp_all

lemma flags_for_wx: "\<not> (WRITABLE \<in> flags_for perm \<and> NO_EXECUTE \<notin> flags_for perm)"
  by (cases perm) simp_all

lemma map_user_page_Inr:
  assumes "map_user_page mp doms d v p perm m = Inr m'"
  obtains pml4 where "pml4_of doms d = Inr pml4" and "canonical v" and "drop_bit 52 p = 0"
    and "map_to mp pml4 (page_of v) (page_of p) (flags_for perm) m = Some m'"
  using assms
  by (auto simp: map_user_page_def bind_res_Inr_iff VirtAddr_new_def PhysAddr_new_def split: if_splits option.splits)


definition ref_mapper :: mapper where
  "ref_mapper = \<lparr>map_to = ref_map_to, unmap = ref_unmap\<rparr>"

lemma ref_mapper_ok: "page_mapper (map_to ref_mapper) (unmap ref_mapper)"
  unfolding ref_mapper_def mapper.simps by (rule crate.page_mapper_axioms)

definition w_mem :: mem where
  "w_mem = \<lparr>frames = w_frames [], ptabs = w_tables\<rparr>"

definition w_page :: u64 where
  "w_page = USER_SPACE_BASE + 0x1000"

lemma w_page_index: "p4_index w_page = 1" "p3_index w_page = 0" "p2_index w_page = 0" "p1_index w_page = 1"
  by (simp_all add: index_div w_page_def USER_SPACE_BASE_def)

lemma w_path: "path_ok w_mem 0x1000 w_page"
proof -
  have f: "free_set (w_frames []) = {}" "frames_inv (w_frames [])" using w_frames_free [of "[]"] by simp_all
  have "path (ptabs w_mem) 0x1000 w_page = [0x1000, 0x2000, 0x3000, 0x4000]"
    by (simp add: path_def w_page_index next_addr_def w_mem_def w_tables_def)
  then show ?thesis using f by (simp add: path_ok_def w_mem_def frame_is_free_def)
qed


end
