(* ===== verification/Key.thy ===== *)
theory Key
  imports Interfaces
begin

text \<open>
  The keyboard byte queue, \<open>kernel/src/key.rs\<close>: \<open>KeyQueue\<close>, a ring of 64 bytes with \<open>head\<close>,
  \<open>tail\<close> and \<open>count\<close>. It is shown to refine a plain list (\<open>kq_contents\<close>) that drops new bytes
  when full, by interpreting the queue contract \<open>bounded_fifo\<close>.
\<close>

section \<open>The ring\<close>

definition QUEUE_LEN :: nat where
  "QUEUE_LEN = 64"

record key_queue =
  kq_buf :: "u8 list"
  kq_head :: nat
  kq_tail :: nat
  kq_count :: nat

definition kq_new :: key_queue where
  "kq_new = \<lparr>kq_buf = replicate QUEUE_LEN 0, kq_head = 0, kq_tail = 0, kq_count = 0\<rparr>"

definition kq_push :: "u8 \<Rightarrow> key_queue \<Rightarrow> bool \<times> key_queue" where
  "kq_push c q =
     (if QUEUE_LEN \<le> kq_count q then (False, q)
      else (True, q\<lparr>kq_buf := (kq_buf q)[kq_tail q := c], kq_tail := (kq_tail q + 1) mod QUEUE_LEN,
                    kq_count := kq_count q + 1\<rparr>))"

definition kq_pop :: "key_queue \<Rightarrow> u8 option \<times> key_queue" where
  "kq_pop q =
     (if kq_count q = 0 then (None, q)
      else (Some (kq_buf q ! kq_head q),
            q\<lparr>kq_head := (kq_head q + 1) mod QUEUE_LEN, kq_count := kq_count q - 1\<rparr>))"

section \<open>Refinement of a list\<close>

definition kq_contents :: "key_queue \<Rightarrow> u8 list" where
  "kq_contents q = map (\<lambda>i. kq_buf q ! ((kq_head q + i) mod QUEUE_LEN)) [0..<kq_count q]"

definition kq_inv :: "key_queue \<Rightarrow> bool" where
  "kq_inv q \<longleftrightarrow> length (kq_buf q) = QUEUE_LEN \<and> kq_head q < QUEUE_LEN \<and> kq_count q \<le> QUEUE_LEN \<and>
     kq_tail q = (kq_head q + kq_count q) mod QUEUE_LEN"

lemma length_kq_contents [simp]: "length (kq_contents q) = kq_count q"
  by (simp add: kq_contents_def)

lemma kq_inv_new: "kq_inv kq_new" and kq_contents_new: "kq_contents kq_new = []"
  by (simp_all add: kq_inv_def kq_new_def kq_contents_def QUEUE_LEN_def)

lemma ring_slot_neq:
  assumes "i < n" and "n < QUEUE_LEN"
  shows "(h + i) mod QUEUE_LEN \<noteq> (h + n) mod QUEUE_LEN"
proof
  assume "(h + i) mod QUEUE_LEN = (h + n) mod QUEUE_LEN"
  then have "QUEUE_LEN dvd (h + n) - (h + i)" using assms(1) by (metis mod_eq_dvd_iff_nat add_le_cancel_left less_imp_le)
  then have "QUEUE_LEN dvd n - i" by simp
  then show False using assms by (metis dvd_imp_le less_imp_diff_less not_less zero_less_diff)
qed

lemma kq_push_room:
  assumes "kq_inv q" and "kq_count q < QUEUE_LEN"
  shows "fst (kq_push c q) \<and> kq_contents (snd (kq_push c q)) = kq_contents q @ [c]"
proof -
  let ?t = "(kq_head q + kq_count q) mod QUEUE_LEN"
  have t: "kq_tail q = ?t" "length (kq_buf q) = QUEUE_LEN" using assms(1) by (simp_all add: kq_inv_def)
  have lt: "?t < QUEUE_LEN" by (simp add: QUEUE_LEN_def)
  have "(kq_buf q)[?t := c] ! ((kq_head q + i) mod QUEUE_LEN) = kq_buf q ! ((kq_head q + i) mod QUEUE_LEN)"
    if "i < kq_count q" for i
    using ring_slot_neq [OF that assms(2), of "kq_head q"] by (metis nth_list_update_neq)
  moreover have "(kq_buf q)[?t := c] ! ?t = c" using t(2) lt by simp
  ultimately show ?thesis using assms(2) t(1) by (simp add: kq_push_def kq_contents_def)
qed

lemma kq_pop_cons:
  assumes "kq_inv q" and "kq_contents q = x # xs"
  shows "fst (kq_pop q) = Some x \<and> kq_contents (snd (kq_pop q)) = xs"
proof -
  have n: "0 < kq_count q" using arg_cong [OF assms(2), of length] by simp
  then have u: "[0..<kq_count q] = 0 # map Suc [0..<kq_count q - 1]"
    by (simp add: upt_conv_Cons map_Suc_upt)
  have h: "kq_head q mod QUEUE_LEN = kq_head q" using assms(1) by (simp add: kq_inv_def)
  have x: "x = kq_buf q ! kq_head q"
    and xs: "xs = map (\<lambda>i. kq_buf q ! ((kq_head q + Suc i) mod QUEUE_LEN)) [0..<kq_count q - 1]"
    using assms(2) unfolding kq_contents_def u by (auto simp: h)
  have "((kq_head q + 1) mod QUEUE_LEN + i) mod QUEUE_LEN = (kq_head q + Suc i) mod QUEUE_LEN" for i
    by (simp add: mod_add_left_eq)
  then show ?thesis using n x xs by (simp add: kq_pop_def kq_contents_def)
qed

interpretation keys: bounded_fifo kq_contents kq_push kq_pop QUEUE_LEN kq_inv
proof
  fix q and c :: u8
  assume i: "kq_inv q"
  show "kq_inv (snd (kq_push c q))"
    using i by (auto simp: kq_inv_def kq_push_def mod_simps)
  have "((kq_head q + 1) mod QUEUE_LEN + (kq_count q - 1)) mod QUEUE_LEN = (kq_head q + kq_count q) mod QUEUE_LEN"
    if "0 < kq_count q"
    unfolding mod_add_left_eq using that by simp
  then show "kq_inv (snd (kq_pop q))"
    using i by (auto simp: kq_inv_def kq_pop_def QUEUE_LEN_def)
  show "kq_push c q = (False, q)" if "QUEUE_LEN \<le> length (kq_contents q)"
    using that by (simp add: kq_push_def)
  show "kq_pop q = (None, q)" if "kq_contents q = []"
    using arg_cong [OF that, of length] by (simp add: kq_pop_def)
qed (use kq_push_room kq_pop_cons in simp_all)

section \<open>Property\<close>

text \<open>
  C15: typed bytes come out in order and the ring never mixes them up, wherever its head stands.
  From any state of the queue, pushing bytes keeps the queued ones, appends the new ones in order
  while there is room and drops the rest; draining then returns exactly that sequence.
\<close>

theorem key_queue_fifo:
  assumes "kq_inv q"
  shows "kq_contents (push_all kq_push cs q) = take QUEUE_LEN (kq_contents q @ cs) \<and>
    drain kq_pop (length (kq_contents (push_all kq_push cs q))) (push_all kq_push cs q) =
      map Some (take QUEUE_LEN (kq_contents q @ cs)) \<and>
    kq_inv (push_all kq_push cs q)"
proof -
  have "length (kq_contents q) \<le> QUEUE_LEN" using assms by (simp add: kq_inv_def)
  note c = keys.contents_push_all [OF assms this, of cs]
  have i: "kq_inv (push_all kq_push cs q)" by (rule keys.inv_push_all [OF assms])
  from keys.drain_contents [OF i] c i show ?thesis by simp
qed

theorem key_queue_fifo_witness:
  "drain kq_pop 2 (push_all kq_push [0x61, 0x62] (kq_new\<lparr>kq_head := 63, kq_tail := 63\<rparr>)) = [Some 0x61, Some 0x62]"
proof -
  have i: "kq_inv (kq_new\<lparr>kq_head := 63, kq_tail := 63\<rparr>)"
    by (simp add: kq_inv_def kq_new_def QUEUE_LEN_def)
  have e: "kq_contents (kq_new\<lparr>kq_head := 63, kq_tail := 63\<rparr>) = []"
    by (simp add: kq_contents_def kq_new_def)
  let ?q = "push_all kq_push [0x61, 0x62] (kq_new\<lparr>kq_head := 63, kq_tail := 63\<rparr>)"
  have t: "take QUEUE_LEN ([] @ [0x61, 0x62 :: u8]) = [0x61, 0x62]" by (simp add: QUEUE_LEN_def)
  from key_queue_fifo [OF i, of "[0x61, 0x62]"] have c: "kq_contents ?q = [0x61, 0x62]"
      and d: "drain kq_pop (length (kq_contents ?q)) ?q = map Some [0x61, 0x62]"
    unfolding e t by blast+
  have l: "length (kq_contents ?q) = 2" unfolding c by simp
  show ?thesis using d unfolding l by simp
qed

end
