(* ===== verification/Klog.thy ===== *)
theory Klog
  imports Paging
begin

text \<open>
  The kernel log, \<open>kernel/src/klog.rs\<close>: a ring of 64 KiB into which all console output is
  copied, read back by absolute offset. \<open>LOG_TOTAL\<close> is a \<open>u64\<close>; a run that has logged fewer
  than \<open>2 ^ 64\<close> bytes never wraps it, which the theorems assume.
  \<open>log_hist h s\<close> relates the ring to the list \<open>h\<close> of all bytes ever logged.
\<close>

section \<open>The ring\<close>

definition LOG_CAP :: nat where
  "LOG_CAP = 64 * 1024"

definition LOG_READ_MAX :: u64 where
  "LOG_READ_MAX = push_bit 20 1"

record log_state =
  log_buf :: "u8 list"
  log_head :: nat
  log_total :: u64

definition log_start :: log_state where
  "log_start = \<lparr>log_buf = replicate LOG_CAP 0, log_head = 0, log_total = 0\<rparr>"

definition capture_byte :: "u8 \<Rightarrow> log_state \<Rightarrow> log_state" where
  "capture_byte b s =
     s\<lparr>log_buf := (log_buf s)[log_head s := b], log_head := (log_head s + 1) mod LOG_CAP,
       log_total := log_total s + 1\<rparr>"

definition capture_bytes :: "u8 list \<Rightarrow> log_state \<Rightarrow> log_state" where
  "capture_bytes bytes s = fold capture_byte bytes s"

definition log_oldest :: "log_state \<Rightarrow> u64" where
  "log_oldest s = saturating_sub (log_total s) (of_nat LOG_CAP)"

text \<open>The copy loop: \<open>room\<close> is what is left of the destination, the result is what was written.\<close>

fun log_copy :: "log_state \<Rightarrow> nat \<Rightarrow> u64 \<Rightarrow> u8 list" where
  "log_copy st 0 s = []"
| "log_copy st (Suc room) s =
     (if s < log_total st then log_buf st ! unat (s mod of_nat LOG_CAP) # log_copy st room (s + 1) else [])"

definition log_read :: "u64 \<Rightarrow> nat \<Rightarrow> log_state \<Rightarrow> u8 list" where
  "log_read start dst_len st =
     (let oldest = saturating_sub (log_total st) (of_nat LOG_CAP);
          s = (if start < oldest then oldest else start)
      in if log_total st \<le> s then [] else log_copy st dst_len s)"

text \<open>
  \<open>handle_read\<close> returns the byte count and what it writes to user memory (base address, bytes).
\<close>

definition log_handle_read :: "u64 \<Rightarrow> u64 \<Rightarrow> u64 \<Rightarrow> log_state \<Rightarrow> u64 \<times> (u64 \<times> u8 list) option" where
  "log_handle_read a1 a2 a3 st =
     (if a1 = 0 \<or> a2 = 0 then (0, None)
      else (let len = (if LOG_READ_MAX < a2 then LOG_READ_MAX else a2)
            in if \<not> is_user_address a1 \<or> \<not> is_user_address (a1 + len - 1) then (0, None)
               else (let bs = log_read a3 (unat len) st in (of_nat (length bs), Some (a1, bs)))))"

section \<open>Refinement of the full history\<close>

definition log_hist :: "u8 list \<Rightarrow> log_state \<Rightarrow> bool" where
  "log_hist h s \<longleftrightarrow> length (log_buf s) = LOG_CAP \<and> log_head s = length h mod LOG_CAP \<and>
     log_total s = of_nat (length h) \<and>
     (\<forall>i < length h. length h \<le> i + LOG_CAP \<longrightarrow> log_buf s ! (i mod LOG_CAP) = h ! i)"

lemma log_hist_start: "log_hist [] log_start"
  by (simp add: log_hist_def log_start_def)

lemma log_cap_pos: "0 < LOG_CAP"
  by (simp add: LOG_CAP_def)

lemma log_hist_byte:
  assumes "log_hist h s"
  shows "log_hist (h @ [b]) (capture_byte b s)"
proof -
  have hd: "log_head s = length h mod LOG_CAP" and len: "length (log_buf s) = LOG_CAP"
    using assms by (simp_all add: log_hist_def)
  have "(log_buf s)[log_head s := b] ! (i mod LOG_CAP) = (h @ [b]) ! i"
    if i: "i < Suc (length h)" "Suc (length h) \<le> i + LOG_CAP" for i
  proof (cases "i = length h")
    case True
    then show ?thesis using hd len log_cap_pos by simp
  next
    case False
    with i have lt: "i < length h" by simp
    have "i mod LOG_CAP \<noteq> length h mod LOG_CAP"
    proof
      assume "i mod LOG_CAP = length h mod LOG_CAP"
      then have "LOG_CAP dvd length h - i" using lt by (metis mod_eq_dvd_iff_nat less_imp_le)
      then have "LOG_CAP \<le> length h - i" using lt by (intro dvd_imp_le) simp_all
      with i(2) lt show False by simp
    qed
    then have "(log_buf s)[log_head s := b] ! (i mod LOG_CAP) = log_buf s ! (i mod LOG_CAP)"
      using hd by (metis nth_list_update_neq)
    also have "\<dots> = h ! i" using assms lt i(2) by (simp add: log_hist_def)
    finally show ?thesis using lt by (simp add: nth_append)
  qed
  then show ?thesis using assms by (simp add: log_hist_def capture_byte_def mod_Suc_eq)
qed

lemma log_hist_capture: "log_hist h s \<Longrightarrow> log_hist (h @ bs) (capture_bytes bs s)"
proof (induction bs arbitrary: h s)
  case (Cons b bs)
  from Cons.IH [OF log_hist_byte [OF Cons.prems], of b] show ?case by (simp add: capture_bytes_def)
qed (simp add: capture_bytes_def)

lemma log_copy_hist:
  assumes "log_hist h st" and "length h < 2 ^ 64" and "length h \<le> unat s + LOG_CAP" and "unat s \<le> length h"
  shows "log_copy st room s = take room (drop (unat s) h)"
  using assms(3,4)
proof (induction room arbitrary: s)
  case (Suc room)
  have tot: "unat (log_total st) = length h"
    using assms(1,2) by (simp add: log_hist_def unat_of_nat_u64)
  show ?case
  proof (cases "unat s < length h")
    case True
    then have lt: "s < log_total st" using tot by (simp add: word_less_nat_alt)
    have cap: "unat (s mod of_nat LOG_CAP) = unat s mod LOG_CAP"
      by (simp add: unat_mod LOG_CAP_def)
    have "unat (s + 1) = Suc (unat s)" using True assms(2) by (simp add: unat_word_ariths)
    with Suc.IH [of "s + 1"] Suc.prems True
    have "log_copy st room (s + 1) = take room (drop (Suc (unat s)) h)" by simp
    moreover have "log_buf st ! (unat s mod LOG_CAP) = h ! unat s"
      using assms(1) Suc.prems True by (simp add: log_hist_def)
    ultimately show ?thesis using lt True by (simp add: cap Cons_nth_drop_Suc [symmetric])
  next
    case False
    then have "\<not> s < log_total st" using tot by (simp add: word_less_nat_alt)
    with False show ?thesis by simp
  qed
qed simp

lemma log_read_hist:
  assumes "log_hist h st" and "length h < 2 ^ 64"
  shows "log_read start len st = take len (drop (max (unat start) (length h - LOG_CAP)) h)"
proof -
  let ?o = "saturating_sub (log_total st) (of_nat LOG_CAP)"
  let ?s = "if start < ?o then ?o else start"
  have tot: "unat (log_total st) = length h"
    using assms by (simp add: log_hist_def unat_of_nat_u64)
  have "unat ?o = length h - LOG_CAP" by (simp add: saturating_sub_unat tot LOG_CAP_def)
  then have s: "unat ?s = max (unat start) (length h - LOG_CAP)" by (simp add: word_less_nat_alt)
  show ?thesis
  proof (cases "log_total st \<le> ?s")
    case True
    then have "length h \<le> unat ?s" using tot by (simp add: word_le_nat_alt)
    then have "drop (unat ?s) h = []" by simp
    with True show ?thesis unfolding s [symmetric] log_read_def Let_def by simp
  next
    case False
    then have le: "unat ?s \<le> length h" using tot by (simp add: word_le_nat_alt)
    have ge: "length h \<le> unat ?s + LOG_CAP" unfolding s by simp
    from False log_copy_hist [OF assms ge le, of len] show ?thesis
      unfolding s [symmetric] log_read_def Let_def by simp
  qed
qed

section \<open>Property\<close>

text \<open>
  C16: the log is the tail of everything printed. After any sequence of prints, reading from
  absolute offset \<open>start\<close> returns the bytes of the full history from \<open>start\<close> on, or from the
  oldest retained byte if \<open>start\<close> is older, up to the requested length; the retained window is
  the last 64 KiB. So a reader that starts at \<open>oldest\<close> and advances by the returned count sees
  every retained byte exactly once.
\<close>

theorem log_read_is_history_tail:
  assumes "length (concat chunks) < 2 ^ 64" and "st = fold capture_bytes chunks log_start"
  shows "log_read start len st =
      take len (drop (max (unat start) (length (concat chunks) - LOG_CAP)) (concat chunks)) \<and>
    unat (log_oldest st) = length (concat chunks) - LOG_CAP \<and>
    unat (log_total st) = length (concat chunks) \<and>
    (n \<le> length (concat chunks) - unat (log_oldest st) \<longrightarrow>
       log_read (log_oldest st) n st @ log_read (log_oldest st + of_nat n) m st =
       take (n + m) (drop (length (concat chunks) - LOG_CAP) (concat chunks)))"
proof -
  let ?h = "concat chunks"
  have "log_hist (h @ concat chunks) (fold capture_bytes chunks s)" if "log_hist h s" for h s
    using that
  proof (induction chunks arbitrary: h s)
    case (Cons c cs)
    from Cons.IH [OF log_hist_capture [OF Cons.prems, of c]] show ?case by simp
  qed simp
  from this [OF log_hist_start] assms(2) have H: "log_hist ?h st" by simp
  note R = log_read_hist [OF H assms(1)]
  have tot: "unat (log_total st) = length ?h"
    using H assms(1) by (simp add: log_hist_def unat_of_nat_u64)
  have old: "unat (log_oldest st) = length ?h - LOG_CAP"
    by (simp add: log_oldest_def saturating_sub_unat tot LOG_CAP_def)
  have "log_read (log_oldest st) n st @ log_read (log_oldest st + of_nat n) m st =
      take (n + m) (drop (length ?h - LOG_CAP) ?h)" if n: "n \<le> length ?h - unat (log_oldest st)"
  proof -
    have "unat (log_oldest st) + n < 2 ^ 64" using n old assms(1) by simp
    then have u: "unat (log_oldest st + of_nat n) = n + (length ?h - LOG_CAP)"
      using old by (simp add: unat_word_ariths unat_of_nat)
    show ?thesis unfolding R old u by (simp add: take_add)
  qed
  with R old tot show ?thesis by simp
qed

theorem log_read_is_history_tail_witness:
  "log_read 1 5 (fold capture_bytes [[0x61], [0x62, 0x63]] log_start) = [0x62, 0x63]"
  using log_read_is_history_tail [of "[[0x61], [0x62, 0x63]]", OF _ refl, of 1 5 0 0]
  by (simp add: LOG_CAP_def)

end
