(* ===== verification/Bytes.thy ===== *)
theory Bytes
  imports Prelude
begin

text \<open>
  Byte strings and physical memory. Integers are stored little-endian (\<open>from_le_bytes\<close>,
  \<open>#[repr(C)]\<close> structs of \<open>u64\<close> fields). The contents of data frames, which the kernel writes through
  the identity mapping with \<open>write_bytes\<close> and \<open>copy_nonoverlapping\<close>, are a function from physical
  addresses to bytes.
\<close>

section \<open>Little-endian integers\<close>

fun le_nat :: "u8 list \<Rightarrow> nat" where
  "le_nat [] = 0"
| "le_nat (b # bs) = unat b + 256 * le_nat bs"

definition get_slice :: "u8 list \<Rightarrow> nat \<Rightarrow> nat \<Rightarrow> u8 list option" where
  "get_slice bytes off n = (if off + n \<le> length bytes then Some (take n (drop off bytes)) else None)"

fun le_bytes :: "nat \<Rightarrow> nat \<Rightarrow> u8 list" where
  "le_bytes 0 n = []"
| "le_bytes (Suc k) n = of_nat n # le_bytes k (n div 256)"

lemma length_le_bytes [simp]: "length (le_bytes k n) = k"
  by (induction k arbitrary: n) simp_all

lemma le_nat_bytes: "le_nat (le_bytes k n) = n mod 256 ^ k"
proof (induction k arbitrary: n)
  case (Suc k)
  have "unat (of_nat n :: u8) = n mod 256" by (simp add: unat_of_nat)
  then have "le_nat (le_bytes (Suc k) n) = n mod 256 + 256 * (n div 256 mod 256 ^ k)" using Suc.IH by simp
  also have "\<dots> = n mod (256 * 256 ^ k)" by (simp add: mod_mult2_eq)
  finally show ?case by simp
qed simp

lemma slice_middle: "get_slice (a @ x @ b) (length a) (length x) = Some x"
  by (simp add: get_slice_def)

lemma field_at:
  assumes "bytes = a @ le_bytes k n @ b" and "length a = off"
  shows "get_slice bytes off k = Some (le_bytes k n)"
  using slice_middle [of a "le_bytes k n" b] assms by simp

definition u64_bytes :: "u64 \<Rightarrow> u8 list" where
  "u64_bytes w = le_bytes 8 (unat w)"

definition bytes_u64 :: "u8 list \<Rightarrow> u64" where
  "bytes_u64 bs = of_nat (le_nat bs)"

lemma length_u64_bytes [simp]: "length (u64_bytes w) = 8"
  by (simp add: u64_bytes_def)

lemma bytes_u64_bytes [simp]: "bytes_u64 (u64_bytes w) = w"
proof -
  have "unat w < 256 ^ 8" using unsigned_less [of w] by simp
  then show ?thesis by (simp add: bytes_u64_def u64_bytes_def le_nat_bytes)
qed

section \<open>Physical memory\<close>

type_synonym phys = "u64 \<Rightarrow> u8"

definition write_bytes :: "u64 \<Rightarrow> u8 list \<Rightarrow> phys \<Rightarrow> phys" where
  "write_bytes p bs ph = (\<lambda>a. if unat (a - p) < length bs then bs ! unat (a - p) else ph a)"

definition read_bytes :: "phys \<Rightarrow> u64 \<Rightarrow> nat \<Rightarrow> u8 list" where
  "read_bytes ph p n = map (\<lambda>i. ph (p + of_nat i)) [0..<n]"

definition zero_frame :: "u64 \<Rightarrow> phys \<Rightarrow> phys" where
  "zero_frame p = write_bytes p (replicate 4096 0)"

lemma length_read_bytes [simp]: "length (read_bytes ph p n) = n"
  by (simp add: read_bytes_def)

lemma read_bytes_nth: "i < n \<Longrightarrow> read_bytes ph p n ! i = ph (p + of_nat i)"
  by (simp add: read_bytes_def)

lemma write_bytes_in:
  "i < length bs \<Longrightarrow> length bs \<le> 2 ^ 64 \<Longrightarrow> write_bytes p bs ph (p + of_nat i) = bs ! i"
  by (simp add: write_bytes_def unat_of_nat_u64)

lemma write_bytes_out: "length bs \<le> unat (a - p) \<Longrightarrow> write_bytes p bs ph a = ph a"
  by (simp add: write_bytes_def)

lemma zero_frame_in: "unat (a - p) < 4096 \<Longrightarrow> zero_frame p ph a = 0"
  by (simp add: zero_frame_def write_bytes_def)

lemma zero_frame_out: "4096 \<le> unat (a - p) \<Longrightarrow> zero_frame p ph a = ph a"
  by (simp add: zero_frame_def write_bytes_def)

lemma read_write_bytes: "length bs \<le> 2 ^ 64 \<Longrightarrow> read_bytes (write_bytes p bs ph) p (length bs) = bs"
  by (rule nth_equalityI) (simp_all add: read_bytes_nth write_bytes_in)

end
