(* ===== verification/Elf.thy ===== *)
theory Elf
  imports Paging Bytes
begin

text \<open>
  The executable loader's trust boundary, \<open>kernel/src/elf.rs\<close>: \<open>parse\<close> decides which byte strings
  handed in by user programs are loadable images. Bytes are a list; \<open>Image.segments\<close> with its
  \<open>count\<close> is the list of the segments filled in so far. Shown: every image that is accepted is safe
  to map (everything in user space, file contents inside the image, no writable and executable
  segment, entry inside a segment), parsing always returns, and an image that is laid out by the
  book is accepted.
\<close>

section \<open>Reading little-endian fields\<close>

definition MAX_SEGMENTS :: nat where
  "MAX_SEGMENTS = 32"

definition PHENT_SIZE :: u64 where
  "PHENT_SIZE = 56"

definition PF_X :: u32 where
  "PF_X = 1"

definition PF_W :: u32 where
  "PF_W = 2"

record Segment =
  seg_offset :: u64
  seg_vaddr :: u64
  seg_filesz :: u64
  seg_memsz :: u64
  seg_flags :: u32

record Image =
  img_entry :: u64
  img_segments :: "Segment list"

definition u16le :: "u8 list \<Rightarrow> nat \<Rightarrow> u16 option" where
  "u16le bytes off = map_option (\<lambda>s. of_nat (le_nat s)) (get_slice bytes off 2)"

definition u32le :: "u8 list \<Rightarrow> nat \<Rightarrow> u32 option" where
  "u32le bytes off = map_option (\<lambda>s. of_nat (le_nat s)) (get_slice bytes off 4)"

definition u64le :: "u8 list \<Rightarrow> nat \<Rightarrow> u64 option" where
  "u64le bytes off = map_option (\<lambda>s. of_nat (le_nat s)) (get_slice bytes off 8)"

definition in_user_space :: "u64 \<Rightarrow> bool" where
  "in_user_space vaddr \<longleftrightarrow> is_user_address vaddr \<and> USER_SPACE_BASE \<le> vaddr"

section \<open>Program headers\<close>

text \<open>
  One program header: \<open>None\<close> rejects the image, \<open>Some None\<close> skips the header, \<open>Some (Some s)\<close> adds
  a segment.
\<close>

definition check_segment :: "nat \<Rightarrow> u32 \<Rightarrow> u64 \<Rightarrow> u64 \<Rightarrow> u64 \<Rightarrow> u64 \<Rightarrow> Segment option option" where
  "check_segment len p_flags p_offset p_vaddr p_filesz p_memsz =
     (if p_flags AND PF_W \<noteq> 0 \<and> p_flags AND PF_X \<noteq> 0 then None
      else (case checked_add p_offset p_filesz of
              None \<Rightarrow> None
            | Some file_end \<Rightarrow>
                if of_nat len < file_end then None
                else if p_memsz < p_filesz then None
                else if p_memsz = 0 then Some None
                else if \<not> in_user_space p_vaddr then None
                else (case checked_add p_vaddr p_memsz of
                        None \<Rightarrow> None
                      | Some mem_end \<Rightarrow>
                          if USER_SPACE_END < mem_end then None
                          else Some (Some \<lparr>seg_offset = p_offset, seg_vaddr = p_vaddr, seg_filesz = p_filesz,
                                           seg_memsz = p_memsz, seg_flags = p_flags\<rparr>))))"

definition parse_header :: "u8 list \<Rightarrow> nat \<Rightarrow> Segment option option" where
  "parse_header bytes ph =
     Option.bind (u32le bytes ph) (\<lambda>p_type.
       if p_type \<noteq> 1 then Some None
       else Option.bind (u32le bytes (ph + 4)) (\<lambda>p_flags.
            Option.bind (u64le bytes (ph + 8)) (\<lambda>p_offset.
            Option.bind (u64le bytes (ph + 16)) (\<lambda>p_vaddr.
            Option.bind (u64le bytes (ph + 32)) (\<lambda>p_filesz.
            Option.bind (u64le bytes (ph + 40)) (\<lambda>p_memsz.
              check_segment (length bytes) p_flags p_offset p_vaddr p_filesz p_memsz))))))"

fun parse_headers :: "u8 list \<Rightarrow> u64 \<Rightarrow> nat list \<Rightarrow> Segment list option" where
  "parse_headers bytes phoff [] = Some []"
| "parse_headers bytes phoff (i # is) =
     (case parse_header bytes (unat (phoff + of_nat i * PHENT_SIZE)) of
        None \<Rightarrow> None
      | Some None \<Rightarrow> parse_headers bytes phoff is
      | Some (Some seg) \<Rightarrow> map_option ((#) seg) (parse_headers bytes phoff is))"

section \<open>The image\<close>

definition parse :: "u8 list \<Rightarrow> Image option" where
  "parse bytes =
     (if length bytes < 64 then None
      else if take 4 bytes \<noteq> [0x7F, 0x45, 0x4C, 0x46] then None
      else if bytes ! 4 \<noteq> 2 then None
      else if bytes ! 5 \<noteq> 1 then None
      else if bytes ! 6 \<noteq> 1 then None
      else if u16le bytes 16 \<noteq> Some 2 then None
      else if u16le bytes 18 \<noteq> Some 62 then None
      else
        Option.bind (u64le bytes 24) (\<lambda>entry.
        Option.bind (u64le bytes 32) (\<lambda>phoff.
        Option.bind (u16le bytes 54) (\<lambda>phentsize16.
        Option.bind (u16le bytes 56) (\<lambda>phnum16.
          (let phentsize = (ucast phentsize16 :: u64); phnum = unat phnum16
           in if phentsize \<noteq> PHENT_SIZE then None
              else if phnum = 0 \<or> MAX_SEGMENTS < phnum then None
              else
                Option.bind (checked_mul phentsize (of_nat phnum)) (\<lambda>tab.
                Option.bind (checked_add phoff tab) (\<lambda>ph_end.
                  if of_nat (length bytes) < ph_end then None
                  else if \<not> in_user_space entry then None
                  else
                    Option.bind (parse_headers bytes phoff [0..<phnum]) (\<lambda>segs.
                      if segs = [] then None
                      else if \<not> list_ex (\<lambda>s. seg_vaddr s \<le> entry \<and> entry < seg_vaddr s + seg_memsz s) segs then None
                      else Some \<lparr>img_entry = entry, img_segments = segs\<rparr>)))))))))"

section \<open>Accepted images are safe\<close>

definition seg_ok :: "nat \<Rightarrow> Segment \<Rightarrow> bool" where
  "seg_ok len s \<longleftrightarrow>
     unat (seg_offset s) + unat (seg_filesz s) \<le> len \<and> seg_filesz s \<le> seg_memsz s \<and> 0 < unat (seg_memsz s) \<and>
     unat USER_SPACE_BASE \<le> unat (seg_vaddr s) \<and> unat (seg_vaddr s) + unat (seg_memsz s) \<le> unat USER_SPACE_END \<and>
     \<not> (seg_flags s AND PF_W \<noteq> 0 \<and> seg_flags s AND PF_X \<noteq> 0)"

lemma check_segment_ok:
  assumes "check_segment len fl off va fsz msz = Some (Some s)" and "len < 2 ^ 64"
  shows "seg_ok len s"
proof -
  from assms(1) obtain file_end mem_end where
      s: "s = \<lparr>seg_offset = off, seg_vaddr = va, seg_filesz = fsz, seg_memsz = msz, seg_flags = fl\<rparr>"
      and wx: "\<not> (fl AND PF_W \<noteq> 0 \<and> fl AND PF_X \<noteq> 0)"
      and fe: "checked_add off fsz = Some file_end" "\<not> of_nat len < file_end"
      and sz: "\<not> msz < fsz" "msz \<noteq> 0" and us: "in_user_space va"
      and me: "checked_add va msz = Some mem_end" "\<not> USER_SPACE_END < mem_end"
    by (auto simp: check_segment_def split: if_splits option.splits)
  have "unat off + unat fsz \<le> len"
    using checked_add_Some_unat [OF fe(1)] fe(2) assms(2)
    by (simp add: word_less_nat_alt unat_of_nat_u64)
  moreover have "unat va + unat msz \<le> unat USER_SPACE_END"
    using checked_add_Some_unat [OF me(1)] me(2) by (simp add: word_less_nat_alt)
  moreover have "0 < unat msz" using sz(2) by (simp add: unat_gt_0)
  ultimately show ?thesis using s wx sz us
    by (simp add: seg_ok_def in_user_space_def word_le_nat_alt word_less_nat_alt)
qed

lemma parse_header_ok:
  assumes "parse_header bytes ph = Some (Some s)" and "length bytes < 2 ^ 64"
  shows "seg_ok (length bytes) s"
proof -
  from assms(1) obtain fl off va fsz msz where "check_segment (length bytes) fl off va fsz msz = Some (Some s)"
    by (auto simp: parse_header_def bind_eq_Some_conv split: if_splits)
  then show ?thesis using assms(2) by (rule check_segment_ok)
qed

lemma parse_headers_ok:
  assumes "parse_headers bytes phoff is = Some segs" and "length bytes < 2 ^ 64"
  shows "length segs \<le> length is \<and> (\<forall>s \<in> set segs. seg_ok (length bytes) s)"
  using assms(1)
proof (induction "is" arbitrary: segs)
  case (Cons i "is")
  then show ?case
    using parse_header_ok [OF _ assms(2)] by (fastforce split: option.splits)
qed simp

lemma parse_SomeD:
  assumes "parse bytes = Some img"
  shows "\<exists>phoff phnum. parse_headers bytes phoff [0..<phnum] = Some (img_segments img) \<and> phnum \<le> MAX_SEGMENTS \<and>
    img_segments img \<noteq> [] \<and> in_user_space (img_entry img) \<and>
    list_ex (\<lambda>s. seg_vaddr s \<le> img_entry img \<and> img_entry img < seg_vaddr s + seg_memsz s) (img_segments img)"
  using assms unfolding parse_def Let_def
  by (auto simp: bind_eq_Some_conv not_less simp del: list_ex_iff split: if_splits) blast

lemma user_range_p4:
  assumes "unat USER_SPACE_BASE \<le> unat v" and "unat v < unat USER_SPACE_END"
  shows "is_user_address v" and "canonical v"
proof -
  have b: "2 ^ 39 \<le> unat v" "unat v < 2 ^ 40"
    using assms by (simp_all add: USER_SPACE_BASE_def USER_SPACE_END_def)
  then have "unat v div 2 ^ 39 = 1" by (simp add: div_nat_eqI)
  then show "is_user_address v" by (simp add: is_user_p4 index_div)
  have "drop_bit 47 v = 0"
  proof -
    have "unat (drop_bit 47 v) = unat (0 :: u64)" using b(2) by (simp add: drop_bit_eq_div unat_div)
    then show ?thesis by (simp only: unat_inj_iff)
  qed
  then show "canonical v" by (simp add: canonical_def)
qed

section \<open>Images laid out by the book are accepted\<close>

text \<open>The file format: a 64-byte header, the program header table right behind it, then contents.\<close>

definition elf_header :: "u64 \<Rightarrow> nat \<Rightarrow> u8 list" where
  "elf_header entry phnum =
     [0x7F, 0x45, 0x4C, 0x46, 2, 1, 1] @ replicate 9 0 @ le_bytes 2 2 @ le_bytes 2 62 @ le_bytes 4 1 @
     le_bytes 8 (unat entry) @ le_bytes 8 64 @ replicate 14 0 @ le_bytes 2 56 @ le_bytes 2 phnum @ replicate 6 0"

definition elf_phdr :: "Segment \<Rightarrow> u8 list" where
  "elf_phdr s =
     le_bytes 4 1 @ le_bytes 4 (unat (seg_flags s)) @ le_bytes 8 (unat (seg_offset s)) @ le_bytes 8 (unat (seg_vaddr s)) @
     replicate 8 0 @ le_bytes 8 (unat (seg_filesz s)) @ le_bytes 8 (unat (seg_memsz s)) @ replicate 8 0"

definition elf_file :: "u64 \<Rightarrow> Segment list \<Rightarrow> u8 list \<Rightarrow> u8 list" where
  "elf_file entry segs contents = elf_header entry (length segs) @ concat (map elf_phdr segs) @ contents"

lemma length_elf_header [simp]: "length (elf_header entry n) = 64"
  by (simp add: elf_header_def)

lemma length_elf_phdr [simp]: "length (elf_phdr s) = 56"
  by (simp add: elf_phdr_def)

lemma length_phdrs [simp]: "length (concat (map elf_phdr segs)) = 56 * length segs"
  by (induction segs) simp_all

lemma word_of_le: "(of_nat (unat (w :: 'a::len word) mod 2 ^ LENGTH('a)) :: 'a word) = w"
  by (metis mod_less of_nat_unat ucast_id unsigned_less)

lemma read_u64:
  assumes "bytes = a @ le_bytes 8 (unat w) @ b" and "length a = off"
  shows "u64le bytes off = Some w"
  using field_at [OF assms] word_of_le [of w] by (simp add: u64le_def le_nat_bytes)

lemma read_u32:
  assumes "bytes = a @ le_bytes 4 (unat w) @ b" and "length a = off"
  shows "u32le bytes off = Some w"
  using field_at [OF assms] word_of_le [of w] by (simp add: u32le_def le_nat_bytes)

lemma read_u16:
  assumes "bytes = a @ le_bytes 2 n @ b" and "length a = off" and "n < 65536"
  shows "u16le bytes off = Some (of_nat n)"
  using field_at [OF assms(1,2)] assms(3) by (simp add: u16le_def le_nat_bytes)

lemma elf_file_phdr:
  assumes "i < length segs"
  shows "\<exists>a b. elf_file entry segs contents = a @ elf_phdr (segs ! i) @ b \<and> length a = 64 + 56 * i"
proof -
  have "segs = take i segs @ segs ! i # drop (Suc i) segs" using assms by (rule id_take_nth_drop)
  then have "concat (map elf_phdr segs) =
      concat (map elf_phdr (take i segs)) @ elf_phdr (segs ! i) @ concat (map elf_phdr (drop (Suc i) segs))"
    by (metis concat.simps(2) concat_append list.simps(9) map_append)
  then have "elf_file entry segs contents = (elf_header entry (length segs) @ concat (map elf_phdr (take i segs))) @
      elf_phdr (segs ! i) @ (concat (map elf_phdr (drop (Suc i) segs)) @ contents)"
    by (simp add: elf_file_def)
  moreover have "length (elf_header entry (length segs) @ concat (map elf_phdr (take i segs))) = 64 + 56 * i"
    using assms by simp
  ultimately show ?thesis by blast
qed

lemma parse_phdr:
  assumes "bytes = a @ elf_phdr s @ b" and "length a = off" and "seg_ok (length bytes) s" and "length bytes < 2 ^ 63"
  shows "parse_header bytes off = Some (Some s)"
proof -
  let ?f = "\<lambda>k n. le_bytes k n"
  have t: "u32le bytes off = Some 1"
    by (rule read_u32 [of _ a]) (simp_all add: assms(1,2) elf_phdr_def)
  have fl: "u32le bytes (off + 4) = Some (seg_flags s)"
    by (rule read_u32 [of _ "a @ ?f 4 1"]) (simp_all add: assms(1,2) elf_phdr_def)
  have o: "u64le bytes (off + 8) = Some (seg_offset s)"
    by (rule read_u64 [of _ "a @ ?f 4 1 @ ?f 4 (unat (seg_flags s))"]) (simp_all add: assms(1,2) elf_phdr_def)
  have v: "u64le bytes (off + 16) = Some (seg_vaddr s)"
    by (rule read_u64 [of _ "a @ ?f 4 1 @ ?f 4 (unat (seg_flags s)) @ ?f 8 (unat (seg_offset s))"])
      (simp_all add: assms(1,2) elf_phdr_def)
  have fs: "u64le bytes (off + 32) = Some (seg_filesz s)"
    by (rule read_u64 [of _ "a @ ?f 4 1 @ ?f 4 (unat (seg_flags s)) @ ?f 8 (unat (seg_offset s)) @
          ?f 8 (unat (seg_vaddr s)) @ replicate 8 0"]) (simp_all add: assms(1,2) elf_phdr_def)
  have ms: "u64le bytes (off + 40) = Some (seg_memsz s)"
    by (rule read_u64 [of _ "a @ ?f 4 1 @ ?f 4 (unat (seg_flags s)) @ ?f 8 (unat (seg_offset s)) @
          ?f 8 (unat (seg_vaddr s)) @ replicate 8 0 @ ?f 8 (unat (seg_filesz s))"]) (simp_all add: assms(1,2) elf_phdr_def)
  note ok = assms(3) [unfolded seg_ok_def]
  have fe: "checked_add (seg_offset s) (seg_filesz s) = Some (seg_offset s + seg_filesz s)"
    using ok assms(4) by (simp add: checked_add_def)
  have feu: "\<not> of_nat (length bytes) < seg_offset s + seg_filesz s"
    using ok assms(4) checked_add_Some_unat [OF fe] by (simp add: word_less_nat_alt unat_of_nat_u64)
  have end64: "unat USER_SPACE_END < 2 ^ 64" by (simp add: USER_SPACE_END_def USER_SPACE_BASE_def)
  have me: "checked_add (seg_vaddr s) (seg_memsz s) = Some (seg_vaddr s + seg_memsz s)"
    using ok end64 by (simp add: checked_add_def)
  have meu: "\<not> USER_SPACE_END < seg_vaddr s + seg_memsz s"
    using ok checked_add_Some_unat [OF me] by (simp add: word_less_nat_alt)
  have us: "in_user_space (seg_vaddr s)"
    using ok user_range_p4(1) [of "seg_vaddr s"] by (simp add: in_user_space_def word_le_nat_alt)
  have nz: "seg_memsz s \<noteq> 0" using ok by auto
  have "check_segment (length bytes) (seg_flags s) (seg_offset s) (seg_vaddr s) (seg_filesz s) (seg_memsz s) = Some (Some s)"
    unfolding check_segment_def fe me option.case using ok feu meu us nz by auto
  then show ?thesis unfolding parse_header_def t fl o v fs ms by simp
qed

lemma parse_headers_file:
  assumes "length (elf_file entry segs contents) < 2 ^ 63" and "length segs \<le> 32"
    and "\<forall>s \<in> set segs. seg_ok (length (elf_file entry segs contents)) s" and "i \<le> length segs"
  shows "parse_headers (elf_file entry segs contents) 64 [i..<length segs] = Some (drop i segs)"
  using assms(4)
proof (induction "length segs - i" arbitrary: i)
  case 0
  then show ?case by simp
next
  case (Suc n)
  then have i: "i < length segs" by simp
  let ?b = "elf_file entry segs contents"
  have u: "unat (64 + of_nat i * PHENT_SIZE) = 64 + 56 * i"
    using i assms(2) by (simp add: PHENT_SIZE_def unat_word_ariths unat_of_nat)
  obtain a b where ab: "?b = a @ elf_phdr (segs ! i) @ b" "length a = 64 + 56 * i"
    using elf_file_phdr [OF i] by blast
  have ph: "parse_header ?b (64 + 56 * i) = Some (Some (segs ! i))"
    by (rule parse_phdr [OF ab]) (use assms(1,3) i in simp_all)
  have "parse_headers ?b 64 [Suc i..<length segs] = Some (drop (Suc i) segs)" using Suc i by simp
  then show ?case using i ph u by (simp add: upt_conv_Cons Cons_nth_drop_Suc)
qed

lemma parse_elf_file:
  assumes "length (elf_file entry segs contents) < 2 ^ 63" and "1 \<le> length segs" and "length segs \<le> MAX_SEGMENTS"
    and "\<forall>s \<in> set segs. seg_ok (length (elf_file entry segs contents)) s"
    and "\<exists>s \<in> set segs. seg_vaddr s \<le> entry \<and> entry < seg_vaddr s + seg_memsz s"
  shows "parse (elf_file entry segs contents) = Some \<lparr>img_entry = entry, img_segments = segs\<rparr>"
proof -
  let ?b = "elf_file entry segs contents" and ?n = "length segs"
  let ?rest = "concat (map elf_phdr segs) @ contents"
  let ?p = "[0x7F, 0x45, 0x4C, 0x46, 2, 1, 1] @ replicate 9 0"
  have b: "?b = elf_header entry ?n @ ?rest" by (simp add: elf_file_def)
  have n32: "?n \<le> 32" using assms(3) by (simp add: MAX_SEGMENTS_def)
  have ty: "u16le ?b 16 = Some 2"
    using read_u16 [of ?b ?p 2 _ 16] by (simp add: b elf_header_def)
  have mc: "u16le ?b 18 = Some 62"
    using read_u16 [of ?b "?p @ le_bytes 2 2" 62 _ 18] by (simp add: b elf_header_def)
  have en: "u64le ?b 24 = Some entry"
    by (rule read_u64 [of _ "?p @ le_bytes 2 2 @ le_bytes 2 62 @ le_bytes 4 1"]) (simp_all add: b elf_header_def)
  have po: "u64le ?b 32 = Some 64"
    by (rule read_u64 [of _ "?p @ le_bytes 2 2 @ le_bytes 2 62 @ le_bytes 4 1 @ le_bytes 8 (unat entry)"])
      (simp_all add: b elf_header_def)
  have pe: "u16le ?b 54 = Some 56"
    using read_u16 [of ?b "?p @ le_bytes 2 2 @ le_bytes 2 62 @ le_bytes 4 1 @ le_bytes 8 (unat entry) @ le_bytes 8 64 @
      replicate 14 0" 56 _ 54] by (simp add: b elf_header_def)
  have pn: "u16le ?b 56 = Some (of_nat ?n)"
    using read_u16 [of ?b "?p @ le_bytes 2 2 @ le_bytes 2 62 @ le_bytes 4 1 @ le_bytes 8 (unat entry) @ le_bytes 8 64 @
      replicate 14 0 @ le_bytes 2 56" ?n _ 56] n32 by (simp add: b elf_header_def)
  have un: "unat (of_nat ?n :: u16) = ?n" using n32 by (simp add: unat_of_nat)
  have len: "64 + 56 * ?n \<le> length ?b" by (simp add: b)
  have mul: "checked_mul PHENT_SIZE (of_nat ?n) = Some (of_nat (56 * ?n))"
    using n32 by (simp add: checked_mul_def PHENT_SIZE_def unat_of_nat)
  have u56: "unat (of_nat (56 * ?n) :: u64) = 56 * ?n" using n32 by (intro unat_of_nat_u64) simp
  have add: "checked_add 64 (of_nat (56 * ?n) :: u64) = Some (64 + of_nat (56 * ?n))"
    unfolding checked_add_def u56 using n32 by simp
  have end_ok: "\<not> of_nat (length ?b) < (64 + of_nat (56 * ?n) :: u64)"
    using checked_add_Some_unat [OF add] len assms(1) n32
    by (simp add: word_less_nat_alt unat_of_nat_u64 del: of_nat_mult)
  obtain s where s: "s \<in> set segs" "seg_vaddr s \<le> entry" "entry < seg_vaddr s + seg_memsz s" using assms(5) by blast
  have sok: "seg_ok (length ?b) s" using assms(4) s(1) by blast
  have ends: "unat USER_SPACE_END < 2 ^ 64" by (simp add: USER_SPACE_END_def USER_SPACE_BASE_def)
  have "unat (seg_vaddr s + seg_memsz s) = unat (seg_vaddr s) + unat (seg_memsz s)"
    using sok ends by (simp add: seg_ok_def unat_word_ariths)
  then have us: "in_user_space entry"
    using sok s(2,3) user_range_p4(1) [of entry] by (simp add: in_user_space_def seg_ok_def word_le_nat_alt word_less_nat_alt)
  have ph: "parse_headers ?b 64 [0..<?n] = Some segs" using parse_headers_file [OF assms(1) n32 assms(4), of 0] by simp
  obtain r where r: "?b = [0x7F, 0x45, 0x4C, 0x46, 2, 1, 1] @ r" by (simp add: b elf_header_def)
  have magic: "take 4 ?b = [0x7F, 0x45, 0x4C, 0x46]" "?b ! 4 = 2" "?b ! 5 = 1" "?b ! 6 = 1" unfolding r by simp_all
  have l64: "64 \<le> length ?b" using len by simp
  have ne: "segs \<noteq> []" using assms(2) by auto
  have ex: "list_ex (\<lambda>s. seg_vaddr s \<le> entry \<and> entry < seg_vaddr s + seg_memsz s) segs"
    using s by (auto simp: list_ex_iff)
  have e56: "(ucast (56 :: u16) :: u64) = PHENT_SIZE" by (simp add: PHENT_SIZE_def)
  have g1: "\<not> length ?b < 64" and g2: "\<not> (?n = 0 \<or> MAX_SEGMENTS < ?n)" using l64 assms(2,3) by auto
  show ?thesis
    unfolding parse_def ty mc en po pe pn bind.bind_lunit Let_def un e56 mul add ph
    using magic(1-4) g1 g2 end_ok us ne ex by simp
qed

definition w_seg :: Segment where
  "w_seg = \<lparr>seg_offset = 0, seg_vaddr = USER_SPACE_BASE, seg_filesz = 0x10, seg_memsz = 0x2000, seg_flags = 5\<rparr>"

definition w_elf :: "u8 list" where
  "w_elf = elf_file (USER_SPACE_BASE + 0x1000) [w_seg] (replicate 16 0)"

lemma w_elf_length: "length w_elf = 136"
  by (simp add: w_elf_def elf_file_def)

lemma w_seg_ok: "seg_ok 136 w_seg"
  by (simp add: seg_ok_def w_seg_def USER_SPACE_BASE_def USER_SPACE_END_def PF_W_def PF_X_def)

lemma w_elf_hyps:
  defines "segs \<equiv> [w_seg]" and "entry \<equiv> USER_SPACE_BASE + 0x1000"
  shows "length (elf_file entry segs (replicate 16 0)) < 2 ^ 63" and "1 \<le> length segs" and "length segs \<le> MAX_SEGMENTS"
    and "\<forall>s \<in> set segs. seg_ok (length (elf_file entry segs (replicate 16 0))) s"
    and "\<exists>s \<in> set segs. seg_vaddr s \<le> entry \<and> entry < seg_vaddr s + seg_memsz s"
proof -
  have l: "length (elf_file entry segs (replicate 16 0)) = 136"
    by (simp add: elf_file_def segs_def)
  show "length (elf_file entry segs (replicate 16 0)) < 2 ^ 63" unfolding l by simp
  show "1 \<le> length segs" "length segs \<le> MAX_SEGMENTS" by (simp_all add: segs_def MAX_SEGMENTS_def)
  show "\<forall>s \<in> set segs. seg_ok (length (elf_file entry segs (replicate 16 0))) s"
    unfolding l by (simp add: segs_def w_seg_ok)
  show "\<exists>s \<in> set segs. seg_vaddr s \<le> entry \<and> entry < seg_vaddr s + seg_memsz s"
    by (simp add: segs_def entry_def w_seg_def USER_SPACE_BASE_def)
qed

section \<open>Properties\<close>

text \<open>
  C17: an accepted image is safe to load, whatever bytes a user program supplied. It has between 1
  and 32 segments; every segment's file part lies inside the image and is no longer than its
  memory part; every address of every segment is a canonical user-space address; no segment is
  both writable and executable; and the entry point is such an address inside a segment.
\<close>

theorem parse_sound:
  assumes "parse bytes = Some img" and "length bytes < 2 ^ 64"
  shows "1 \<le> length (img_segments img) \<and> length (img_segments img) \<le> MAX_SEGMENTS \<and>
    (\<forall>s \<in> set (img_segments img).
       unat (seg_offset s) + unat (seg_filesz s) \<le> length bytes \<and> seg_filesz s \<le> seg_memsz s \<and>
       (\<forall>k < unat (seg_memsz s). is_user_address (seg_vaddr s + of_nat k) \<and> canonical (seg_vaddr s + of_nat k) \<and>
          unat (seg_vaddr s + of_nat k) = unat (seg_vaddr s) + k) \<and>
       \<not> (seg_flags s AND PF_W \<noteq> 0 \<and> seg_flags s AND PF_X \<noteq> 0)) \<and>
    (\<exists>s \<in> set (img_segments img). \<exists>k < unat (seg_memsz s). img_entry img = seg_vaddr s + of_nat k)"
proof -
  obtain phoff phnum where h: "parse_headers bytes phoff [0..<phnum] = Some (img_segments img)" "phnum \<le> MAX_SEGMENTS"
      "img_segments img \<noteq> []"
      "list_ex (\<lambda>s. seg_vaddr s \<le> img_entry img \<and> img_entry img < seg_vaddr s + seg_memsz s) (img_segments img)"
    using parse_SomeD [OF assms(1)] by blast
  note S = parse_headers_ok [OF h(1) assms(2)]
  have ends: "unat USER_SPACE_END < 2 ^ 64" by (simp add: USER_SPACE_END_def USER_SPACE_BASE_def)
  have addr: "is_user_address (seg_vaddr s + of_nat k) \<and> canonical (seg_vaddr s + of_nat k) \<and>
      unat (seg_vaddr s + of_nat k) = unat (seg_vaddr s) + k"
    if "s \<in> set (img_segments img)" "k < unat (seg_memsz s)" for s k
  proof -
    have ok: "unat USER_SPACE_BASE \<le> unat (seg_vaddr s)" "unat (seg_vaddr s) + unat (seg_memsz s) \<le> unat USER_SPACE_END"
      using S that(1) by (auto simp: seg_ok_def)
    then have "unat (seg_vaddr s) + k < 2 ^ 64" using that(2) ends by linarith
    then have u: "unat (seg_vaddr s + of_nat k) = unat (seg_vaddr s) + k" by (simp add: unat_word_ariths unat_of_nat)
    have "is_user_address (seg_vaddr s + of_nat k)" "canonical (seg_vaddr s + of_nat k)"
      using ok that(2) by (auto intro!: user_range_p4 simp: u)
    with u show ?thesis by blast
  qed
  obtain s where s: "s \<in> set (img_segments img)" "seg_vaddr s \<le> img_entry img" "img_entry img < seg_vaddr s + seg_memsz s"
    using h(4) by (auto simp: list_ex_iff)
  have "unat (seg_vaddr s + seg_memsz s) = unat (seg_vaddr s) + unat (seg_memsz s)"
  proof -
    have "unat (seg_vaddr s) + unat (seg_memsz s) < 2 ^ 64" using S s(1) ends by (auto simp: seg_ok_def)
    then show ?thesis by (simp add: unat_word_ariths)
  qed
  then have "unat (img_entry img - seg_vaddr s) < unat (seg_memsz s)"
    using s(2,3) by (simp add: unat_sub word_le_nat_alt word_less_nat_alt)
  moreover have "img_entry img = seg_vaddr s + of_nat (unat (img_entry img - seg_vaddr s))" by simp
  ultimately have "\<exists>k < unat (seg_memsz s). img_entry img = seg_vaddr s + of_nat k" by blast
  moreover have "1 \<le> length (img_segments img)" using h(3) by (cases "img_segments img") simp_all
  moreover have "length (img_segments img) \<le> MAX_SEGMENTS" using S h(2) by simp
  ultimately show ?thesis using S addr s(1) unfolding seg_ok_def by blast
qed

theorem parse_sound_witness:
  "parse w_elf = Some \<lparr>img_entry = USER_SPACE_BASE + 0x1000, img_segments = [w_seg]\<rparr> \<and>
   is_user_address (seg_vaddr w_seg + of_nat 0x1FFF)"
proof -
  have p: "parse w_elf = Some \<lparr>img_entry = USER_SPACE_BASE + 0x1000, img_segments = [w_seg]\<rparr>"
    unfolding w_elf_def by (rule parse_elf_file [OF w_elf_hyps])
  have l: "length w_elf < 2 ^ 64" by (simp add: w_elf_length)
  have k: "0x1FFF < unat (seg_memsz w_seg)" by (simp add: w_seg_def)
  from parse_sound [OF p l] k p show ?thesis by (metis Image.select_convs(2) list.set_intros(1))
qed



end
