(* ===== verification/Sched.thy ===== *)
theory Sched
  imports Interfaces
begin

text \<open>
  The scheduler, \<open>kernel/src/scheduler/mod.rs\<close>. The task table is a list of 32 optional tasks. A
  task's saved registers and its kernel stack memory are not modelled (the stack top is a value
  the caller supplies); the processor registers the scheduler writes (CR3, the interrupt stack of
  the task state segment, the syscall stack) are part of the state. Functions run with interrupts
  disabled, so each is one step; \<open>schedule_next\<close> is modelled up to the register switch, after which
  the next task runs. \<open>tick\<close> and \<open>exit_current\<close> also call the domain table and are completed in the
  theory \<open>Domain\<close>.
\<close>

section \<open>State\<close>

definition MAX_TASKS :: nat where
  "MAX_TASKS = 32"

definition KEY_WAIT :: u64 where
  "KEY_WAIT = U64_MAX - 1"

definition IRQ_WAIT_MARK :: u64 where
  "IRQ_WAIT_MARK = U64_MAX - 0x300"

definition irq_wait_token :: "u64 \<Rightarrow> u64" where
  "irq_wait_token d = IRQ_WAIT_MARK - d"

definition TARGET_FREQ :: u64 where
  "TARGET_FREQ = 1000"

datatype TaskState = Ready | Running | Sleeping | Blocked | Terminated

record task =
  t_id :: u64
  t_state :: TaskState
  t_cr3 :: u64
  t_domain :: u64
  t_kernel_stack_top :: u64
  t_user_entry :: u64
  t_user_stack :: u64
  t_sleep_until :: u64
  t_wait_on :: u64
  t_wake_deadline :: u64
  t_reply_target :: u64

record sched =
  tasks :: "task option list"
  current :: nat
  ticks :: u64
  cpu_cr3 :: u64
  cpu_rsp0 :: u64
  cpu_kernel_stack_top :: u64

definition saturating_mul :: "u64 \<Rightarrow> u64 \<Rightarrow> u64" where
  "saturating_mul a b = (case checked_mul a b of None \<Rightarrow> U64_MAX | Some c \<Rightarrow> c)"

definition div_ceil :: "u64 \<Rightarrow> u64 \<Rightarrow> u64" where
  "div_ceil a b = a div b + (if a mod b \<noteq> 0 then 1 else 0)"

definition ms_to_ticks :: "u64 \<Rightarrow> u64" where
  "ms_to_ticks ms = max (div_ceil (saturating_mul ms TARGET_FREQ) 1000) 1"

definition sched_new :: sched where
  "sched_new = \<lparr>tasks = replicate MAX_TASKS None, current = 0, ticks = 0,
     cpu_cr3 = 0, cpu_rsp0 = 0, cpu_kernel_stack_top = 0\<rparr>"

section \<open>Task creation\<close>

text \<open>\<open>kst\<close> is the top of the freshly allocated kernel stack, \<open>pml4\<close> the result of \<open>pml4_of domain\<close>.\<close>

definition spawn_inner :: "u64 \<Rightarrow> u64 \<Rightarrow> u64 \<Rightarrow> u64 \<Rightarrow> u64 res \<Rightarrow> sched \<Rightarrow> (nat option \<times> sched) res" where
  "spawn_inner domain user_entry user_stack kst pml4 s =
     (case find_index (\<lambda>t. t = None) (tasks s) of
        None \<Rightarrow> Inr (None, s)
      | Some slot \<Rightarrow>
          bind_res pml4 (\<lambda>cr3.
            Inr (Some slot, s\<lparr>tasks := (tasks s)[slot := Some \<lparr>t_id = of_nat slot, t_state = Ready, t_cr3 = cr3,
                   t_domain = domain, t_kernel_stack_top = kst, t_user_entry = user_entry, t_user_stack = user_stack,
                   t_sleep_until = 0, t_wait_on = 0, t_wake_deadline = 0, t_reply_target = U64_MAX\<rparr>]\<rparr>)))"

definition sched_spawn :: "u64 \<Rightarrow> u64 \<Rightarrow> u64 res \<Rightarrow> sched \<Rightarrow> sched res" where
  "sched_spawn domain kst pml4 s =
     bind_res (spawn_inner domain 0 0 kst pml4 s) (\<lambda>(r, s').
       case r of None \<Rightarrow> Inl ExpectFailed | Some _ \<Rightarrow> Inr s')"

definition spawn_user :: "u64 \<Rightarrow> u64 \<Rightarrow> u64 \<Rightarrow> u64 \<Rightarrow> u64 res \<Rightarrow> sched \<Rightarrow> sched res" where
  "spawn_user entry user_stack domain kst pml4 s =
     bind_res (spawn_inner domain entry user_stack kst pml4 s) (\<lambda>(r, s').
       case r of None \<Rightarrow> Inl ExpectFailed | Some _ \<Rightarrow> Inr s')"

definition try_spawn_user :: "u64 \<Rightarrow> u64 \<Rightarrow> u64 \<Rightarrow> u64 \<Rightarrow> u64 res \<Rightarrow> sched \<Rightarrow> (bool \<times> sched) res" where
  "try_spawn_user entry user_stack domain kst pml4 s =
     bind_res (spawn_inner domain entry user_stack kst pml4 s) (\<lambda>(r, s'). Inr (r \<noteq> None, s'))"

section \<open>Switching\<close>

definition is_ready :: "task option \<Rightarrow> bool" where
  "is_ready slot = (case slot of None \<Rightarrow> False | Some t \<Rightarrow> t_state t = Ready)"

definition next_ready :: "nat \<Rightarrow> task option list \<Rightarrow> nat option" where
  "next_ready after ts =
     map_option (\<lambda>i. (after + Suc i) mod MAX_TASKS)
       (find_index (\<lambda>i. is_ready (ts ! ((after + Suc i) mod MAX_TASKS))) [0..<MAX_TASKS])"

definition set_state :: "TaskState \<Rightarrow> task option \<Rightarrow> task option" where
  "set_state st slot = map_option (\<lambda>t. t\<lparr>t_state := st\<rparr>) slot"

definition schedule_next :: "TaskState \<Rightarrow> sched \<Rightarrow> sched res" where
  "schedule_next current_state s =
     (let cur = current s;
          ts = (tasks s)[cur := set_state current_state (tasks s ! cur)]
      in case next_ready cur ts of
           None \<Rightarrow> Inl ExpectFailed
         | Some nxt \<Rightarrow>
             (case (ts ! cur, ts ! nxt) of
                (Some ct, Some nt) \<Rightarrow>
                  Inr (s\<lparr>tasks := ts[nxt := Some (nt\<lparr>t_state := Running\<rparr>)], current := nxt,
                         cpu_cr3 := (if t_cr3 ct \<noteq> t_cr3 nt then t_cr3 nt else cpu_cr3 s),
                         cpu_rsp0 := t_kernel_stack_top nt, cpu_kernel_stack_top := t_kernel_stack_top nt\<rparr>)
              | _ \<Rightarrow> Inl ExpectFailed))"

definition wake_expired :: "u64 \<Rightarrow> task \<Rightarrow> task" where
  "wake_expired now t =
     (if t_state t = Sleeping \<and> t_sleep_until t \<le> now then t\<lparr>t_state := Ready\<rparr>
      else if t_state t = Blocked \<and> t_wake_deadline t \<noteq> 0 \<and> t_wake_deadline t \<le> now
           then t\<lparr>t_state := Ready, t_wake_deadline := 0\<rparr>
           else t)"

text \<open>The part of \<open>tick\<close> between reclaiming domains and switching.\<close>

definition tick_wake :: "sched \<Rightarrow> sched" where
  "tick_wake s =
     (let now = ticks s + 1
      in s\<lparr>ticks := now, tasks := map (map_option (wake_expired now)) (tasks s)\<rparr>)"

definition yield_now :: "sched \<Rightarrow> sched res" where
  "yield_now s = schedule_next Ready s"

text \<open>Updating the current task; the table entry must be there.\<close>

definition with_current :: "(task \<Rightarrow> task) \<Rightarrow> sched \<Rightarrow> sched res" where
  "with_current f s =
     bind_res (index_res (tasks s) (current s)) (\<lambda>slot.
       case slot of None \<Rightarrow> Inl ExpectFailed
       | Some t \<Rightarrow> Inr (s\<lparr>tasks := (tasks s)[current s := Some (f t)]\<rparr>))"

definition sched_sleep :: "u64 \<Rightarrow> sched \<Rightarrow> sched res" where
  "sched_sleep ms s =
     bind_res (with_current (\<lambda>t. t\<lparr>t_sleep_until := ticks s + ms_to_ticks ms\<rparr>) s) (schedule_next Sleeping)"

definition current_task :: "sched \<Rightarrow> task res" where
  "current_task s =
     bind_res (index_res (tasks s) (current s)) (\<lambda>slot. case slot of None \<Rightarrow> Inl ExpectFailed | Some t \<Rightarrow> Inr t)"

definition current_domain :: "sched \<Rightarrow> u64 res" where
  "current_domain s = bind_res (current_task s) (\<lambda>t. Inr (t_domain t))"

definition set_current_reply_target :: "u64 \<Rightarrow> sched \<Rightarrow> sched res" where
  "set_current_reply_target target = with_current (\<lambda>t. t\<lparr>t_reply_target := target\<rparr>)"

definition current_reply_target :: "sched \<Rightarrow> u64 res" where
  "current_reply_target s = bind_res (current_task s) (\<lambda>t. Inr (t_reply_target t))"

definition block_current :: "u64 \<Rightarrow> sched \<Rightarrow> sched res" where
  "block_current on_domain s =
     bind_res (with_current (\<lambda>t. t\<lparr>t_wait_on := on_domain, t_wake_deadline := 0\<rparr>) s) (schedule_next Blocked)"

definition block_current_timeout_ms :: "u64 \<Rightarrow> u64 \<Rightarrow> sched \<Rightarrow> sched res" where
  "block_current_timeout_ms on ms s =
     bind_res (with_current (\<lambda>t. t\<lparr>t_wait_on := on, t_wake_deadline := ticks s + ms_to_ticks ms\<rparr>) s)
       (schedule_next Blocked)"

section \<open>Waking and removing\<close>

definition waits_on :: "u64 \<Rightarrow> task option \<Rightarrow> bool" where
  "waits_on d slot = (case slot of None \<Rightarrow> False | Some t \<Rightarrow> t_state t = Blocked \<and> t_wait_on t = d)"

definition wake_task :: "task option \<Rightarrow> task option" where
  "wake_task slot = map_option (\<lambda>t. t\<lparr>t_state := Ready, t_wake_deadline := 0\<rparr>) slot"

definition wake_one :: "u64 \<Rightarrow> sched \<Rightarrow> sched" where
  "wake_one d s =
     (case find_index (waits_on d) (tasks s) of
        None \<Rightarrow> s
      | Some i \<Rightarrow> s\<lparr>tasks := (tasks s)[i := wake_task (tasks s ! i)]\<rparr>)"

definition in_domain :: "u64 \<Rightarrow> task option \<Rightarrow> bool" where
  "in_domain d slot = (case slot of None \<Rightarrow> False | Some t \<Rightarrow> t_domain t = d)"

definition sched_remove_domain :: "u64 \<Rightarrow> sched \<Rightarrow> sched" where
  "sched_remove_domain d s =
     s\<lparr>tasks := map (\<lambda>slot. if waits_on d slot then wake_task slot else slot)
                  (map (\<lambda>slot. if in_domain d slot then None else slot) (tasks s))\<rparr>"

definition live_in :: "u64 \<Rightarrow> task option \<Rightarrow> bool" where
  "live_in d slot = (case slot of None \<Rightarrow> False | Some t \<Rightarrow> t_domain t = d \<and> t_state t \<noteq> Terminated)"

definition live_tasks :: "u64 \<Rightarrow> sched \<Rightarrow> nat" where
  "live_tasks d s = length (filter (live_in d) (tasks s))"

definition dead_in :: "u64 \<Rightarrow> task option \<Rightarrow> bool" where
  "dead_in d slot = (case slot of None \<Rightarrow> False | Some t \<Rightarrow> t_domain t = d \<and> t_state t = Terminated)"

definition reap_terminated :: "u64 \<Rightarrow> sched \<Rightarrow> nat \<times> sched" where
  "reap_terminated d s =
     (length (filter (dead_in d) (tasks s)),
      s\<lparr>tasks := map (\<lambda>slot. if dead_in d slot then None else slot) (tasks s)\<rparr>)"

definition sched_run :: "sched \<Rightarrow> sched res" where
  "sched_run s =
     (case next_ready (MAX_TASKS - 1) (tasks s) of
        None \<Rightarrow> Inl ExpectFailed
      | Some first \<Rightarrow>
          (case tasks s ! first of
             None \<Rightarrow> Inl ExpectFailed
           | Some t \<Rightarrow>
               Inr (s\<lparr>tasks := (tasks s)[first := Some (t\<lparr>t_state := Running\<rparr>)], current := first, cpu_cr3 := t_cr3 t,
                      cpu_rsp0 := t_kernel_stack_top t, cpu_kernel_stack_top := t_kernel_stack_top t\<rparr>)))"

section \<open>Round robin\<close>

text \<open>How many slots after \<open>a\<close>, cyclically, slot \<open>k\<close> comes (0 for the very next one).\<close>

definition ring_off :: "nat \<Rightarrow> nat \<Rightarrow> nat" where
  "ring_off a k = (k + MAX_TASKS - Suc a) mod MAX_TASKS"

lemma ring_off_bound: "ring_off a k < MAX_TASKS"
  by (simp add: ring_off_def MAX_TASKS_def)

lemma ring_off_inverse: "a < MAX_TASKS \<Longrightarrow> k < MAX_TASKS \<Longrightarrow> (a + Suc (ring_off a k)) mod MAX_TASKS = k"
proof -
  assume a: "a < MAX_TASKS" and k: "k < MAX_TASKS"
  have "(a + Suc (ring_off a k)) mod MAX_TASKS = (Suc a + (k + MAX_TASKS - Suc a)) mod MAX_TASKS"
    unfolding ring_off_def add_Suc_right add_Suc [symmetric] by (rule mod_add_right_eq)
  also have "\<dots> = (k + MAX_TASKS) mod MAX_TASKS" using a by simp
  finally show ?thesis using k by simp
qed

lemma ring_off_cases:
  assumes "a < MAX_TASKS" and "k < MAX_TASKS"
  shows "ring_off a k = (if a < k then k - Suc a else k + MAX_TASKS - Suc a)"
proof (cases "a < k")
  case True
  then have e: "k + MAX_TASKS - Suc a = (k - Suc a) + MAX_TASKS" by simp
  show ?thesis unfolding ring_off_def e mod_add_self2 using True assms by simp
next
  case False
  with assms show ?thesis by (simp add: ring_off_def)
qed

lemma ring_off_step:
  assumes "a < MAX_TASKS" and "k < MAX_TASKS" and "i < ring_off a k"
  shows "ring_off ((a + Suc i) mod MAX_TASKS) k = ring_off a k - Suc i"
proof (cases "a + Suc i < MAX_TASKS")
  case True
  then have m: "(a + Suc i) mod MAX_TASKS = a + Suc i" by simp
  show ?thesis unfolding m ring_off_cases [OF True assms(2)] ring_off_cases [OF assms(1,2)]
    using assms ring_off_cases [OF assms(1,2)] by (auto split: if_splits)
next
  case False
  have d: "\<not> a < k" using assms(3) ring_off_cases [OF assms(1,2)] assms(2) False by (auto split: if_splits)
  then have i: "i < k + MAX_TASKS - Suc a" using assms(3) ring_off_cases [OF assms(1,2)] by simp
  have lt: "a + Suc i - MAX_TASKS < MAX_TASKS" using i assms d by simp
  have m: "(a + Suc i) mod MAX_TASKS = a + Suc i - MAX_TASKS" using False lt by (simp add: mod_if)
  show ?thesis unfolding m ring_off_cases [OF lt assms(2)] ring_off_cases [OF assms(1,2)]
    using i d False by auto
qed

lemma next_ready_Some:
  assumes "next_ready a ts = Some n"
  obtains i where "i < MAX_TASKS" and "n = (a + Suc i) mod MAX_TASKS" and "is_ready (ts ! n)"
    and "\<forall>j < i. \<not> is_ready (ts ! ((a + Suc j) mod MAX_TASKS))"
proof -
  from assms obtain i where f: "find_index (\<lambda>i. is_ready (ts ! ((a + Suc i) mod MAX_TASKS))) [0..<MAX_TASKS] = Some i"
    and n: "n = (a + Suc i) mod MAX_TASKS" by (auto simp: next_ready_def)
  from f have i: "i < MAX_TASKS" "is_ready (ts ! ((a + Suc i) mod MAX_TASKS))"
      "\<forall>j < i. \<not> is_ready (ts ! ((a + Suc j) mod MAX_TASKS))"
    unfolding find_index_Some_iff by auto
  show thesis by (rule that [OF i(1) n _ i(3)]) (use i(2) n in simp)
qed

lemma next_ready_None:
  assumes "a < MAX_TASKS"
  shows "next_ready a ts = None \<longleftrightarrow> (\<forall>k < MAX_TASKS. \<not> is_ready (ts ! k))"
proof -
  have "next_ready a ts = None \<longleftrightarrow> (\<forall>i < MAX_TASKS. \<not> is_ready (ts ! ((a + Suc i) mod MAX_TASKS)))"
    by (auto simp: next_ready_def find_index_None_iff)
  also have "\<dots> \<longleftrightarrow> (\<forall>k < MAX_TASKS. \<not> is_ready (ts ! k))"
  proof
    assume l: "\<forall>i < MAX_TASKS. \<not> is_ready (ts ! ((a + Suc i) mod MAX_TASKS))"
    show "\<forall>k < MAX_TASKS. \<not> is_ready (ts ! k)"
    proof (intro allI impI)
      fix k assume "k < MAX_TASKS"
      with l [rule_format, OF ring_off_bound [of a k]] ring_off_inverse [OF assms this]
      show "\<not> is_ready (ts ! k)" by simp
    qed
  next
    assume "\<forall>k < MAX_TASKS. \<not> is_ready (ts ! k)"
    moreover have "(a + Suc i) mod MAX_TASKS < MAX_TASKS" for i by (simp add: MAX_TASKS_def)
    ultimately show "\<forall>i < MAX_TASKS. \<not> is_ready (ts ! ((a + Suc i) mod MAX_TASKS))" by blast
  qed
  finally show ?thesis .
qed

section \<open>The invariant\<close>

text \<open>Exactly the current task is running, and the processor is set up for it.\<close>

definition sched_inv :: "sched \<Rightarrow> bool" where
  "sched_inv s \<longleftrightarrow> length (tasks s) = MAX_TASKS \<and> current s < MAX_TASKS \<and>
     (case tasks s ! current s of
        None \<Rightarrow> False
      | Some t \<Rightarrow> t_state t = Running \<and> cpu_cr3 s = t_cr3 t \<and> cpu_rsp0 s = t_kernel_stack_top t \<and>
                  cpu_kernel_stack_top s = t_kernel_stack_top t) \<and>
     (\<forall>i < MAX_TASKS. i \<noteq> current s \<longrightarrow> (case tasks s ! i of None \<Rightarrow> True | Some t \<Rightarrow> t_state t \<noteq> Running))"

text \<open>What one switch does.\<close>

lemma schedule_next_Inr:
  assumes "schedule_next st s = Inr s'" and "length (tasks s) = MAX_TASKS" and "current s < MAX_TASKS"
  obtains i ct nt where
    "i < MAX_TASKS" and "current s' = (current s + Suc i) mod MAX_TASKS" and "tasks s ! current s = Some ct"
    and "(tasks s)[current s := Some (ct\<lparr>t_state := st\<rparr>)] ! current s' = Some nt" and "t_state nt = Ready"
    and "\<forall>j < i. \<not> is_ready ((tasks s)[current s := Some (ct\<lparr>t_state := st\<rparr>)] ! ((current s + Suc j) mod MAX_TASKS))"
    and "s' = s\<lparr>tasks := (tasks s)[current s := Some (ct\<lparr>t_state := st\<rparr>), current s' := Some (nt\<lparr>t_state := Running\<rparr>)],
           current := current s', cpu_cr3 := (if t_cr3 ct \<noteq> t_cr3 nt then t_cr3 nt else cpu_cr3 s),
           cpu_rsp0 := t_kernel_stack_top nt, cpu_kernel_stack_top := t_kernel_stack_top nt\<rparr>"
proof -
  let ?ts = "(tasks s)[current s := set_state st (tasks s ! current s)]"
  obtain n ct' nt where nx: "next_ready (current s) ?ts = Some n" and c: "?ts ! current s = Some ct'" and t: "?ts ! n = Some nt"
    and s': "s' = s\<lparr>tasks := ?ts[n := Some (nt\<lparr>t_state := Running\<rparr>)], current := n,
      cpu_cr3 := (if t_cr3 ct' \<noteq> t_cr3 nt then t_cr3 nt else cpu_cr3 s),
      cpu_rsp0 := t_kernel_stack_top nt, cpu_kernel_stack_top := t_kernel_stack_top nt\<rparr>"
    using assms(1) unfolding schedule_next_def Let_def by (auto split: option.splits)
  have "?ts ! current s = set_state st (tasks s ! current s)" using assms(2,3) by simp
  with c have "set_state st (tasks s ! current s) = Some ct'" by simp
  then obtain ct where ct: "tasks s ! current s = Some ct" "ct' = ct\<lparr>t_state := st\<rparr>"
    by (auto simp: set_state_def)
  have ts: "?ts = (tasks s)[current s := Some (ct\<lparr>t_state := st\<rparr>)]" using ct by (simp add: set_state_def)
  have cn: "current s' = n" by (simp add: s')
  obtain i where i: "i < MAX_TASKS" "n = (current s + Suc i) mod MAX_TASKS" "is_ready (?ts ! n)"
      "\<forall>j < i. \<not> is_ready (?ts ! ((current s + Suc j) mod MAX_TASKS))"
    by (rule next_ready_Some [OF nx])
  show thesis
  proof (rule that [of i ct nt])
    show "t_state nt = Ready" using i(3) t by (simp add: is_ready_def)
    show "(tasks s)[current s := Some (ct\<lparr>t_state := st\<rparr>)] ! current s' = Some nt" using t unfolding ts cn .
    show "\<forall>j < i. \<not> is_ready ((tasks s)[current s := Some (ct\<lparr>t_state := st\<rparr>)] ! ((current s + Suc j) mod MAX_TASKS))"
      using i(4) unfolding ts .
    show "s' = s\<lparr>tasks := (tasks s)[current s := Some (ct\<lparr>t_state := st\<rparr>), current s' := Some (nt\<lparr>t_state := Running\<rparr>)],
        current := current s', cpu_cr3 := (if t_cr3 ct \<noteq> t_cr3 nt then t_cr3 nt else cpu_cr3 s),
        cpu_rsp0 := t_kernel_stack_top nt, cpu_kernel_stack_top := t_kernel_stack_top nt\<rparr>"
      using s' ct(2) unfolding ts cn by simp
  qed (use i(1,2) cn ct(1) in simp_all)
qed

lemma schedule_next_inv:
  assumes "schedule_next st s = Inr s'" and "sched_inv s" and "st \<noteq> Running"
  shows "sched_inv s'"
proof -
  have len: "length (tasks s) = MAX_TASKS" and cur: "current s < MAX_TASKS" using assms(2) by (simp_all add: sched_inv_def)
  obtain i ct nt where i: "i < MAX_TASKS" "current s' = (current s + Suc i) mod MAX_TASKS" "tasks s ! current s = Some ct"
      "(tasks s)[current s := Some (ct\<lparr>t_state := st\<rparr>)] ! current s' = Some nt" "t_state nt = Ready"
      and s': "s' = s\<lparr>tasks := (tasks s)[current s := Some (ct\<lparr>t_state := st\<rparr>), current s' := Some (nt\<lparr>t_state := Running\<rparr>)],
           current := current s', cpu_cr3 := (if t_cr3 ct \<noteq> t_cr3 nt then t_cr3 nt else cpu_cr3 s),
           cpu_rsp0 := t_kernel_stack_top nt, cpu_kernel_stack_top := t_kernel_stack_top nt\<rparr>"
    by (rule schedule_next_Inr [OF assms(1) len cur])
  define n where "n = current s'"
  have nlt: "n < MAX_TASKS" unfolding n_def i(2) by (simp add: MAX_TASKS_def)
  have ts: "tasks s' = (tasks s)[current s := Some (ct\<lparr>t_state := st\<rparr>), n := Some (nt\<lparr>t_state := Running\<rparr>)]"
    unfolding n_def by (subst s') simp
  have cr: "cpu_cr3 s = t_cr3 ct" using assms(2) i(3) by (simp add: sched_inv_def)
  have cpu: "cpu_cr3 s' = t_cr3 nt" "cpu_rsp0 s' = t_kernel_stack_top nt" "cpu_kernel_stack_top s' = t_kernel_stack_top nt"
    using cr by (subst s', simp)+
  have at_n: "tasks s' ! n = Some (nt\<lparr>t_state := Running\<rparr>)" unfolding ts using nlt len by simp
  have oth: "case tasks s' ! j of None \<Rightarrow> True | Some t \<Rightarrow> t_state t \<noteq> Running" if j: "j < MAX_TASKS" "j \<noteq> n" for j
  proof (cases "j = current s")
    case True
    then show ?thesis unfolding ts using j cur len assms(3) by simp
  next
    case False
    then have "tasks s' ! j = tasks s ! j" unfolding ts using j by simp
    then show ?thesis using assms(2) j False by (simp add: sched_inv_def)
  qed
  show ?thesis unfolding sched_inv_def n_def [symmetric] at_n using oth cpu len nlt
    by (simp add: ts)
qed

lemma ready_not_running: "is_ready slot \<Longrightarrow> slot \<noteq> None"
  by (auto simp: is_ready_def split: option.splits)

lemma schedule_next_fails_iff:
  assumes "sched_inv s"
  shows "schedule_next st s = Inl e \<longleftrightarrow> e = ExpectFailed \<and> st \<noteq> Ready \<and>
    (\<forall>k < MAX_TASKS. k \<noteq> current s \<longrightarrow> \<not> is_ready (tasks s ! k))"
proof -
  have len: "length (tasks s) = MAX_TASKS" and cur: "current s < MAX_TASKS" using assms by (simp_all add: sched_inv_def)
  obtain ct where ct: "tasks s ! current s = Some ct" using assms by (auto simp: sched_inv_def split: option.splits)
  let ?ts = "(tasks s)[current s := set_state st (tasks s ! current s)]"
  have c: "?ts ! current s = Some (ct\<lparr>t_state := st\<rparr>)" using len cur ct by (simp add: set_state_def)
  have "next_ready (current s) ?ts = None \<longleftrightarrow> st \<noteq> Ready \<and> (\<forall>k < MAX_TASKS. k \<noteq> current s \<longrightarrow> \<not> is_ready (tasks s ! k))"
  proof -
    have "is_ready (?ts ! k) \<longleftrightarrow> (if k = current s then st = Ready else is_ready (tasks s ! k))" for k
      using c by (cases "k = current s") (simp_all add: is_ready_def)
    then show ?thesis unfolding next_ready_None [OF cur] using cur by auto
  qed
  moreover have "\<exists>s'. schedule_next st s = Inr s'" if nx: "next_ready (current s) ?ts = Some n" for n
  proof -
    obtain nt where "?ts ! n = Some nt" by (rule next_ready_Some [OF nx]) (use ready_not_running in blast)
    then show ?thesis unfolding schedule_next_def Let_def nx c by simp
  qed
  moreover have "schedule_next st s = Inl ExpectFailed" if "next_ready (current s) ?ts = None"
    using that unfolding schedule_next_def Let_def by simp
  ultimately show ?thesis by (cases "next_ready (current s) ?ts") auto
qed

section \<open>Bounded waiting\<close>

lemma switch_towards:
  assumes "schedule_next st s = Inr s'" and "length (tasks s) = MAX_TASKS" and "current s < MAX_TASKS"
    and "j < MAX_TASKS" and "j \<noteq> current s" and "is_ready (tasks s ! j)" and "current s' \<noteq> j"
  shows "is_ready (tasks s' ! j) \<and> ring_off (current s') j < ring_off (current s) j \<and> \<not> is_ready (tasks s' ! current s') \<and>
    length (tasks s') = MAX_TASKS \<and> current s' < MAX_TASKS"
proof -
  obtain i ct nt where i: "i < MAX_TASKS" "current s' = (current s + Suc i) mod MAX_TASKS"
      "\<forall>k < i. \<not> is_ready ((tasks s)[current s := Some (ct\<lparr>t_state := st\<rparr>)] ! ((current s + Suc k) mod MAX_TASKS))"
      and s': "s' = s\<lparr>tasks := (tasks s)[current s := Some (ct\<lparr>t_state := st\<rparr>), current s' := Some (nt\<lparr>t_state := Running\<rparr>)],
           current := current s', cpu_cr3 := (if t_cr3 ct \<noteq> t_cr3 nt then t_cr3 nt else cpu_cr3 s),
           cpu_rsp0 := t_kernel_stack_top nt, cpu_kernel_stack_top := t_kernel_stack_top nt\<rparr>"
    by (rule schedule_next_Inr [OF assms(1-3)])
  have nlt: "current s' < MAX_TASKS" unfolding i(2) by (simp add: MAX_TASKS_def)
  have ts: "tasks s' = (tasks s)[current s := Some (ct\<lparr>t_state := st\<rparr>), current s' := Some (nt\<lparr>t_state := Running\<rparr>)]"
    by (subst s') simp
  have rj: "is_ready (tasks s' ! j)" unfolding ts using assms(5-7) by simp
  let ?k = "ring_off (current s) j"
  have kj: "(current s + Suc ?k) mod MAX_TASKS = j" by (rule ring_off_inverse [OF assms(3,4)])
  have "\<not> ?k < i"
  proof
    assume "?k < i"
    with i(3) kj have "\<not> is_ready ((tasks s)[current s := Some (ct\<lparr>t_state := st\<rparr>)] ! j)" by metis
    then show False using assms(5,6) by simp
  qed
  moreover have "?k \<noteq> i" using kj i(2) assms(7) by auto
  ultimately have "i < ?k" by simp
  from ring_off_step [OF assms(3,4) this] this have "ring_off (current s') j < ?k" unfolding i(2) by simp
  moreover have "\<not> is_ready (tasks s' ! current s')" unfolding ts using nlt assms(2) by (simp add: is_ready_def)
  moreover have "length (tasks s') = MAX_TASKS" unfolding ts using assms(2) by simp
  ultimately show ?thesis using rj nlt by blast
qed

section \<open>Sleeping\<close>

lemma tick_wake_nth:
  "i < length (tasks s) \<Longrightarrow> tasks (tick_wake s) ! i = map_option (wake_expired (ticks s + 1)) (tasks s ! i)"
  by (simp add: tick_wake_def Let_def)

lemma tick_wake_frame [simp]:
  "length (tasks (tick_wake s)) = length (tasks s)" "ticks (tick_wake s) = ticks s + 1" "current (tick_wake s) = current s"
  by (simp_all add: tick_wake_def Let_def)

lemma tick_wake_iter:
  assumes "i < length (tasks s)" and "tasks s ! i = Some t" and "t_state t = Sleeping" and "unat (ticks s) + n < 2 ^ 64"
    and "ticks s < t_sleep_until t"
  shows "length (tasks ((tick_wake ^^ n) s)) = length (tasks s) \<and> unat (ticks ((tick_wake ^^ n) s)) = unat (ticks s) + n \<and>
    tasks ((tick_wake ^^ n) s) ! i =
      Some (if unat (ticks s) + n < unat (t_sleep_until t) then t else t\<lparr>t_state := Ready\<rparr>)"
  using assms(4)
proof (induction n)
  case 0
  then show ?case using assms by (simp add: word_less_nat_alt)
next
  case (Suc n)
  let ?s = "(tick_wake ^^ n) s"
  from Suc have IH: "length (tasks ?s) = length (tasks s)" "unat (ticks ?s) = unat (ticks s) + n"
    "tasks ?s ! i = Some (if unat (ticks s) + n < unat (t_sleep_until t) then t else t\<lparr>t_state := Ready\<rparr>)" by simp_all
  have u: "unat (ticks ?s + 1) = unat (ticks s) + Suc n" using IH(2) Suc.prems by (simp add: unat_word_ariths)
  have "tasks (tick_wake ?s) ! i = map_option (wake_expired (ticks ?s + 1)) (tasks ?s ! i)"
    using IH(1) assms(1) by (intro tick_wake_nth) simp
  also have "\<dots> = Some (if unat (ticks s) + Suc n < unat (t_sleep_until t) then t else t\<lparr>t_state := Ready\<rparr>)"
    using assms(3) u unfolding IH(3) wake_expired_def word_le_nat_alt by (auto simp: not_less)
  finally show ?case using IH(1) u by simp
qed

lemma ms_to_ticks_exact:
  assumes "unat ms * 1000 < 2 ^ 64"
  shows "unat (ms_to_ticks ms) = max (unat ms) 1"
proof -
  have "checked_mul ms 1000 = Some (ms * 1000)" using assms by (simp add: checked_mul_def)
  then have m: "saturating_mul ms TARGET_FREQ = ms * 1000" by (simp add: saturating_mul_def TARGET_FREQ_def)
  have u: "unat (ms * 1000) = unat ms * 1000" using assms by (simp add: unat_word_ariths)
  have "unat (ms * 1000 div 1000) = unat ms" "unat (ms * 1000 mod 1000) = unat (0 :: u64)"
    unfolding unat_div unat_mod u by simp_all
  then have "ms * 1000 div 1000 = ms" "ms * 1000 mod 1000 = 0" by (simp_all only: unat_inj_iff)
  then have "ms_to_ticks ms = max ms 1" unfolding ms_to_ticks_def m div_ceil_def by simp
  then show ?thesis by (simp add: max_def word_le_nat_alt)
qed

lemma switch_possible:
  assumes "sched_inv s" and "k < MAX_TASKS" and "k \<noteq> current s" and "is_ready (tasks s ! k)"
    and "\<And>t. t_state (f t) = t_state t \<and> t_cr3 (f t) = t_cr3 t \<and> t_kernel_stack_top (f t) = t_kernel_stack_top t"
  shows "\<exists>s'. bind_res (with_current f s) (schedule_next st) = Inr s'"
proof -
  have len: "length (tasks s) = MAX_TASKS" "current s < MAX_TASKS" using assms(1) by (simp_all add: sched_inv_def)
  obtain t where t: "tasks s ! current s = Some t" using assms(1) by (auto simp: sched_inv_def split: option.splits)
  let ?m = "s\<lparr>tasks := (tasks s)[current s := Some (f t)]\<rparr>"
  have w: "with_current f s = Inr ?m" using t len by (simp add: with_current_def)
  have i: "sched_inv ?m" using assms(1,5) len t by (auto simp: sched_inv_def nth_list_update)
  have "schedule_next st ?m \<noteq> Inl e" for e
    unfolding schedule_next_fails_iff [OF i] using assms(2-4) by auto
  then have "\<exists>s'. schedule_next st ?m = Inr s'" by (cases "schedule_next st ?m") blast+
  then show ?thesis by (simp add: w)
qed

section \<open>A small task table\<close>

definition w_task :: "u64 \<Rightarrow> TaskState \<Rightarrow> task" where
  "w_task k st = \<lparr>t_id = k, t_state = st, t_cr3 = 0x1000 * (k + 1), t_domain = k, t_kernel_stack_top = 0x9000 * (k + 1),
     t_user_entry = 0, t_user_stack = 0, t_sleep_until = 0, t_wait_on = 0, t_wake_deadline = 0, t_reply_target = U64_MAX\<rparr>"

text \<open>Two tasks, one running; \<open>b\<close> says which.\<close>

definition w_sched :: "bool \<Rightarrow> sched" where
  "w_sched b = \<lparr>tasks = [Some (w_task 0 (if b then Ready else Running)), Some (w_task 1 (if b then Running else Ready))] @ replicate 30 None,
     current = (if b then 1 else 0), ticks = 7, cpu_cr3 = (if b then 0x2000 else 0x1000),
     cpu_rsp0 = (if b then 0x12000 else 0x9000), cpu_kernel_stack_top = (if b then 0x12000 else 0x9000)\<rparr>"

lemma w_sched_inv: "sched_inv (w_sched b)"
  by (auto simp: sched_inv_def w_sched_def w_task_def MAX_TASKS_def nth_Cons nth_append split: nat.splits)

lemma w_sched_yield: "schedule_next Ready (w_sched b) = Inr (w_sched (\<not> b))"
proof -
  have "schedule_next Ready (w_sched True) = Inr (w_sched False)" "schedule_next Ready (w_sched False) = Inr (w_sched True)"
    by code_simp+
  then show ?thesis by (cases b) simp_all
qed

section \<open>Properties\<close>

text \<open>
  C19: a context switch. It panics exactly when the current task gives up the processor and no
  other task is ready; so yielding and preemption never do. Otherwise it preserves the invariant
  that exactly the current task is running and that the page table root and the kernel stacks
  loaded in the processor are that task's, and it picks the first ready task in cyclic order.
\<close>

theorem context_switch:
  assumes "sched_inv s" and "st \<noteq> Running"
  shows "(\<forall>e. schedule_next st s = Inl e \<longleftrightarrow> e = ExpectFailed \<and> st \<noteq> Ready \<and>
       (\<forall>k < MAX_TASKS. k \<noteq> current s \<longrightarrow> \<not> is_ready (tasks s ! k))) \<and>
    (\<forall>s'. schedule_next st s = Inr s' \<longrightarrow> sched_inv s' \<and>
       (\<forall>k < MAX_TASKS. k \<noteq> current s \<and> is_ready (tasks s ! k) \<longrightarrow>
          ring_off (current s) (current s') \<le> ring_off (current s) k))"
proof (intro conjI allI impI)
  show "schedule_next st s = Inl e \<longleftrightarrow> e = ExpectFailed \<and> st \<noteq> Ready \<and>
      (\<forall>k < MAX_TASKS. k \<noteq> current s \<longrightarrow> \<not> is_ready (tasks s ! k))" for e
    by (rule schedule_next_fails_iff [OF assms(1)])
next
  fix s' assume r: "schedule_next st s = Inr s'"
  show "sched_inv s'" by (rule schedule_next_inv [OF r assms])
  fix k assume k: "k < MAX_TASKS" "k \<noteq> current s \<and> is_ready (tasks s ! k)"
  have len: "length (tasks s) = MAX_TASKS" and cur: "current s < MAX_TASKS" using assms(1) by (simp_all add: sched_inv_def)
  obtain i ct where i: "i < MAX_TASKS" "current s' = (current s + Suc i) mod MAX_TASKS"
      "\<forall>j < i. \<not> is_ready ((tasks s)[current s := Some (ct\<lparr>t_state := st\<rparr>)] ! ((current s + Suc j) mod MAX_TASKS))"
    by (rule schedule_next_Inr [OF r len cur])
  have n: "current s' < MAX_TASKS" unfolding i(2) by (simp add: MAX_TASKS_def)
  have "ring_off (current s) (current s') \<le> i"
  proof (rule ccontr)
    assume "\<not> ring_off (current s) (current s') \<le> i"
    then have "ring_off ((current s + Suc i) mod MAX_TASKS) (current s') = ring_off (current s) (current s') - Suc i"
      by (intro ring_off_step [OF cur n]) simp
    moreover have "ring_off (current s') (current s') = MAX_TASKS - 1" using n by (simp add: ring_off_cases)
    ultimately have "MAX_TASKS - 1 = ring_off (current s) (current s') - Suc i" unfolding i(2) [symmetric] by simp
    then show False using ring_off_bound [of "current s" "current s'"] by (simp add: MAX_TASKS_def)
  qed
  moreover have "\<not> ring_off (current s) k < i"
  proof
    assume "ring_off (current s) k < i"
    with i(3) ring_off_inverse [OF cur k(1)] have "\<not> is_ready ((tasks s)[current s := Some (ct\<lparr>t_state := st\<rparr>)] ! k)" by metis
    then show False using k(2) by simp
  qed
  ultimately show "ring_off (current s) (current s') \<le> ring_off (current s) k" by simp
qed

theorem context_switch_witness:
  "sched_inv (w_sched False) \<and> schedule_next Ready (w_sched False) = Inr (w_sched True) \<and> sched_inv (w_sched True) \<and>
   ring_off 0 1 \<le> ring_off 0 1 \<and> schedule_next Blocked (w_sched False) \<noteq> Inl ExpectFailed"
proof (intro conjI)
  show "sched_inv (w_sched False)" by (rule w_sched_inv)
  show y: "schedule_next Ready (w_sched False) = Inr (w_sched True)" using w_sched_yield [of False] by simp
  have c: "current (w_sched False) = 0" "current (w_sched True) = 1" by (simp_all add: w_sched_def)
  have r: "is_ready (tasks (w_sched False) ! 1)" "1 < MAX_TASKS" by (simp_all add: w_sched_def w_task_def is_ready_def MAX_TASKS_def)
  show "sched_inv (w_sched True)" using context_switch [OF w_sched_inv [of False], of Ready] y by simp
  show "ring_off 0 1 \<le> ring_off 0 1" using context_switch [OF w_sched_inv [of False], of Ready] y r unfolding c by simp
  show "schedule_next Blocked (w_sched False) \<noteq> Inl ExpectFailed"
  proof
    assume "schedule_next Blocked (w_sched False) = Inl ExpectFailed"
    then have "\<forall>k < MAX_TASKS. k \<noteq> current (w_sched False) \<longrightarrow> \<not> is_ready (tasks (w_sched False) ! k)"
      using context_switch [OF w_sched_inv [of False], of Blocked] by blast
    with r show False unfolding c by (metis one_neq_zero)
  qed
qed

text \<open>
  C20: no starvation. Consider any run of the scheduler: between two switches the kernel may change
  other tasks at will, but leaves the running one alone. A task that is ready and stays ready is
  running after at most 32 switches.
\<close>

theorem ready_task_runs:
  assumes "\<And>n. schedule_next (st n) (mid n) = Inr (run (Suc n))"
    and "\<And>n. length (tasks (mid n)) = MAX_TASKS \<and> current (mid n) = current (run n) \<and> current (mid n) < MAX_TASKS"
    and "\<And>n. \<not> is_ready (tasks (run n) ! current (run n)) \<Longrightarrow> \<not> is_ready (tasks (mid n) ! current (mid n))"
    and "\<And>n. is_ready (tasks (run n) ! j) \<Longrightarrow> is_ready (tasks (mid n) ! j)"
    and "\<not> is_ready (tasks (run 0) ! current (run 0))" and "j < MAX_TASKS" and "is_ready (tasks (run 0) ! j)"
  shows "\<exists>n \<le> MAX_TASKS. current (run n) = j"
proof (rule ccontr)
  assume no: "\<not> (\<exists>n \<le> MAX_TASKS. current (run n) = j)"
  have "is_ready (tasks (run n) ! j) \<and> \<not> is_ready (tasks (run n) ! current (run n)) \<and>
      ring_off (current (run n)) j + n \<le> ring_off (current (run 0)) j" if "n \<le> MAX_TASKS" for n
    using that
  proof (induction n)
    case 0
    then show ?case using assms(5,7) by simp
  next
    case (Suc n)
    then have IH: "is_ready (tasks (run n) ! j)" "\<not> is_ready (tasks (run n) ! current (run n))"
      "ring_off (current (run n)) j + n \<le> ring_off (current (run 0)) j" by simp_all
    have m: "length (tasks (mid n)) = MAX_TASKS" "current (mid n) = current (run n)" "current (mid n) < MAX_TASKS"
      using assms(2) [of n] by blast+
    have rj: "is_ready (tasks (mid n) ! j)" by (rule assms(4) [OF IH(1)])
    have nc: "j \<noteq> current (mid n)" using assms(3) [OF IH(2)] rj by auto
    have "current (run (Suc n)) \<noteq> j" using no Suc.prems by blast
    from switch_towards [OF assms(1) m(1,3) assms(6) nc rj this] IH(3) m(2) show ?case by simp
  qed
  from this [of MAX_TASKS] ring_off_bound [of "current (run 0)" j] show False by simp
qed

theorem ready_task_runs_witness:
  "\<exists>n \<le> MAX_TASKS. current (w_sched (odd n)) = 1"
  by (rule ready_task_runs [where st = "\<lambda>n. Ready" and mid = "\<lambda>n. w_sched (odd n)" and run = "\<lambda>n. w_sched (odd n)"])
    (simp_all add: w_sched_yield, simp_all add: w_sched_def w_task_def MAX_TASKS_def is_ready_def)

text \<open>
  C21: a sleep lasts as long as asked, within a tick. A task that goes to sleep for \<open>ms\<close>
  milliseconds (1 tick per millisecond, at least one) is still asleep after any smaller number of
  ticks and ready from that tick on.
\<close>

theorem sleep_duration:
  assumes "sched_inv s" and "sched_sleep ms s = Inr s'" and "unat ms * 1000 < 2 ^ 64"
    and "unat (ticks s) + max (unat ms) 1 < 2 ^ 64" and "unat (ticks s) + n < 2 ^ 64"
  shows "\<exists>t. tasks s' ! current s = Some t \<and> t_state t = Sleeping \<and>
    tasks ((tick_wake ^^ n) s') ! current s = Some (if n < max (unat ms) 1 then t else t\<lparr>t_state := Ready\<rparr>)"
proof -
  have len: "length (tasks s) = MAX_TASKS" and cur: "current s < MAX_TASKS" using assms(1) by (simp_all add: sched_inv_def)
  obtain t0 where t0: "tasks s ! current s = Some t0" using assms(1) by (auto simp: sched_inv_def split: option.splits)
  let ?u = "ticks s + ms_to_ticks ms"
  define s1 where "s1 = s\<lparr>tasks := (tasks s)[current s := Some (t0\<lparr>t_sleep_until := ?u\<rparr>)]\<rparr>"
  have r: "schedule_next Sleeping s1 = Inr s'"
    using assms(2) t0 len cur by (simp add: sched_sleep_def with_current_def s1_def)
  have c1: "current s1 = current s" "length (tasks s1) = MAX_TASKS" "ticks s1 = ticks s" using len by (simp_all add: s1_def)
  obtain i ct nt where i: "current s' = (current s1 + Suc i) mod MAX_TASKS" "tasks s1 ! current s1 = Some ct"
      "(tasks s1)[current s1 := Some (ct\<lparr>t_state := Sleeping\<rparr>)] ! current s' = Some nt" "t_state nt = Ready"
      and s': "s' = s1\<lparr>tasks := (tasks s1)[current s1 := Some (ct\<lparr>t_state := Sleeping\<rparr>), current s' := Some (nt\<lparr>t_state := Running\<rparr>)],
           current := current s', cpu_cr3 := (if t_cr3 ct \<noteq> t_cr3 nt then t_cr3 nt else cpu_cr3 s1),
           cpu_rsp0 := t_kernel_stack_top nt, cpu_kernel_stack_top := t_kernel_stack_top nt\<rparr>"
    by (rule schedule_next_Inr [OF r c1(2)]) (use c1 cur in simp_all)
  have ct: "ct = t0\<lparr>t_sleep_until := ?u\<rparr>" using i(2) len cur by (simp add: s1_def)
  have ne: "current s' \<noteq> current s"
  proof
    assume "current s' = current s"
    then have "nt = ct\<lparr>t_state := Sleeping\<rparr>" using i(3) c1 cur by simp
    with i(4) show False by simp
  qed
  define t where "t = t0\<lparr>t_sleep_until := ?u, t_state := Sleeping\<rparr>"
  have ts': "tasks s' = (tasks s1)[current s1 := Some (ct\<lparr>t_state := Sleeping\<rparr>), current s' := Some (nt\<lparr>t_state := Running\<rparr>)]"
    by (subst s') simp
  have tk: "ticks s' = ticks s" by (subst s') (simp add: c1)
  have at: "tasks s' ! current s = Some t" unfolding ts' using ne cur c1 ct by (simp add: t_def)
  have l': "current s < length (tasks s')" unfolding ts' using c1 cur by simp
  have ut: "unat (t_sleep_until t) = unat (ticks s) + max (unat ms) 1"
    using assms(4) ms_to_ticks_exact [OF assms(3)] by (simp add: t_def unat_word_ariths)
  have lt: "ticks s' < t_sleep_until t" unfolding tk word_less_nat_alt ut by simp
  have st: "t_state t = Sleeping" by (simp add: t_def)
  have n64: "unat (ticks s') + n < 2 ^ 64" using assms(5) by (simp add: tk)
  have "tasks ((tick_wake ^^ n) s') ! current s = Some (if n < max (unat ms) 1 then t else t\<lparr>t_state := Ready\<rparr>)"
    using tick_wake_iter [OF l' at st n64 lt] unfolding ut tk by simp
  with at st show ?thesis by blast
qed

lemma w_sched_sleep: "\<exists>s'. sched_sleep 5 (w_sched False) = Inr s'"
  unfolding sched_sleep_def by (rule switch_possible [OF w_sched_inv, of 1])
    (simp_all add: MAX_TASKS_def w_sched_def w_task_def is_ready_def)

theorem sleep_duration_witness:
  "\<exists>s' t. sched_sleep 5 (w_sched False) = Inr s' \<and> tasks ((tick_wake ^^ 4) s') ! 0 = Some t \<and> t_state t = Sleeping \<and>
     tasks ((tick_wake ^^ 5) s') ! 0 = Some (t\<lparr>t_state := Ready\<rparr>)"
proof -
  obtain s' where s': "sched_sleep 5 (w_sched False) = Inr s'" using w_sched_sleep by blast
  have c: "current (w_sched False) = 0" "ticks (w_sched False) = 7" by (simp_all add: w_sched_def)
  obtain t where t: "tasks s' ! 0 = Some t" "t_state t = Sleeping" "tasks ((tick_wake ^^ 4) s') ! 0 = Some t"
    using sleep_duration [OF w_sched_inv s', of 4] unfolding c by auto
  moreover have "tasks ((tick_wake ^^ 5) s') ! 0 = Some (t\<lparr>t_state := Ready\<rparr>)"
    using sleep_duration [OF w_sched_inv s', of 5] t(1) unfolding c by auto
  ultimately show ?thesis using s' by blast
qed

end
