(* ===== verification/Ipc.thy ===== *)
theory Ipc
  imports Cap Sched
begin

text \<open>
  Messages between domains, \<open>kernel/src/ipc.rs\<close>. Each domain has a mailbox, a list of messages.
  The functions take the capability table, the mailboxes and the scheduler state as arguments.

  \<open>receive\<close> and \<open>call\<close> block inside a loop. Each pass through the loop is a definition of its own
  (\<open>ipc_receive\<close>, \<open>ipc_call\<close> up to the first block, \<open>ipc_call_resume\<close> after each wake-up): a result
  \<open>None\<close> means that the task has blocked, the scheduler has switched to another task, and the next
  pass starts when the task runs again.
\<close>

section \<open>Mailboxes\<close>

definition PAYLOAD_LEN :: nat where
  "PAYLOAD_LEN = 96"

definition MAILBOX_CAP :: nat where
  "MAILBOX_CAP = 16"

definition CALL_POLL_MS :: u64 where
  "CALL_POLL_MS = 200"

record message =
  m_from :: u64
  m_to :: u64
  m_tag :: u64
  m_payload :: "u8 list"

type_synonym mailboxes = "message list list"

definition ipc_init :: "nat \<Rightarrow> mailboxes" where
  "ipc_init domain_count = replicate domain_count []"

definition set_mailbox :: "u64 \<Rightarrow> message list \<Rightarrow> mailboxes \<Rightarrow> mailboxes" where
  "set_mailbox d b boxes = set_row (unat d) [] b boxes"

definition ipc_add_domain :: "u64 \<Rightarrow> mailboxes \<Rightarrow> mailboxes" where
  "ipc_add_domain d boxes = set_mailbox d [] boxes"

definition ipc_remove_domain :: "u64 \<Rightarrow> mailboxes \<Rightarrow> mailboxes" where
  "ipc_remove_domain d boxes = set_mailbox d [] boxes"

text \<open>The message built by \<open>send\<close>, \<open>deliver\<close>, \<open>call\<close> and \<open>reply\<close>: the payload is cut or zero filled to 96 bytes.\<close>

definition make_message :: "u64 \<Rightarrow> u64 \<Rightarrow> u64 \<Rightarrow> u8 list \<Rightarrow> message" where
  "make_message frm to tag payload =
     (let n = min (length payload) PAYLOAD_LEN
      in \<lparr>m_from = frm, m_to = to, m_tag = tag, m_payload = take n payload @ replicate (PAYLOAD_LEN - n) 0\<rparr>)"

definition mb_push :: "message \<Rightarrow> message list \<Rightarrow> bool \<times> message list" where
  "mb_push msg mbox = (if MAILBOX_CAP \<le> length mbox then (False, mbox) else (True, mbox @ [msg]))"

definition mb_pop :: "message list \<Rightarrow> message option \<times> message list" where
  "mb_pop mbox = (case mbox of [] \<Rightarrow> (None, []) | msg # rest \<Rightarrow> (Some msg, rest))"

section \<open>Operations\<close>

definition ipc_deliver ::
    "u64 \<Rightarrow> u64 \<Rightarrow> u64 \<Rightarrow> u8 list \<Rightarrow> mailboxes \<Rightarrow> sched \<Rightarrow> (bool \<times> mailboxes \<times> sched) res" where
  "ipc_deliver frm to tag payload boxes s =
     bind_res (index_res boxes (unat to)) (\<lambda>mbox.
       case mb_push (make_message frm to tag payload) mbox of
         (ok, mbox') \<Rightarrow> Inr (ok, boxes[unat to := mbox'], if ok then wake_one to s else s))"

definition ipc_send ::
    "u64 \<Rightarrow> u64 \<Rightarrow> u8 list \<Rightarrow> cap_state \<Rightarrow> mailboxes \<Rightarrow> sched \<Rightarrow> (bool \<times> mailboxes \<times> sched) res" where
  "ipc_send to tag payload caps boxes s =
     bind_res (current_domain s) (\<lambda>frm.
     bind_res (cap_has frm (SendTo to) caps) (\<lambda>allowed.
       if \<not> allowed then Inr (False, boxes, s)
       else bind_res (index_res boxes (unat to)) (\<lambda>mbox.
         case mb_push (make_message frm to tag payload) mbox of
           (ok, mbox') \<Rightarrow> Inr (ok, boxes[unat to := mbox'], if ok then wake_one to s else s))))"

definition ipc_receive :: "mailboxes \<Rightarrow> sched \<Rightarrow> (message option \<times> mailboxes \<times> sched) res" where
  "ipc_receive boxes s =
     bind_res (current_domain s) (\<lambda>me.
     bind_res (index_res boxes (unat me)) (\<lambda>mbox.
       case mb_pop mbox of
         (Some msg, mbox') \<Rightarrow>
           bind_res (set_current_reply_target (m_from msg) s) (\<lambda>s'. Inr (Some msg, boxes[unat me := mbox'], s'))
       | (None, mbox') \<Rightarrow> bind_res (block_current me s) (\<lambda>s'. Inr (None, boxes, s'))))"

definition ipc_try_receive :: "mailboxes \<Rightarrow> sched \<Rightarrow> (message option \<times> mailboxes \<times> sched) res" where
  "ipc_try_receive boxes s =
     bind_res (current_domain s) (\<lambda>me.
     bind_res (index_res boxes (unat me)) (\<lambda>mbox.
       case mb_pop mbox of
         (Some msg, mbox') \<Rightarrow>
           bind_res (set_current_reply_target (m_from msg) s) (\<lambda>s'. Inr (Some msg, boxes[unat me := mbox'], s'))
       | (None, mbox') \<Rightarrow> Inr (None, boxes, s)))"

definition ipc_failed :: message where
  "ipc_failed = \<lparr>m_from = 0, m_to = 0, m_tag = U64_MAX, m_payload = replicate PAYLOAD_LEN 0\<rparr>"

definition ipc_call ::
    "u64 \<Rightarrow> u64 \<Rightarrow> u8 list \<Rightarrow> cap_state \<Rightarrow> mailboxes \<Rightarrow> sched \<Rightarrow> (message option \<times> mailboxes \<times> sched) res" where
  "ipc_call to tag payload caps boxes s =
     bind_res (current_domain s) (\<lambda>me.
     bind_res (cap_has me (SendTo to) caps) (\<lambda>allowed.
       if \<not> allowed then Inr (Some ipc_failed, boxes, s)
       else if live_tasks to s = 0 then Inr (Some ipc_failed, boxes, s)
       else bind_res (index_res boxes (unat to)) (\<lambda>mbox.
         bind_res (block_current_timeout_ms me CALL_POLL_MS (wake_one to s)) (\<lambda>s'.
           Inr (None, boxes[unat to := mbox @ [make_message me to tag payload]], s')))))"

text \<open>The body of the waiting loop of \<open>call\<close> after \<open>block_current_timeout_ms\<close> has returned, and the next block.\<close>

definition ipc_call_resume :: "u64 \<Rightarrow> mailboxes \<Rightarrow> sched \<Rightarrow> (message option \<times> mailboxes \<times> sched) res" where
  "ipc_call_resume to boxes s =
     bind_res (current_domain s) (\<lambda>me.
     bind_res (index_res boxes (unat me)) (\<lambda>mbox.
       case find_index (\<lambda>m. m_from m = to) mbox of
         Some i \<Rightarrow> Inr (Some (mbox ! i), boxes[unat me := take i mbox @ drop (Suc i) mbox], s)
       | None \<Rightarrow>
           if live_tasks to s = 0 then Inr (Some ipc_failed, boxes, s)
           else bind_res (block_current_timeout_ms me CALL_POLL_MS s) (\<lambda>s'. Inr (None, boxes, s'))))"

definition ipc_reply :: "u64 \<Rightarrow> u8 list \<Rightarrow> mailboxes \<Rightarrow> sched \<Rightarrow> (bool \<times> mailboxes \<times> sched) res" where
  "ipc_reply tag payload boxes s =
     bind_res (current_domain s) (\<lambda>me.
     bind_res (current_reply_target s) (\<lambda>target.
       if target = U64_MAX then Inr (False, boxes, s)
       else bind_res (index_res boxes (unat target)) (\<lambda>mbox.
         Inr (True, boxes[unat target := mbox @ [make_message me target tag payload]], wake_one target s))))"

section \<open>Contracts\<close>

definition mailbox_row :: "mailboxes \<Rightarrow> u64 \<Rightarrow> message list" where
  "mailbox_row boxes d = row_or [] boxes (unat d)"

interpretation mailbox_rows: per_domain_table mailbox_row ipc_remove_domain "[]"
  by unfold_locales (auto simp: mailbox_row_def ipc_remove_domain_def set_mailbox_def row_or_set_row)

interpretation mailbox: bounded_fifo "\<lambda>q. q" mb_push mb_pop MAILBOX_CAP "\<lambda>q. True"
  by unfold_locales (auto simp: mb_push_def mb_pop_def)

lemma length_make_payload [simp]: "length (m_payload (make_message f t g p)) = PAYLOAD_LEN"
  by (simp add: make_message_def Let_def)

lemma make_message_simps [simp]:
  "m_from (make_message f t g p) = f" "m_to (make_message f t g p) = t" "m_tag (make_message f t g p) = g"
  by (simp_all add: make_message_def Let_def)

lemma make_payload_nth:
  "i < PAYLOAD_LEN \<Longrightarrow> m_payload (make_message f t g p) ! i = (if i < length p then p ! i else 0)"
  by (auto simp: make_message_def Let_def nth_append)

section \<open>Scheduler facts\<close>

lemma wake_one_frame [simp]:
  "length (tasks (wake_one d s)) = length (tasks s)" "current (wake_one d s) = current s" "ticks (wake_one d s) = ticks s"
  by (simp_all add: wake_one_def split: option.splits)

lemma wake_one_sole:
  assumes "i < length (tasks s)" and "waits_on d (tasks s ! i)" and "\<And>j. j < length (tasks s) \<Longrightarrow> waits_on d (tasks s ! j) \<Longrightarrow> j = i"
  shows "tasks (wake_one d s) = (tasks s)[i := wake_task (tasks s ! i)]"
proof -
  have "find_index (waits_on d) (tasks s) = Some i"
    unfolding find_index_Some_iff using assms by (metis less_trans nat_neq_iff)
  then show ?thesis by (simp add: wake_one_def)
qed

lemma wake_one_other:
  assumes "i < length (tasks s)" and "\<not> waits_on d (tasks s ! i)"
  shows "tasks (wake_one d s) ! i = tasks s ! i"
  using assms by (auto simp: wake_one_def find_index_Some_iff nth_list_update split: option.splits)

lemma current_domain_task: "current_domain s = Inr d \<longleftrightarrow>
    (\<exists>t. current s < length (tasks s) \<and> tasks s ! current s = Some t \<and> t_domain t = d)"
  by (auto simp: current_domain_def current_task_def bind_res_Inr_iff index_res_Inr_iff split: option.splits)

lemma set_reply_target_ok:
  assumes "current s < length (tasks s)" and "tasks s ! current s = Some t"
  shows "set_current_reply_target x s = Inr (s\<lparr>tasks := (tasks s)[current s := Some (t\<lparr>t_reply_target := x\<rparr>)]\<rparr>)"
  using assms by (simp add: set_current_reply_target_def with_current_def)

section \<open>Runs\<close>

text \<open>What the rest of the kernel may do to the scheduler between message operations: anything that
  keeps, per slot, the domain and the reply target, or starts a fresh task.\<close>

definition reply_stable :: "sched \<Rightarrow> sched \<Rightarrow> bool" where
  "reply_stable s s' \<longleftrightarrow> length (tasks s') = length (tasks s) \<and>
     (\<forall>u. Some u \<in> set (tasks s') \<longrightarrow> t_reply_target u = U64_MAX \<or>
         (\<exists>t. Some t \<in> set (tasks s) \<and> t_domain t = t_domain u \<and> t_reply_target t = t_reply_target u))"

inductive ipc_step :: "cap_state \<Rightarrow> (u64 \<times> u64) set \<Rightarrow> mailboxes \<times> sched \<Rightarrow> mailboxes \<times> sched \<Rightarrow> bool" for caps posts where
  step_send: "ipc_send to tag p caps boxes s = Inr (r, boxes', s') \<Longrightarrow> ipc_step caps posts (boxes, s) (boxes', s')"
| step_receive: "ipc_receive boxes s = Inr (m, boxes', s') \<Longrightarrow> ipc_step caps posts (boxes, s) (boxes', s')"
| step_try_receive: "ipc_try_receive boxes s = Inr (m, boxes', s') \<Longrightarrow> ipc_step caps posts (boxes, s) (boxes', s')"
| step_call: "ipc_call to tag p caps boxes s = Inr (m, boxes', s') \<Longrightarrow> ipc_step caps posts (boxes, s) (boxes', s')"
| step_resume: "ipc_call_resume to boxes s = Inr (m, boxes', s') \<Longrightarrow> ipc_step caps posts (boxes, s) (boxes', s')"
| step_reply: "ipc_reply tag p boxes s = Inr (r, boxes', s') \<Longrightarrow> ipc_step caps posts (boxes, s) (boxes', s')"
| step_deliver: "(frm, to) \<in> posts \<Longrightarrow> ipc_deliver frm to tag p boxes s = Inr (r, boxes', s') \<Longrightarrow>
    ipc_step caps posts (boxes, s) (boxes', s')"
| step_other: "reply_stable s s' \<Longrightarrow> ipc_step caps posts (boxes, s) (boxes, s')"

text \<open>Nothing from \<open>f\<close> waits in the mailbox of \<open>d\<close>, and no task of \<open>f\<close> may reply to \<open>d\<close>.\<close>

definition quiet :: "u64 \<Rightarrow> u64 \<Rightarrow> mailboxes \<times> sched \<Rightarrow> bool" where
  "quiet f d c \<longleftrightarrow> (\<forall>m \<in> set (mailbox_row (fst c) d). m_from m \<noteq> f) \<and>
     (\<forall>t. Some t \<in> set (tasks (snd c)) \<and> t_domain t = f \<longrightarrow> t_reply_target t \<noteq> d)"

lemma quiet_boxes:
  assumes "quiet f d (boxes, s)" and "set (mailbox_row boxes' d) \<subseteq> set (mailbox_row boxes d) \<union> {m. m_from m \<noteq> f}"
    and "reply_stable s s'" and "d \<noteq> U64_MAX"
  shows "quiet f d (boxes', s')"
  unfolding quiet_def
proof (intro conjI ballI allI impI)
  fix m assume "m \<in> set (mailbox_row (fst (boxes', s')) d)"
  then show "m_from m \<noteq> f" using assms(1,2) by (auto simp: quiet_def)
next
  fix u assume "Some u \<in> set (tasks (snd (boxes', s'))) \<and> t_domain u = f"
  then show "t_reply_target u \<noteq> d" using assms(1,3,4) unfolding quiet_def reply_stable_def by (metis snd_conv)
qed

lemma reply_stable_refl [simp]: "reply_stable s s"
  by (auto simp: reply_stable_def)

lemma reply_stable_trans: "reply_stable s t \<Longrightarrow> reply_stable t u \<Longrightarrow> reply_stable s u"
  unfolding reply_stable_def by metis

lemma reply_stable_update:
  assumes "i < length (tasks s)" and "tasks s ! i = Some t" and "t_domain t' = t_domain t" and "t_reply_target t' = t_reply_target t"
    and "tasks s' = (tasks s)[i := Some t']"
  shows "reply_stable s s'"
proof -
  have "Some t \<in> set (tasks s)" using assms(1,2) by (metis nth_mem)
  moreover have "u = t' \<or> Some u \<in> set (tasks s)" if "Some u \<in> set (tasks s')" for u
    using that set_update_subset_insert [of "tasks s" i "Some t'"] unfolding assms(5) by auto
  moreover have "length (tasks s') = length (tasks s)" by (simp add: assms(5))
  ultimately show ?thesis unfolding reply_stable_def using assms(3,4) by metis
qed

lemma reply_stable_wake_one [simp]: "reply_stable s (wake_one d s)"
proof (cases "find_index (waits_on d) (tasks s)")
  case None
  then show ?thesis by (simp add: wake_one_def)
next
  case (Some i)
  then obtain t where "i < length (tasks s)" "tasks s ! i = Some t"
    by (auto simp: find_index_Some_iff waits_on_def split: option.splits)
  then show ?thesis by (rule reply_stable_update) (auto simp: wake_one_def Some wake_task_def \<open>tasks s ! i = Some t\<close>)
qed

lemma reply_stable_schedule_next:
  assumes "schedule_next st s = Inr s'" and "current s < length (tasks s)" and "length (tasks s) = MAX_TASKS"
  shows "reply_stable s s'"
proof -
  obtain i ct nt where i: "current s' = (current s + Suc i) mod MAX_TASKS" "tasks s ! current s = Some ct"
      "(tasks s)[current s := Some (ct\<lparr>t_state := st\<rparr>)] ! current s' = Some nt"
      and s': "s' = s\<lparr>tasks := (tasks s)[current s := Some (ct\<lparr>t_state := st\<rparr>), current s' := Some (nt\<lparr>t_state := Running\<rparr>)],
           current := current s', cpu_cr3 := (if t_cr3 ct \<noteq> t_cr3 nt then t_cr3 nt else cpu_cr3 s),
           cpu_rsp0 := t_kernel_stack_top nt, cpu_kernel_stack_top := t_kernel_stack_top nt\<rparr>"
    by (rule schedule_next_Inr [OF assms(1,3)]) (use assms in simp_all)
  have n: "current s' < MAX_TASKS" unfolding i(1) by (simp add: MAX_TASKS_def)
  let ?m = "s\<lparr>tasks := (tasks s)[current s := Some (ct\<lparr>t_state := st\<rparr>)]\<rparr>"
  have "reply_stable s ?m" by (rule reply_stable_update [OF assms(2) i(2)]) simp_all
  moreover have "reply_stable ?m s'"
    by (rule reply_stable_update [where t = nt and t' = "nt\<lparr>t_state := Running\<rparr>" and i = "current s'"])
      (use n assms(3) i(3) in simp_all, subst s', simp)
  ultimately show ?thesis by (rule reply_stable_trans)
qed

lemma reply_stable_block:
  assumes "bind_res (with_current f s) (schedule_next Blocked) = Inr s'" and "length (tasks s) = MAX_TASKS"
    and "\<And>t. t_domain (f t) = t_domain t \<and> t_reply_target (f t) = t_reply_target t"
  shows "reply_stable s s'"
proof -
  obtain t where t: "current s < length (tasks s)" "tasks s ! current s = Some t"
      and r: "schedule_next Blocked (s\<lparr>tasks := (tasks s)[current s := Some (f t)]\<rparr>) = Inr s'"
    using assms(1) by (auto simp: with_current_def bind_res_Inr_iff index_res_Inr_iff split: option.splits)
  let ?m = "s\<lparr>tasks := (tasks s)[current s := Some (f t)]\<rparr>"
  have "reply_stable s ?m" by (rule reply_stable_update [OF t]) (simp_all add: assms(3))
  moreover have "reply_stable ?m s'" by (rule reply_stable_schedule_next [OF r]) (use t assms(2) in simp_all)
  ultimately show ?thesis by (rule reply_stable_trans)
qed

lemma mailbox_row_update:
  "unat to < length boxes \<Longrightarrow> mailbox_row (boxes[unat to := q]) d = (if d = to then q else mailbox_row boxes d)"
  by (auto simp: mailbox_row_def row_or_update)

lemma mailbox_row_in: "unat d < length boxes \<Longrightarrow> mailbox_row boxes d = boxes ! unat d"
  by (simp add: mailbox_row_def row_or_def)


text \<open>Two domains neither of which may address the other.\<close>

definition apart :: "u64 \<Rightarrow> u64 \<Rightarrow> mailboxes \<times> sched \<Rightarrow> bool" where
  "apart f d c \<longleftrightarrow> length (tasks (snd c)) = MAX_TASKS \<and> quiet f d c \<and> quiet d f c"

lemma apart_boxes:
  assumes "apart f d (boxes, s)" and "reply_stable s s'" and "f \<noteq> U64_MAX" and "d \<noteq> U64_MAX"
    and "set (mailbox_row boxes' d) \<subseteq> set (mailbox_row boxes d) \<union> {m. m_from m \<noteq> f}"
    and "set (mailbox_row boxes' f) \<subseteq> set (mailbox_row boxes f) \<union> {m. m_from m \<noteq> d}"
  shows "apart f d (boxes', s')"
  using assms quiet_boxes unfolding apart_def by (auto simp: reply_stable_def)

text \<open>Adding one message that neither domain sends to the other.\<close>

lemma apart_append:
  fixes to :: u64
  assumes "apart f d (boxes, s)" and "reply_stable s s'" and "f \<noteq> U64_MAX" and "d \<noteq> U64_MAX"
    and "unat to < length boxes" and "\<not> (m_from m = f \<and> to = d)" and "\<not> (m_from m = d \<and> to = f)"
  shows "apart f d (boxes[unat to := boxes ! unat to @ [m]], s')"
  by (rule apart_boxes [OF assms(1-4)]) (use assms(5-7) in \<open>auto simp: mailbox_row_update mailbox_row_in\<close>)

text \<open>Removing messages.\<close>

lemma apart_remove:
  fixes to :: u64
  assumes "apart f d (boxes, s)" and "reply_stable s s'" and "f \<noteq> U64_MAX" and "d \<noteq> U64_MAX"
    and "unat to < length boxes" and "set q \<subseteq> set (boxes ! unat to)"
  shows "apart f d (boxes[unat to := q], s')"
proof (rule apart_boxes [OF assms(1-4)])
  have "set (mailbox_row (boxes[unat to := q]) e) \<subseteq> set (mailbox_row boxes e)" for e
    unfolding mailbox_row_update [OF assms(5)] using assms(6) mailbox_row_in [OF assms(5)] by simp
  then show "set (mailbox_row (boxes[unat to := q]) d) \<subseteq> set (mailbox_row boxes d) \<union> {m. m_from m \<noteq> f}"
    "set (mailbox_row (boxes[unat to := q]) f) \<subseteq> set (mailbox_row boxes f) \<union> {m. m_from m \<noteq> d}" by blast+
qed

text \<open>Taking a message records its sender as the reply target.\<close>

lemma apart_take:
  assumes "apart f d (boxes, s)" and "f \<noteq> U64_MAX" and "d \<noteq> U64_MAX" and "current_domain s = Inr me"
    and "unat me < length boxes" and "boxes ! unat me = msg # q" and "set_current_reply_target (m_from msg) s = Inr s'"
  shows "apart f d (boxes[unat me := q], s')"
proof -
  obtain t where t: "current s < length (tasks s)" "tasks s ! current s = Some t" "t_domain t = me"
    using assms(4) by (auto simp: current_domain_task)
  have s': "s' = s\<lparr>tasks := (tasks s)[current s := Some (t\<lparr>t_reply_target := m_from msg\<rparr>)]\<rparr>"
    using assms(7) set_reply_target_ok [OF t(1,2)] by simp
  have u: "u = t\<lparr>t_reply_target := m_from msg\<rparr> \<or> Some u \<in> set (tasks s)" if "Some u \<in> set (tasks s')" for u
    using that set_update_subset_insert [of "tasks s" "current s" "Some (t\<lparr>t_reply_target := m_from msg\<rparr>)"] unfolding s' by auto
  have msg: "msg \<in> set (mailbox_row boxes me)" using assms(5,6) by (simp add: mailbox_row_in)
  have "apart f d (boxes[unat me := q], s)"
    by (rule apart_remove [OF assms(1) _ assms(2,3,5)]) (auto simp: assms(6))
  then have q: "\<forall>m \<in> set (mailbox_row (boxes[unat me := q]) d). m_from m \<noteq> f"
      "\<forall>m \<in> set (mailbox_row (boxes[unat me := q]) f). m_from m \<noteq> d" by (simp_all add: apart_def quiet_def)
  have r: "t_reply_target x \<noteq> d'" if "Some x \<in> set (tasks s')" "t_domain x = f'" "quiet f' d' (boxes, s)" "quiet d' f' (boxes, s)" for x f' d'
    using u [OF that(1)] that(2-4) msg t(3) by (auto simp: quiet_def)
  show ?thesis using assms(1) q r unfolding apart_def quiet_def [of _ _ "(boxes[unat me := q], s')"] by (auto simp: s')
qed

lemma ipc_step_apart:
  assumes "ipc_step caps posts c c'" and "apart f d c" and "f \<noteq> U64_MAX" and "d \<noteq> U64_MAX"
    and "SendTo d \<notin> held caps f" and "SendTo f \<notin> held caps d" and "(f, d) \<notin> posts" and "(d, f) \<notin> posts"
  shows "apart f d c'"
  using assms(1)
proof cases
  case (step_send to tag p boxes s r boxes' s')
  note ap = assms(2) [unfolded step_send(1)]
  obtain me where me: "current_domain s = Inr me" using step_send(3) by (auto simp: ipc_send_def bind_res_Inr_iff)
  consider "boxes' = boxes" "s' = s"
    | "unat to < length boxes" "boxes' = boxes[unat to := boxes ! unat to @ [make_message me to tag p]]" "s' = wake_one to s" "SendTo to \<in> held caps me"
    using step_send(3) me
    by (auto simp: ipc_send_def bind_res_Inr_iff index_res_Inr_iff mb_push_def cap_has_def held_iff split: if_splits)
  then show ?thesis
  proof cases
    case 1
    then show ?thesis using ap step_send(2) by simp
  next
    case 2
    show ?thesis unfolding step_send(2) 2(2,3)
      by (rule apart_append [OF ap _ assms(3,4) 2(1)]) (use 2(4) assms(5,6) in auto)
  qed
next
  case (step_receive boxes s m boxes' s')
  note ap = assms(2) [unfolded step_receive(1)]
  obtain me where me: "current_domain s = Inr me" using step_receive(3) by (auto simp: ipc_receive_def bind_res_Inr_iff)
  consider msg q where "unat me < length boxes" "boxes ! unat me = msg # q" "set_current_reply_target (m_from msg) s = Inr s'" "boxes' = boxes[unat me := q]"
    | "boxes' = boxes" "block_current me s = Inr s'"
    using step_receive(3) me by (auto simp: ipc_receive_def bind_res_Inr_iff index_res_Inr_iff mb_pop_def split: list.splits)
  then show ?thesis
  proof cases
    case 1
    then show ?thesis unfolding step_receive(2) 1(4) by (intro apart_take [OF ap assms(3,4) me])
  next
    case 2
    have "reply_stable s s'"
      by (rule reply_stable_block [OF 2(2) [unfolded block_current_def]]) (use ap in \<open>simp_all add: apart_def\<close>)
    then show ?thesis unfolding step_receive(2) 2(1) by (rule apart_boxes [OF ap _ assms(3,4)]) auto
  qed
next
  case (step_try_receive boxes s m boxes' s')
  note ap = assms(2) [unfolded step_try_receive(1)]
  obtain me where me: "current_domain s = Inr me" using step_try_receive(3) by (auto simp: ipc_try_receive_def bind_res_Inr_iff)
  consider msg q where "unat me < length boxes" "boxes ! unat me = msg # q" "set_current_reply_target (m_from msg) s = Inr s'" "boxes' = boxes[unat me := q]"
    | "boxes' = boxes" "s' = s"
    using step_try_receive(3) me by (auto simp: ipc_try_receive_def bind_res_Inr_iff index_res_Inr_iff mb_pop_def split: list.splits)
  then show ?thesis
  proof cases
    case 1
    then show ?thesis unfolding step_try_receive(2) 1(4) by (intro apart_take [OF ap assms(3,4) me])
  next
    case 2
    then show ?thesis using ap step_try_receive(2) by simp
  qed
next
  case (step_call to tag p boxes s m boxes' s')
  note ap = assms(2) [unfolded step_call(1)]
  obtain me where me: "current_domain s = Inr me" using step_call(3) by (auto simp: ipc_call_def bind_res_Inr_iff)
  obtain al where al: "cap_has me (SendTo to) caps = Inr al" using step_call(3) me by (auto simp: ipc_call_def bind_res_Inr_iff)
  then have hl: "al \<Longrightarrow> SendTo to \<in> held caps me" by (auto simp: cap_has_def bind_res_Inr_iff index_res_Inr_iff held_iff)
  consider "boxes' = boxes" "s' = s"
    | "unat to < length boxes" "boxes' = boxes[unat to := boxes ! unat to @ [make_message me to tag p]]"
      "block_current_timeout_ms me CALL_POLL_MS (wake_one to s) = Inr s'" "SendTo to \<in> held caps me"
  proof (cases "al \<and> live_tasks to s \<noteq> 0")
    case True
    with step_call(3) show thesis by (intro that(2)) (auto simp: ipc_call_def me al bind_res_Inr_iff index_res_Inr_iff hl)
  next
    case False
    with step_call(3) show thesis by (intro that(1)) (auto simp: ipc_call_def me al split: if_splits)
  qed
  then show ?thesis
  proof cases
    case 1
    then show ?thesis using ap step_call(2) by simp
  next
    case 2
    have "reply_stable (wake_one to s) s'"
      by (rule reply_stable_block [OF 2(3) [unfolded block_current_timeout_ms_def]]) (use ap in \<open>simp_all add: apart_def\<close>)
    then have "reply_stable s s'" by (rule reply_stable_trans [OF reply_stable_wake_one])
    then show ?thesis unfolding step_call(2) 2(2)
      by (rule apart_append [OF ap _ assms(3,4) 2(1)]) (use 2(4) assms(5,6) in auto)
  qed
next
  case (step_resume to boxes s m boxes' s')
  note ap = assms(2) [unfolded step_resume(1)]
  obtain me where me: "current_domain s = Inr me" using step_resume(3) by (auto simp: ipc_call_resume_def bind_res_Inr_iff)
  consider i where "unat me < length boxes" "boxes' = boxes[unat me := take i (boxes ! unat me) @ drop (Suc i) (boxes ! unat me)]" "s' = s"
    | "boxes' = boxes" "s' = s" | "boxes' = boxes" "block_current_timeout_ms me CALL_POLL_MS s = Inr s'"
    using step_resume(3) me
    by (auto simp: ipc_call_resume_def bind_res_Inr_iff index_res_Inr_iff split: if_splits option.splits)
  then show ?thesis
  proof cases
    case 1
    show ?thesis unfolding step_resume(2) 1(2,3)
      by (rule apart_remove [OF ap _ assms(3,4) 1(1)]) (auto dest: in_set_takeD in_set_dropD)
  next
    case 2
    then show ?thesis using ap step_resume(2) by simp
  next
    case 3
    have "reply_stable s s'"
      by (rule reply_stable_block [OF 3(2) [unfolded block_current_timeout_ms_def]]) (use ap in \<open>simp_all add: apart_def\<close>)
    then show ?thesis unfolding step_resume(2) 3(1) by (rule apart_boxes [OF ap _ assms(3,4)]) auto
  qed
next
  case (step_reply tag p boxes s r boxes' s')
  note ap = assms(2) [unfolded step_reply(1)]
  obtain t where t: "current s < length (tasks s)" "tasks s ! current s = Some t" and me: "current_domain s = Inr (t_domain t)"
    using step_reply(3) by (auto simp: ipc_reply_def bind_res_Inr_iff current_domain_task)
  have tin: "Some t \<in> set (tasks s)" using t by (metis nth_mem)
  have rt: "current_reply_target s = Inr (t_reply_target t)" using t by (simp add: current_reply_target_def current_task_def)
  consider "boxes' = boxes" "s' = s"
    | "unat (t_reply_target t) < length boxes"
      "boxes' = boxes[unat (t_reply_target t) := boxes ! unat (t_reply_target t) @ [make_message (t_domain t) (t_reply_target t) tag p]]"
      "s' = wake_one (t_reply_target t) s"
  proof (cases "t_reply_target t = U64_MAX")
    case True
    with step_reply(3) show thesis by (intro that(1)) (simp_all add: ipc_reply_def me rt)
  next
    case False
    with step_reply(3) show thesis by (intro that(2)) (auto simp: ipc_reply_def me rt bind_res_Inr_iff index_res_Inr_iff)
  qed
  then show ?thesis
  proof cases
    case 1
    then show ?thesis using ap step_reply(2) by simp
  next
    case 2
    show ?thesis unfolding step_reply(2) 2(2,3)
      by (rule apart_append [OF ap _ assms(3,4) 2(1)]) (use ap tin in \<open>auto simp: apart_def quiet_def\<close>)
  qed
next
  case (step_deliver frm to tag p boxes s r boxes' s')
  note ap = assms(2) [unfolded step_deliver(1)]
  consider "boxes' = boxes" "s' = s"
    | "unat to < length boxes" "boxes' = boxes[unat to := boxes ! unat to @ [make_message frm to tag p]]" "s' = wake_one to s"
    using step_deliver(4) by (auto simp: ipc_deliver_def bind_res_Inr_iff index_res_Inr_iff mb_push_def split: if_splits)
  then show ?thesis
  proof cases
    case 1
    then show ?thesis using ap step_deliver(2) by simp
  next
    case 2
    show ?thesis unfolding step_deliver(2) 2(2,3)
      by (rule apart_append [OF ap _ assms(3,4) 2(1)]) (use step_deliver(3) assms(7,8) in auto)
  qed
next
  case (step_other s s' boxes)
  show ?thesis unfolding step_other(2)
    by (rule apart_boxes [OF assms(2) [unfolded step_other(1)] step_other(3) assms(3,4)]) auto
qed

lemma reply_target_self [simp]:
  assumes "current s < length (tasks s)" and "tasks s ! current s = Some t"
  shows "current_domain s = Inr (t_domain t)" "current_reply_target s = Inr (t_reply_target t)"
  using assms by (simp_all add: current_domain_def current_reply_target_def current_task_def)

lemma drop_appended: "take (length xs) (xs @ [x]) @ drop (Suc (length xs)) (xs @ [x]) = xs"
  by simp

lemma find_index_append_new:
  "\<forall>x \<in> set xs. \<not> P x \<Longrightarrow> P y \<Longrightarrow> find_index P (xs @ [y]) = Some (length xs)"
  by (induction xs) auto

section \<open>Properties\<close>

text \<open>
  C22: isolation of message passing. If neither of two domains holds the capability to send to the
  other, and the kernel itself posts no fault message between them, then whatever sends, calls,
  receives and replies any tasks perform, in any order and under any capability changes that keep
  this so, no message of one ever gets into the mailbox of the other.
\<close>

theorem ipc_isolation:
  assumes "(\<lambda>c c'. \<exists>caps posts. ipc_step caps posts c c' \<and> SendTo d \<notin> held caps f \<and> SendTo f \<notin> held caps d \<and>
      (f, d) \<notin> posts \<and> (d, f) \<notin> posts)\<^sup>*\<^sup>* c c'"
    and "apart f d c" and "f \<noteq> U64_MAX" and "d \<noteq> U64_MAX"
  shows "(\<forall>m \<in> set (mailbox_row (fst c') d). m_from m \<noteq> f) \<and> (\<forall>m \<in> set (mailbox_row (fst c') f). m_from m \<noteq> d)"
proof -
  from assms(1) have "apart f d c'"
  proof induction
    case base
    then show ?case by (rule assms(2))
  next
    case (step c1 c2)
    then show ?case using ipc_step_apart assms(3,4) by blast
  qed
  then show ?thesis by (simp add: apart_def quiet_def)
qed

definition w_send_caps :: cap_state where
  "w_send_caps = \<lparr>cap_table = [Some (SendTo 2) # replicate 31 None, replicate CAP_SLOTS None, replicate CAP_SLOTS None],
     handle_table = replicate 3 (replicate HANDLE_SLOTS None)\<rparr>"

lemma w_sched_current [simp]:
  "current (w_sched False) < length (tasks (w_sched False))" "tasks (w_sched False) ! current (w_sched False) = Some (w_task 0 Running)"
  "current (w_sched True) < length (tasks (w_sched True))" "tasks (w_sched True) ! current (w_sched True) = Some (w_task 1 Running)"
  by (simp_all add: w_sched_def)

lemma w_task_simps [simp]: "t_domain (w_task d st) = d" "t_reply_target (w_task d st) = U64_MAX" "t_state (w_task d st) = st"
  by (simp_all add: w_task_def)

lemma w_sched_wake [simp]: "wake_one d (w_sched b) = w_sched b"
proof -
  have "find_index (waits_on d) (tasks (w_sched b)) = None"
    unfolding find_index_None_iff by (auto simp: w_sched_def w_task_def waits_on_def)
  then show ?thesis by (simp add: wake_one_def)
qed

lemma w_send_held: "held w_send_caps d = (if d = 0 then {SendTo 2} else {})"
  by (auto simp: held_def cap_row_def row_or_def w_send_caps_def CAP_SLOTS_def nth_Cons unat_eq_0 split: nat.splits)

theorem ipc_isolation_witness:
  "ipc_send 2 9 [] w_send_caps [[], [], []] (w_sched False) =
     Inr (True, [[], [], [make_message 0 2 9 []]], w_sched False) \<and>
   1 \<notin> m_from ` set (mailbox_row [[], [], [make_message 0 2 9 []]] 2)"
proof -
  have h: "cap_has 0 (SendTo 2) w_send_caps = Inr True" by (simp add: cap_has_def w_send_caps_def CAP_SLOTS_def)
  have s: "ipc_send 2 9 [] w_send_caps [[], [], []] (w_sched False) = Inr (True, [[], [], [make_message 0 2 9 []]], w_sched False)"
    unfolding ipc_send_def by (simp add: h mb_push_def MAILBOX_CAP_def)
  have ap: "apart 1 2 ([[], [], []], w_sched False)"
    by (auto simp: apart_def quiet_def mailbox_row_def row_or_def nth_Cons w_sched_def w_task_def MAX_TASKS_def split: nat.splits)
  have st: "ipc_step w_send_caps {} ([[], [], []], w_sched False) ([[], [], [make_message 0 2 9 []]], w_sched False)"
    by (rule step_send [OF s])
  have "(\<lambda>c c'. \<exists>caps posts. ipc_step caps posts c c' \<and> SendTo 2 \<notin> held caps 1 \<and> SendTo 1 \<notin> held caps 2 \<and>
      (1, 2) \<notin> posts \<and> (2, 1) \<notin> posts)\<^sup>*\<^sup>* ([[], [], []], w_sched False) ([[], [], [make_message 0 2 9 []]], w_sched False)"
    by (rule r_into_rtranclp, rule exI [of _ w_send_caps], rule exI [of _ "{}"]) (use st in \<open>simp add: w_send_held\<close>)
  from ipc_isolation [OF this ap] s show ?thesis by auto
qed


definition w_blocked :: sched where
  "w_blocked = (w_sched True)\<lparr>tasks := (tasks (w_sched True))[0 := Some (w_task 0 Blocked)]\<rparr>"

lemma w_block: "block_current 0 (w_sched False) = Inr w_blocked"
  by code_simp


text \<open>
  C24: a call returns the reply. When a client's \<open>call\<close> blocks, the server, its mailbox empty before,
  receives exactly the client's request with the client as sender. When the server then replies, the
  client's waiting loop returns exactly that reply, and all mailboxes are as they were before the call.
\<close>

theorem call_reply_roundtrip:
  assumes "current_domain s0 = Inr me" and "ipc_call to tag p caps boxes s0 = Inr (None, boxes1, s1)"
    and "boxes ! unat to = []" and "\<forall>m \<in> set (boxes ! unat me). m_from m \<noteq> to" and "unat me < length boxes"
    and "me \<noteq> to" and "me \<noteq> U64_MAX"
    and "current_domain s2 = Inr to" and "current_domain s5 = Inr me"
  shows "SendTo to \<in> held caps me \<and>
    (\<exists>boxes2 s3 boxes3 s4. ipc_receive boxes1 s2 = Inr (Some (make_message me to tag p), boxes2, s3) \<and>
       ipc_reply rtag rp boxes2 s3 = Inr (True, boxes3, s4) \<and>
       ipc_call_resume to boxes3 s5 = Inr (Some (make_message to me rtag rp), boxes, s5))"
proof -
  obtain al where al: "cap_has me (SendTo to) caps = Inr al" using assms(1,2) by (auto simp: ipc_call_def bind_res_Inr_iff)
  then have ok: "al" "live_tasks to s0 \<noteq> 0" using assms(1,2) by (auto simp: ipc_call_def split: if_splits)
  then have to: "unat to < length boxes" and b1: "boxes1 = boxes[unat to := [make_message me to tag p]]"
    using assms(1-3) al by (auto simp: ipc_call_def bind_res_Inr_iff index_res_Inr_iff)
  have held: "SendTo to \<in> held caps me" using al ok(1) by (auto simp: cap_has_def bind_res_Inr_iff index_res_Inr_iff held_iff)
  obtain t where t: "current s2 < length (tasks s2)" "tasks s2 ! current s2 = Some t" "t_domain t = to"
    using assms(8) by (auto simp: current_domain_task)
  let ?s3 = "s2\<lparr>tasks := (tasks s2)[current s2 := Some (t\<lparr>t_reply_target := me\<rparr>)]\<rparr>"
  have bi: "boxes1[unat to := []] = boxes" unfolding b1 using assms(3) to by (metis list_update_overwrite list_update_id)
  have r: "ipc_receive boxes1 s2 = Inr (Some (make_message me to tag p), boxes, ?s3)"
    unfolding ipc_receive_def using assms(8) to
    by (simp add: b1 mb_pop_def set_reply_target_ok [OF t(1,2)]) (use bi b1 in simp)
  have t3: "current ?s3 < length (tasks ?s3)" "tasks ?s3 ! current ?s3 = Some (t\<lparr>t_reply_target := me\<rparr>)" using t by simp_all
  let ?m = "make_message to me rtag rp" and ?q = "boxes ! unat me"
  have p: "ipc_reply rtag rp boxes ?s3 = Inr (True, boxes[unat me := ?q @ [?m]], wake_one me ?s3)"
    unfolding ipc_reply_def reply_target_self [OF t3] using assms(5,7) t(3) by simp
  have f: "find_index (\<lambda>m. m_from m = to) (?q @ [?m]) = Some (length ?q)"
    by (rule find_index_append_new) (use assms(4) in simp_all)
  have "ipc_call_resume to (boxes[unat me := ?q @ [?m]]) s5 = Inr (Some ?m, boxes[unat me := ?q], s5)"
    unfolding ipc_call_resume_def using assms(5,9) by (simp add: f)
  then show ?thesis using held r p by (metis list_update_id)
qed

definition w_call_caps :: cap_state where
  "w_call_caps = \<lparr>cap_table = [Some (SendTo 1) # replicate 31 None, replicate CAP_SLOTS None],
     handle_table = replicate 2 (replicate HANDLE_SLOTS None)\<rparr>"

lemma w_call:
  assumes "length boxes = 2"
  shows "\<exists>s1. ipc_call 1 9 [] w_call_caps boxes (w_sched False) =
    Inr (None, boxes[1 := boxes ! 1 @ [make_message 0 1 9 []]], s1)"
proof -
  have h: "cap_has 0 (SendTo 1) w_call_caps = Inr True" by (simp add: cap_has_def w_call_caps_def)
  have l: "live_tasks 1 (w_sched False) \<noteq> 0" by (simp add: live_tasks_def w_sched_def w_task_def live_in_def)
  have "\<exists>s'. block_current_timeout_ms 0 CALL_POLL_MS (w_sched False) = Inr s'"
    unfolding block_current_timeout_ms_def by (rule switch_possible [OF w_sched_inv, of 1])
      (simp_all add: MAX_TASKS_def w_sched_def w_task_def is_ready_def)
  then show ?thesis unfolding ipc_call_def using assms by (auto simp: h l)
qed

theorem call_reply_roundtrip_witness:
  "\<exists>boxes1 s1 boxes2 s3 boxes3 s4.
     ipc_call 1 9 [] w_call_caps [[], []] (w_sched False) = Inr (None, boxes1, s1) \<and>
     ipc_receive boxes1 (w_sched True) = Inr (Some (make_message 0 1 9 []), boxes2, s3) \<and>
     ipc_reply 5 [7] boxes2 s3 = Inr (True, boxes3, s4) \<and>
     ipc_call_resume 1 boxes3 (w_sched False) = Inr (Some (make_message 1 0 5 [7]), [[], []], w_sched False)"
proof -
  obtain s1 where c: "ipc_call 1 9 [] w_call_caps [[], []] (w_sched False) = Inr (None, [[], [make_message 0 1 9 []]], s1)"
    using w_call [of "[[], []]"] by auto
  show ?thesis using call_reply_roundtrip [OF _ c, of 0 "w_sched True" "w_sched False" 5 "[7]"] c by simp
qed



end
