(* ===== verification/Pager.thy ===== *)
theory Pager
  imports Ipc Bytes
begin

text \<open>
  The pager registry, \<open>kernel/src/pager.rs\<close>: for every domain the domain that resolves its page
  faults, and the fault message posted to it.
\<close>

definition FAULT_TAG :: u64 where
  "FAULT_TAG = 0x504641554C54"

record page_fault_info =
  fault_domain :: u64
  fault_addr :: u64
  error_code :: u64

type_synonym pagers = "u64 option list"

definition pager_init :: "nat \<Rightarrow> u64 \<Rightarrow> pagers" where
  "pager_init domain_count pager_domain = replicate domain_count (Some pager_domain)"

definition set_pager :: "u64 \<Rightarrow> u64 option \<Rightarrow> pagers \<Rightarrow> pagers" where
  "set_pager d pager pgs = set_row (unat d) None pager pgs"

definition pager_add_domain :: "u64 \<Rightarrow> u64 \<Rightarrow> pagers \<Rightarrow> pagers" where
  "pager_add_domain d pager_domain pgs = set_pager d (Some pager_domain) pgs"

definition pager_remove_domain :: "u64 \<Rightarrow> pagers \<Rightarrow> pagers" where
  "pager_remove_domain d pgs = set_pager d None pgs"

definition pager_of :: "pagers \<Rightarrow> u64 \<Rightarrow> u64 option" where
  "pager_of pgs d = (case vec_get pgs (unat d) of None \<Rightarrow> None | Some p \<Rightarrow> p)"

text \<open>The 24 bytes of the \<open>#[repr(C)]\<close> struct.\<close>

definition fault_bytes :: "page_fault_info \<Rightarrow> u8 list" where
  "fault_bytes info = u64_bytes (fault_domain info) @ u64_bytes (fault_addr info) @ u64_bytes (error_code info)"

definition deliver_fault :: "u64 \<Rightarrow> page_fault_info \<Rightarrow> mailboxes \<Rightarrow> sched \<Rightarrow> (mailboxes \<times> sched) res" where
  "deliver_fault pager info boxes s =
     bind_res (ipc_deliver (fault_domain info) pager FAULT_TAG (fault_bytes info) boxes s) (\<lambda>(ok, r). Inr r)"

section \<open>Facts\<close>

interpretation pager_rows: per_domain_table pager_of pager_remove_domain None
proof
  have "pager_of pgs d = row_or None pgs (unat d)" for pgs d
    by (simp add: pager_of_def vec_get_def row_or_def)
  then show "pager_of (pager_remove_domain d pgs) d = None"
      and "e \<noteq> d \<Longrightarrow> pager_of (pager_remove_domain d pgs) e = pager_of pgs e" for d e pgs
    by (simp_all add: pager_remove_domain_def set_pager_def row_or_set_row)
qed

lemma pager_of_add: "pager_of (pager_add_domain d p pgs) e = (if e = d then Some p else pager_of pgs e)"
proof -
  have "pager_of pgs d = row_or None pgs (unat d)" for pgs d
    by (simp add: pager_of_def vec_get_def row_or_def)
  then show ?thesis by (simp add: pager_add_domain_def set_pager_def row_or_set_row)
qed

lemma pager_of_init: "pager_of (pager_init n p) d = (if unat d < n then Some p else None)"
  by (simp add: pager_of_def pager_init_def vec_get_def)

text \<open>The pager reads the fields back from the payload of the message it receives.\<close>

definition decode_fault :: "message \<Rightarrow> page_fault_info" where
  "decode_fault m = \<lparr>fault_domain = bytes_u64 (take 8 (m_payload m)), fault_addr = bytes_u64 (take 8 (drop 8 (m_payload m))),
     error_code = bytes_u64 (take 8 (drop 16 (m_payload m)))\<rparr>"

lemma length_fault_bytes [simp]: "length (fault_bytes info) = 24"
  by (simp add: fault_bytes_def)

lemma decode_fault_message: "decode_fault (make_message f t g (fault_bytes info)) = info"
proof -
  have "m_payload (make_message f t g (fault_bytes info)) =
      u64_bytes (fault_domain info) @ u64_bytes (fault_addr info) @ u64_bytes (error_code info) @ replicate 72 0"
    by (simp add: make_message_def Let_def PAYLOAD_LEN_def fault_bytes_def)
  then show ?thesis by (simp add: decode_fault_def)
qed

end
