(* ===== verification/Irq.thy ===== *)
theory Irq
  imports Ipc
begin

text \<open>
  Interrupt forwarding to user drivers, \<open>kernel/src/irq.rs\<close>: the 16 legacy interrupts become
  messages; the message signalled vectors only set a pending flag and wake the domain that waits
  for them. The wait system calls themselves are in the theory \<open>Syscall\<close>.
\<close>

section \<open>State and operations\<close>

definition MSI_VECTOR_BASE :: u8 where
  "MSI_VECTOR_BASE = 0x50"

definition MSI_VECTOR_COUNT :: u8 where
  "MSI_VECTOR_COUNT = 16"

definition ANY_MAX_DOMAINS :: nat where
  "ANY_MAX_DOMAINS = 64"

record irq_state =
  handlers :: "u64 option list"
  vectors :: "u64 option list"
  pending :: "bool list"
  any_mask :: "u64 list"

definition irq_start :: irq_state where
  "irq_start = \<lparr>handlers = replicate 16 None, vectors = replicate 256 None, pending = replicate 256 False,
     any_mask = replicate ANY_MAX_DOMAINS 0\<rparr>"

definition vector_bit :: "u8 \<Rightarrow> u64 option" where
  "vector_bit vector =
     (if MSI_VECTOR_BASE \<le> vector \<and> vector < MSI_VECTOR_BASE + MSI_VECTOR_COUNT
      then Some (push_bit (unat (vector - MSI_VECTOR_BASE)) 1) else None)"

definition irq_register :: "u8 \<Rightarrow> u64 \<Rightarrow> irq_state \<Rightarrow> irq_state res" where
  "irq_register irq d q =
     (if unat irq < length (handlers q) then Inr (q\<lparr>handlers := (handlers q)[unat irq := Some d]\<rparr>)
      else Inl IndexOutOfBounds)"

definition irq_dispatch :: "u8 \<Rightarrow> u64 \<Rightarrow> irq_state \<Rightarrow> mailboxes \<Rightarrow> sched \<Rightarrow> (mailboxes \<times> sched) res" where
  "irq_dispatch irq dat q boxes s =
     bind_res (index_res (handlers q) (unat irq)) (\<lambda>h.
       case h of
         None \<Rightarrow> Inr (boxes, s)
       | Some d \<Rightarrow> bind_res (ipc_deliver 0 d dat [] boxes s) (\<lambda>(ok, r). Inr r))"

definition register_vector :: "u8 \<Rightarrow> u64 \<Rightarrow> irq_state \<Rightarrow> irq_state" where
  "register_vector vector d q = q\<lparr>vectors := (vectors q)[unat vector := Some d]\<rparr>"

definition is_registered_by :: "u8 \<Rightarrow> u64 \<Rightarrow> irq_state \<Rightarrow> bool" where
  "is_registered_by vector d q \<longleftrightarrow> vectors q ! unat vector = Some d"

text \<open>\<open>MSI_VECTOR_BASE + i\<close> as an index.\<close>

definition msi_slot :: "nat \<Rightarrow> nat" where
  "msi_slot i = unat (MSI_VECTOR_BASE + of_nat i)"

fun take_pending_from :: "nat list \<Rightarrow> u64 \<Rightarrow> u64 \<Rightarrow> irq_state \<Rightarrow> u8 option \<times> irq_state" where
  "take_pending_from [] msk d q = (None, q)"
| "take_pending_from (i # is) msk d q =
     (if msk AND push_bit i 1 = 0 then take_pending_from is msk d q
      else if vectors q ! msi_slot i \<noteq> Some d then take_pending_from is msk d q
      else if pending q ! msi_slot i
           then (Some (MSI_VECTOR_BASE + of_nat i), q\<lparr>pending := (pending q)[msi_slot i := False]\<rparr>)
           else take_pending_from is msk d q)"

definition take_pending_any :: "u64 \<Rightarrow> u64 \<Rightarrow> irq_state \<Rightarrow> u8 option \<times> irq_state" where
  "take_pending_any msk d q = take_pending_from [0..<unat MSI_VECTOR_COUNT] msk d q"

definition set_any_mask :: "u64 \<Rightarrow> u64 \<Rightarrow> irq_state \<Rightarrow> bool \<times> irq_state" where
  "set_any_mask d msk q =
     (if ANY_MAX_DOMAINS \<le> unat d then (False, q) else (True, q\<lparr>any_mask := (any_mask q)[unat d := msk]\<rparr>))"

definition clear_any_mask :: "u64 \<Rightarrow> irq_state \<Rightarrow> irq_state" where
  "clear_any_mask d q = (if unat d < ANY_MAX_DOMAINS then q\<lparr>any_mask := (any_mask q)[unat d := 0]\<rparr> else q)"

definition wake_hits :: "u64 \<Rightarrow> u64 list \<Rightarrow> sched \<Rightarrow> sched" where
  "wake_hits bt masks s =
     fold (\<lambda>d s. if masks ! d AND bt \<noteq> 0 then wake_one (irq_wait_token (of_nat d)) s else s) [0..<length masks] s"

definition set_pending :: "u8 \<Rightarrow> irq_state \<Rightarrow> sched \<Rightarrow> irq_state \<times> sched" where
  "set_pending vector q s =
     (if vectors q ! unat vector = None then (q, s)
      else let q' = q\<lparr>pending := (pending q)[unat vector := True]\<rparr>
           in case vector_bit vector of
                None \<Rightarrow> (q', s)
              | Some bt \<Rightarrow> (q', wake_hits bt (any_mask q') s))"

definition irq_remove_domain :: "u64 \<Rightarrow> irq_state \<Rightarrow> irq_state" where
  "irq_remove_domain d q =
     q\<lparr>any_mask := (if unat d < ANY_MAX_DOMAINS then (any_mask q)[unat d := 0] else any_mask q),
       vectors := map (\<lambda>slot. if slot = Some d then None else slot) (vectors q),
       handlers := map (\<lambda>slot. if slot = Some d then None else slot) (handlers q)\<rparr>"

section \<open>Invariant\<close>

definition irq_wf :: "irq_state \<Rightarrow> bool" where
  "irq_wf q \<longleftrightarrow> length (handlers q) = 16 \<and> length (vectors q) = 256 \<and> length (pending q) = 256 \<and>
     length (any_mask q) = ANY_MAX_DOMAINS"

lemma irq_wf_start: "irq_wf irq_start"
  by (simp add: irq_wf_def irq_start_def)

lemma take_pending_from_wf: "irq_wf q \<Longrightarrow> irq_wf (snd (take_pending_from is msk d q))"
  by (induction "is") (auto simp: irq_wf_def)

lemma irq_wf_preserved:
  assumes "irq_wf q"
  shows "irq_register irq d q = Inr q' \<Longrightarrow> irq_wf q'" and "irq_wf (register_vector v d q)"
    and "irq_wf (snd (take_pending_any msk d q))" and "irq_wf (snd (set_any_mask d msk q))"
    and "irq_wf (clear_any_mask d q)" and "irq_wf (fst (set_pending v q s))" and "irq_wf (irq_remove_domain d q)"
  using assms take_pending_from_wf [OF assms]
  by (auto simp: irq_wf_def irq_register_def register_vector_def take_pending_any_def set_any_mask_def clear_any_mask_def
      set_pending_def irq_remove_domain_def Let_def split: if_splits option.splits)

text \<open>The registrations and the wait mask of one domain.\<close>

definition irq_row :: "irq_state \<Rightarrow> u64 \<Rightarrow> nat set \<times> nat set \<times> u64" where
  "irq_row q d = ({i. i < length (handlers q) \<and> handlers q ! i = Some d}, {i. i < length (vectors q) \<and> vectors q ! i = Some d},
     if unat d < min ANY_MAX_DOMAINS (length (any_mask q)) then any_mask q ! unat d else 0)"

interpretation irq_rows: per_domain_table irq_row irq_remove_domain "({}, {}, 0)"
  by unfold_locales (auto simp: irq_row_def irq_remove_domain_def nth_list_update split: if_splits)

section \<open>Taking a pending vector\<close>

lemma msi_slot_val: "i < 16 \<Longrightarrow> msi_slot i = 0x50 + i"
  by (simp add: msi_slot_def MSI_VECTOR_BASE_def unat_word_ariths unat_of_nat)

definition takeable :: "u64 \<Rightarrow> u64 \<Rightarrow> irq_state \<Rightarrow> nat \<Rightarrow> bool" where
  "takeable msk d q i \<longleftrightarrow> bit msk i \<and> vectors q ! msi_slot i = Some d \<and> pending q ! msi_slot i"

lemma mask_bit: "(msk :: u64) AND 2 ^ i = 0 \<longleftrightarrow> \<not> bit msk i"
  by (rule and_exp_eq_0_iff_not_bit)

lemma take_pending_from_find:
  "take_pending_from is msk d q =
    (case find_index (takeable msk d q) is of
       None \<Rightarrow> (None, q)
     | Some k \<Rightarrow> (Some (MSI_VECTOR_BASE + of_nat (is ! k)), q\<lparr>pending := (pending q)[msi_slot (is ! k) := False]\<rparr>))"
  by (induction "is") (auto simp: mask_bit takeable_def split: option.splits)

lemma find_upt:
  "find_index P [0..<n] = Some k \<longleftrightarrow> k < n \<and> P k \<and> (\<forall>j < k. \<not> P j)"
  by (auto simp: find_index_Some_iff)

lemma take_pending_any_find:
  "take_pending_any msk d q =
    (case find_index (takeable msk d q) [0..<16] of
       None \<Rightarrow> (None, q)
     | Some k \<Rightarrow> (Some (MSI_VECTOR_BASE + of_nat k), q\<lparr>pending := (pending q)[msi_slot k := False]\<rparr>))"
proof -
  have c: "unat MSI_VECTOR_COUNT = 16" by (simp add: MSI_VECTOR_COUNT_def)
  show ?thesis unfolding take_pending_any_def take_pending_from_find c
    by (cases "find_index (takeable msk d q) [0..<16]") (auto dest!: find_upt [THEN iffD1])
qed

section \<open>Waking\<close>

lemma wake_fold_other:
  assumes "i < length (tasks s)" and "tasks s ! i = Some t" and "\<forall>d \<in> set ds. P d \<longrightarrow> irq_wait_token (of_nat d) \<noteq> t_wait_on t"
  shows "tasks (fold (\<lambda>d s. if P d then wake_one (irq_wait_token (of_nat d)) s else s) ds s) ! i = Some t"
  using assms
proof (induction ds arbitrary: s)
  case (Cons d ds)
  have "tasks (if P d then wake_one (irq_wait_token (of_nat d)) s else s) ! i = Some t"
    using Cons.prems wake_one_other [OF Cons.prems(1), of "irq_wait_token (of_nat d)"] by (auto simp: waits_on_def)
  then show ?case using Cons.IH [of "if P d then wake_one (irq_wait_token (of_nat d)) s else s"] Cons.prems by auto
qed simp

text \<open>A task that is not blocked stays as it is.\<close>

lemma wake_fold_awake:
  assumes "i < length (tasks s)" and "tasks s ! i = Some t" and "t_state t \<noteq> Blocked"
  shows "tasks (fold (\<lambda>d s. if P d then wake_one (irq_wait_token (of_nat d)) s else s) ds s) ! i = Some t"
  using assms
proof (induction ds arbitrary: s)
  case (Cons d ds)
  have "tasks (if P d then wake_one (irq_wait_token (of_nat d)) s else s) ! i = Some t"
    using Cons.prems wake_one_other [OF Cons.prems(1), of "irq_wait_token (of_nat d)"] by (auto simp: waits_on_def)
  then show ?case using Cons.IH [of "if P d then wake_one (irq_wait_token (of_nat d)) s else s"] Cons.prems by auto
qed simp

lemma token_inj: "irq_wait_token a = irq_wait_token b \<longleftrightarrow> a = b"
  by (simp add: irq_wait_token_def)

lemma length_wake_fold [simp]:
  "length (tasks (fold (\<lambda>d s. if P d then wake_one (irq_wait_token (of_nat d)) s else s) ds s)) = length (tasks s)"
  by (induction ds arbitrary: s) auto

lemma wake_one_waits:
  "j < length (tasks s) \<Longrightarrow> waits_on k (tasks (wake_one d s) ! j) \<Longrightarrow> waits_on k (tasks s ! j)"
proof (cases "find_index (waits_on d) (tasks s)")
  case (Some x)
  assume a: "j < length (tasks s)" "waits_on k (tasks (wake_one d s) ! j)"
  then have "j \<noteq> x" using Some by (auto simp: wake_one_def wake_task_def waits_on_def split: option.splits)
  then show ?thesis using a Some by (simp add: wake_one_def)
qed (simp add: wake_one_def)

lemma wake_fold_waits:
  "j < length (tasks s) \<Longrightarrow> waits_on k (tasks (fold (\<lambda>d s. if P d then wake_one (irq_wait_token (of_nat d)) s else s) ds s) ! j) \<Longrightarrow>
     waits_on k (tasks s ! j)"
proof (induction ds arbitrary: s)
  case (Cons d ds)
  have "waits_on k (tasks (if P d then wake_one (irq_wait_token (of_nat d)) s else s) ! j)"
    by (rule Cons.IH) (use Cons.prems in auto)
  then show ?case using wake_one_waits [OF Cons.prems(1)] by (auto split: if_splits)
qed simp

lemma wake_hits_wakes:
  assumes "i < length (tasks s)" and "waits_on (irq_wait_token (of_nat d)) (tasks s ! i)"
    and "\<And>j. j < length (tasks s) \<Longrightarrow> waits_on (irq_wait_token (of_nat d)) (tasks s ! j) \<Longrightarrow> j = i"
    and "d < length masks" and "length masks \<le> 64" and "masks ! d AND bt \<noteq> 0"
  shows "tasks (wake_hits bt masks s) ! i = wake_task (tasks s ! i)"
proof -
  let ?P = "\<lambda>d. masks ! d AND bt \<noteq> 0" and ?w = "irq_wait_token (of_nat d)"
  let ?f = "\<lambda>d s. if ?P d then wake_one (irq_wait_token (of_nat d)) s else s"
  obtain t where t: "tasks s ! i = Some t" "t_state t = Blocked" "t_wait_on t = ?w"
    using assms(2) by (auto simp: waits_on_def split: option.splits)
  have u: "unat (of_nat e :: u64) = e" if "e \<le> d" for e using that assms(4,5) by (intro unat_of_nat_u64) simp
  have ne: "irq_wait_token (of_nat e) \<noteq> ?w" if "e < d" for e
    using u [of e] u [of d] that unfolding token_inj by fastforce
  have spl: "[0..<length masks] = [0..<d] @ d # [Suc d..<length masks]"
    using upt_add_eq_append [of 0 d "length masks - d"] upt_conv_Cons [OF assms(4)] assms(4) by simp
  define s1 where "s1 = fold ?f [0..<d] s"
  have l1: "length (tasks s1) = length (tasks s)" unfolding s1_def by (rule length_wake_fold)
  have s1: "tasks s1 ! i = Some t"
    unfolding s1_def by (rule wake_fold_other [OF assms(1) t(1)]) (use ne t(3) in simp)
  have "tasks (wake_one ?w s1) = (tasks s1)[i := wake_task (tasks s1 ! i)]"
  proof (rule wake_one_sole)
    show "i < length (tasks s1)" using assms(1) l1 by simp
    show "waits_on ?w (tasks s1 ! i)" using s1 t by (simp add: waits_on_def)
    show "j = i" if "j < length (tasks s1)" "waits_on ?w (tasks s1 ! j)" for j
      using assms(3) [of j] wake_fold_waits [of j s ?w ?P "[0..<d]"] that l1 unfolding s1_def by simp
  qed
  then have s2: "tasks (wake_one ?w s1) ! i = Some (t\<lparr>t_state := Ready, t_wake_deadline := 0\<rparr>)"
    using assms(1) l1 s1 by (simp add: wake_task_def)
  have "tasks (fold ?f [Suc d..<length masks] (wake_one ?w s1)) ! i = Some (t\<lparr>t_state := Ready, t_wake_deadline := 0\<rparr>)"
    by (rule wake_fold_awake [OF _ s2]) (use assms(1) l1 in simp_all)
  moreover have "wake_hits bt masks s = fold ?f [Suc d..<length masks] (wake_one ?w s1)"
    unfolding wake_hits_def spl s1_def using assms(6) by simp
  ultimately show ?thesis using t(1) by (simp add: wake_task_def)
qed

section \<open>Properties\<close>


definition w_irqs :: irq_state where
  "w_irqs = register_vector 0x52 0 irq_start"

definition w_irq_sched :: sched where
  "w_irq_sched = w_blocked\<lparr>tasks := (tasks w_blocked)[0 := Some ((w_task 0 Blocked)\<lparr>t_wait_on := irq_wait_token 0\<rparr>)]\<rparr>"


text \<open>
  a poll is exact and stays with the owner. It returns nothing exactly when no vector of the
  mask that the caller has registered is pending; otherwise it returns the first such one and
  clears only its flag. But the flag outlives the owner: when a driver dies with an interrupt
  pending and another domain registers the same vector, that domain is told of an interrupt that
  was not raised for it.
\<close>

theorem poll_exact:
  assumes "irq_wf q"
  shows "(fst (take_pending_any msk d q) = None \<longleftrightarrow> (\<forall>i < 16. \<not> takeable msk d q i)) \<and>
    (\<forall>v. fst (take_pending_any msk d q) = Some v \<longrightarrow>
       (\<exists>i < 16. v = MSI_VECTOR_BASE + of_nat i \<and> takeable msk d q i \<and> (\<forall>j < i. \<not> takeable msk d q j) \<and>
          snd (take_pending_any msk d q) = q\<lparr>pending := (pending q)[0x50 + i := False]\<rparr>)) \<and>
    (\<forall>i < 16. takeable msk d q i \<and> bit msk' i \<longrightarrow>
       takeable msk' e (register_vector (MSI_VECTOR_BASE + of_nat i) e (irq_remove_domain d q)) i)"
proof (intro conjI allI impI)
  show "fst (take_pending_any msk d q) = None \<longleftrightarrow> (\<forall>i < 16. \<not> takeable msk d q i)"
    unfolding take_pending_any_find by (auto simp: find_index_None_iff find_upt split: option.splits)
  show "\<exists>i < 16. v = MSI_VECTOR_BASE + of_nat i \<and> takeable msk d q i \<and> (\<forall>j < i. \<not> takeable msk d q j) \<and>
      snd (take_pending_any msk d q) = q\<lparr>pending := (pending q)[0x50 + i := False]\<rparr>"
    if "fst (take_pending_any msk d q) = Some v" for v
  proof (cases "find_index (takeable msk d q) [0..<16]")
    case None
    with that show ?thesis by (simp add: take_pending_any_find)
  next
    case (Some k)
    then have "k < 16" "takeable msk d q k" "\<forall>j < k. \<not> takeable msk d q j" unfolding find_upt by auto
    then show ?thesis using that Some by (intro exI [of _ k]) (simp add: take_pending_any_find msi_slot_val)
  qed
  show "takeable msk' e (register_vector (MSI_VECTOR_BASE + of_nat i) e (irq_remove_domain d q)) i"
    if "i < 16" "takeable msk d q i \<and> bit msk' i" for i
    using that assms msi_slot_val [OF that(1)] unfolding takeable_def register_vector_def msi_slot_def [symmetric]
    by (simp add: irq_remove_domain_def irq_wf_def)
qed

theorem poll_exact_witness:
  "fst (take_pending_any 0xF 0 (fst (set_pending 0x52 w_irqs w_irq_sched))) = Some 0x52"
proof -
  let ?q = "fst (set_pending 0x52 w_irqs w_irq_sched)"
  have q: "vectors ?q = (replicate 256 None)[0x52 := Some 0]" "pending ?q = (replicate 256 False)[0x52 := True]" 
    by (simp_all add: set_pending_def w_irqs_def register_vector_def irq_start_def Let_def split: option.splits)
  have wf: "irq_wf ?q" by (simp add: w_irqs_def irq_wf_preserved irq_wf_start)
  have t: "takeable 0xF 0 ?q 2" by (simp add: takeable_def q msi_slot_val bit_iff_odd)
  have n: "\<not> takeable 0xF 0 ?q j" if "j < 16" "j \<noteq> 2" for j using that by (simp add: takeable_def q msi_slot_val)
  note ex = poll_exact [OF wf, of "0xF" 0 0 0]
  have "fst (take_pending_any 0xF 0 ?q) \<noteq> None" using ex t by (metis numeral_less_iff semiring_norm(76) semiring_norm(78))
  then obtain v where v: "fst (take_pending_any 0xF 0 ?q) = Some v" by blast
  then obtain i where i: "i < 16" "v = MSI_VECTOR_BASE + of_nat i" "takeable 0xF 0 ?q i" using ex by blast
  with n i have "i = 2" by blast
  with v i(2) show ?thesis by (simp add: MSI_VECTOR_BASE_def)
qed

end
