(* ===== verification/Net.thy ===== *)
theory Net
  imports Cap Paging Bytes
begin

text \<open>
  Network port ownership and the table of network cards, \<open>kernel/src/net.rs\<close>.
\<close>

section \<open>Port bindings\<close>

definition MAX_BINDINGS :: nat where
  "MAX_BINDINGS = 64"

record binding =
  b_domain :: u64
  b_port :: u16

type_synonym bindings = "binding list"

definition net_init :: bindings where
  "net_init = []"

definition net_bind :: "u64 \<Rightarrow> u16 \<Rightarrow> cap_state \<Rightarrow> bindings \<Rightarrow> bool \<times> bindings" where
  "net_bind d port caps b =
     (if \<not> has_net_port d port caps then (False, b)
      else if \<exists>x \<in> set b. b_port x = port then (\<exists>x \<in> set b. b_port x = port \<and> b_domain x = d, b)
      else if MAX_BINDINGS \<le> length b then (False, b)
      else (True, b @ [\<lparr>b_domain = d, b_port = port\<rparr>]))"

definition net_owner :: "u16 \<Rightarrow> bindings \<Rightarrow> u64" where
  "net_owner port b = (case find (\<lambda>x. b_port x = port) b of None \<Rightarrow> U64_MAX | Some x \<Rightarrow> b_domain x)"

definition net_remove_domain :: "u64 \<Rightarrow> bindings \<Rightarrow> bindings" where
  "net_remove_domain d b = filter (\<lambda>x. b_domain x \<noteq> d) b"

section \<open>The card table\<close>

definition NIC_TABLE_VADDR :: u64 where
  "NIC_TABLE_VADDR = USER_SPACE_BASE + 0x850000"

definition NIC_TABLE_MAGIC :: u64 where
  "NIC_TABLE_MAGIC = 0x004E494354423031"

definition NIC_MAX :: nat where
  "NIC_MAX = 8"

record nic_entry =
  nic_domain :: u64
  nic_io_vaddr :: u64
  nic_kind :: u64

record nic_table =
  nt_magic :: u64
  nt_count :: u64
  nt_entries :: "nic_entry list"

definition nic_entry_bytes :: "nic_entry \<Rightarrow> u8 list" where
  "nic_entry_bytes e = u64_bytes (nic_domain e) @ u64_bytes (nic_io_vaddr e) @ u64_bytes (nic_kind e)"

definition nic_table_bytes :: "nic_table \<Rightarrow> u8 list" where
  "nic_table_bytes t = u64_bytes (nt_magic t) @ u64_bytes (nt_count t) @ concat (map nic_entry_bytes (nt_entries t))"

definition build_nic_table :: "nic_entry list \<Rightarrow> nic_table" where
  "build_nic_table es =
     (let n = min (length es) NIC_MAX
      in \<lparr>nt_magic = NIC_TABLE_MAGIC, nt_count = of_nat n,
          nt_entries = take n es @ replicate (NIC_MAX - n) \<lparr>nic_domain = 0, nic_io_vaddr = 0, nic_kind = 0\<rparr>\<rparr>)"

definition publish_nic_table ::
    "mapper \<Rightarrow> domains \<Rightarrow> u64 \<Rightarrow> nic_entry list \<Rightarrow> mem \<Rightarrow> phys \<Rightarrow> (bool \<times> mem \<times> phys) res" where
  "publish_nic_table mp doms netstack_domain es m ph =
     (case allocate_frame (frames m) of
        None \<Rightarrow> Inr (False, m, ph)
      | Some (paddr, fr) \<Rightarrow>
          bind_res (map_user_page mp doms netstack_domain NIC_TABLE_VADDR paddr ReadOnly (m\<lparr>frames := fr\<rparr>)) (\<lambda>m'.
            Inr (True, m', write_bytes paddr (nic_table_bytes (build_nic_table es)) ph)))"

definition nic_io_vaddr_of :: "u64 \<Rightarrow> u64" where
  "nic_io_vaddr_of index = USER_SPACE_BASE + 0x1A0000 + index * 0x1000"

section \<open>Facts\<close>

definition binds_wf :: "bindings \<Rightarrow> bool" where
  "binds_wf b \<longleftrightarrow> distinct (map b_port b) \<and> length b \<le> MAX_BINDINGS \<and> (\<forall>x \<in> set b. b_domain x \<noteq> U64_MAX)"

lemma net_owner_iff:
  assumes "binds_wf b" and "d \<noteq> U64_MAX"
  shows "net_owner port b = d \<longleftrightarrow> \<lparr>b_domain = d, b_port = port\<rparr> \<in> set b"
proof (cases "find (\<lambda>x. b_port x = port) b")
  case None
  have "net_owner port b = U64_MAX" unfolding net_owner_def None by simp
  moreover have "\<forall>x \<in> set b. b_port x \<noteq> port" using None unfolding find_None_iff by blast
  ultimately show ?thesis using assms(2) by auto
next
  case (Some x)
  then have x: "x \<in> set b" "b_port x = port" by (auto simp: find_Some_iff)
  have u: "y = x" if "y \<in> set b" "b_port y = port" for y
    using assms(1) that x by (metis binds_wf_def distinct_map inj_onD)
  have o: "net_owner port b = b_domain x" unfolding net_owner_def Some by simp
  have e: "x = \<lparr>b_domain = b_domain x, b_port = port\<rparr>" using x(2) by (metis binding.surjective old.unit.exhaust)
  show ?thesis unfolding o
  proof
    assume "b_domain x = d"
    with e x(1) show "\<lparr>b_domain = d, b_port = port\<rparr> \<in> set b" by metis
  next
    assume "\<lparr>b_domain = d, b_port = port\<rparr> \<in> set b"
    from u [OF this] show "b_domain x = d" by force
  qed
qed

lemma net_owner_free: "binds_wf b \<Longrightarrow> net_owner port b = U64_MAX \<longleftrightarrow> (\<forall>x \<in> set b. b_port x \<noteq> port)"
  by (auto simp: net_owner_def binds_wf_def find_None_iff find_Some_iff split: option.splits)

lemma net_owner_append:
  "net_owner port (b @ [x]) = (if \<exists>y \<in> set b. b_port y = port then net_owner port b else if b_port x = port then b_domain x else U64_MAX)"
  by (induction b) (auto simp: net_owner_def)

lemma binds_wf_bind: "binds_wf b \<Longrightarrow> d \<noteq> U64_MAX \<Longrightarrow> binds_wf (snd (net_bind d port caps b))"
  by (auto simp: binds_wf_def net_bind_def)

lemma binds_wf_remove: "binds_wf b \<Longrightarrow> binds_wf (net_remove_domain d b)"
  unfolding binds_wf_def net_remove_domain_def
  by (auto simp: distinct_map inj_on_def intro: le_trans [OF length_filter_le])

section \<open>Property\<close>

text \<open>
  C27: ports are owned exclusively. With the table well formed (one owner per port, no more than 64),
  \<open>bind\<close> succeeds exactly when the caller holds a network capability covering the port and the port is
  either its own already or free with room left in the table. Then the caller is the owner; no other
  port changes hands, a failed \<open>bind\<close> changes nothing, and the table stays well formed. Removing a
  domain frees exactly its ports.
\<close>

theorem bind_exclusive:
  assumes "binds_wf b" and "d \<noteq> U64_MAX"
  shows "fst (net_bind d port caps b) = (has_net_port d port caps \<and>
        (net_owner port b = d \<or> net_owner port b = U64_MAX \<and> length b < MAX_BINDINGS)) \<and>
    (\<forall>p. net_owner p (snd (net_bind d port caps b)) =
        (if p = port \<and> fst (net_bind d port caps b) then d else net_owner p b)) \<and>
    binds_wf (snd (net_bind d port caps b)) \<and>
    (\<forall>p. net_owner p (net_remove_domain d b) = (if net_owner p b = d then U64_MAX else net_owner p b))"
proof (intro conjI allI)
  have some: "(\<exists>x \<in> set b. b_port x = port) \<longleftrightarrow> net_owner port b \<noteq> U64_MAX" using net_owner_free [OF assms(1)] by blast
  have mine: "(\<exists>x \<in> set b. b_port x = port \<and> b_domain x = d) \<longleftrightarrow> net_owner port b = d"
    unfolding net_owner_iff [OF assms] by (auto intro: bexI [of _ "\<lparr>b_domain = d, b_port = port\<rparr>"]) (metis (full_types) binding.cases binding.select_convs)
  show "fst (net_bind d port caps b) = (has_net_port d port caps \<and>
        (net_owner port b = d \<or> net_owner port b = U64_MAX \<and> length b < MAX_BINDINGS))"
    unfolding net_bind_def some mine using assms(2) by auto
  show "net_owner p (snd (net_bind d port caps b)) = (if p = port \<and> fst (net_bind d port caps b) then d else net_owner p b)" for p
    unfolding net_bind_def some mine using net_owner_free [OF assms(1), of p] by (auto simp: net_owner_append)
  show "binds_wf (snd (net_bind d port caps b))" by (rule binds_wf_bind [OF assms])
  fix p
  note wf' = binds_wf_remove [OF assms(1), of d]
  show "net_owner p (net_remove_domain d b) = (if net_owner p b = d then U64_MAX else net_owner p b)"
  proof (cases "net_owner p b = U64_MAX")
    case True
    then have "net_owner p (net_remove_domain d b) = U64_MAX"
      using net_owner_free [OF assms(1)] net_owner_free [OF wf'] by (auto simp: net_remove_domain_def)
    then show ?thesis using True by simp
  next
    case False
    note i = net_owner_iff [OF assms(1) False, of p]
    show ?thesis
    proof (cases "net_owner p b = d")
      case True
      have "b_port x \<noteq> p" if "x \<in> set (net_remove_domain d b)" for x
      proof
        assume px: "b_port x = p"
        have x: "x \<in> set b" "b_domain x \<noteq> d" using that by (simp_all add: net_remove_domain_def)
        have "b_domain x \<noteq> U64_MAX" using x assms(1) by (simp add: binds_wf_def)
        from net_owner_iff [OF assms(1) this, of p] x px True show False by (cases x) simp
      qed
      then show ?thesis using net_owner_free [OF wf'] True by simp
    next
      case ne: False
      have "\<lparr>b_domain = net_owner p b, b_port = p\<rparr> \<in> set (net_remove_domain d b)" using i ne by (simp add: net_remove_domain_def)
      then show ?thesis using net_owner_iff [OF wf' False, of p] ne by simp
    qed
  qed
qed

definition w_net_caps :: cap_state where
  "w_net_caps = \<lparr>cap_table = [Some (Net 80 81) # replicate 31 None], handle_table = [replicate HANDLE_SLOTS None]\<rparr>"

theorem bind_exclusive_witness:
  "net_bind 0 81 w_net_caps [] = (True, [\<lparr>b_domain = 0, b_port = 81\<rparr>]) \<and>
   net_owner 81 [\<lparr>b_domain = 0, b_port = 81\<rparr>] = 0 \<and> \<not> fst (net_bind 0 82 w_net_caps [])"
proof -
  have h: "has_net_port 0 81 w_net_caps" "\<not> has_net_port 0 82 w_net_caps"
    by (simp_all add: has_net_port_def w_net_caps_def net_port_in_range_def vec_get_def list_ex_iff)
  have wf: "binds_wf []" by (simp add: binds_wf_def)
  have b: "net_bind 0 81 w_net_caps [] = (True, [\<lparr>b_domain = 0, b_port = 81\<rparr>])" using h by (simp add: net_bind_def MAX_BINDINGS_def)
  show ?thesis
    using bind_exclusive [OF wf, of 0 81 w_net_caps] bind_exclusive [OF wf, of 0 82 w_net_caps] b h by simp
qed

end
