(* ===== verification/Domain.thy ===== *)
theory Domain
  imports Mapper Pager Irq Net Key Klog
begin

text \<open>
  Protection domains, \<open>kernel/src/domain.rs\<close>, and the state of the whole kernel. The domain table maps
  ids to page table roots; the other components keep one row per domain id. Creating and destroying
  a domain therefore touches all of them, which is why the record \<open>kernel_state\<close> is introduced here.
  The two scheduler operations that call back into the domain table, \<open>tick\<close> and \<open>exit_current\<close>, are
  completed in this theory.
\<close>

section \<open>The kernel state\<close>

record kernel_state =
  k_caps :: cap_state
  k_mem :: mem
  k_phys :: phys
  k_doms :: domains
  k_reclaim :: "u64 list"
  k_boxes :: mailboxes
  k_pagers :: pagers
  k_irqs :: irq_state
  k_sched :: sched
  k_binds :: bindings
  k_keys :: key_queue
  k_log :: log_state

section \<open>The domain table\<close>

definition USER_SPACE_P4_INDEX :: nat where
  "USER_SPACE_P4_INDEX = 1"

definition BOOT_DOMAINS :: u64 where
  "BOOT_DOMAINS = 26"

definition is_boot :: "u64 \<Rightarrow> bool" where
  "is_boot d \<longleftrightarrow> d < BOOT_DOMAINS"

definition slot_for :: "domains \<Rightarrow> nat" where
  "slot_for doms = (case find_index (\<lambda>slot. slot = None) doms of Some i \<Rightarrow> i | None \<Rightarrow> length doms)"

text \<open>\<open>Domain::new\<close>: a fresh root with the kernel entries of the current root (CR3).\<close>

definition copy_kernel_entries :: "u64 \<Rightarrow> u64 \<Rightarrow> tables \<Rightarrow> tables" where
  "copy_kernel_entries src dst pt =
     fold (\<lambda>i pt. if i = USER_SPACE_P4_INDEX then pt
                  else if \<not> is_unused (pt src i) then set_entry dst i (pt src i) pt else pt) [0..<512] pt"

definition domain_new :: "u64 \<Rightarrow> u64 \<Rightarrow> mem \<Rightarrow> (domain \<times> mem) res" where
  "domain_new d cr3 m =
     (case allocate_frame (frames m) of
        None \<Rightarrow> Inl ExpectFailed
      | Some (pml4, fr) \<Rightarrow>
          Inr (\<lparr>dom_id = d, dom_pml4 = pml4\<rparr>,
               m\<lparr>frames := fr, ptabs := copy_kernel_entries cr3 pml4 (zero_table pml4 (ptabs m))\<rparr>))"

definition domain_create :: "kernel_state \<Rightarrow> (u64 \<times> kernel_state) res" where
  "domain_create k =
     (let d = of_nat (slot_for (k_doms k)) in
      bind_res (domain_new d (cpu_cr3 (k_sched k)) (k_mem k)) (\<lambda>(dm, m).
        Inr (d, k\<lparr>k_mem := m,
                  k_doms := (case vec_get (k_doms k) (unat d) of
                               Some _ \<Rightarrow> (k_doms k)[unat d := Some dm]
                             | None \<Rightarrow> k_doms k @ [Some dm])\<rparr>)))"

definition is_alive :: "domains \<Rightarrow> u64 \<Rightarrow> bool" where
  "is_alive doms d = (case vec_get doms (unat d) of None \<Rightarrow> False | Some slot \<Rightarrow> slot \<noteq> None)"

definition alive_count :: "domains \<Rightarrow> nat" where
  "alive_count doms = length (filter (\<lambda>slot. slot \<noteq> None) doms)"

definition domain_destroy :: "u64 \<Rightarrow> kernel_state \<Rightarrow> bool \<times> kernel_state" where
  "domain_destroy d k =
     (case vec_get (k_doms k) (unat d) of
        None \<Rightarrow> (False, k)
      | Some None \<Rightarrow> (False, k)
      | Some (Some dm) \<Rightarrow>
          (True, k\<lparr>k_doms := (k_doms k)[unat d := None],
                   k_mem := free_table (dom_pml4 dm) (free_user_space (dom_pml4 dm) (k_mem k)),
                   k_caps := cap_remove_domain d (k_caps k),
                   k_boxes := ipc_remove_domain d (k_boxes k),
                   k_pagers := pager_remove_domain d (k_pagers k),
                   k_irqs := irq_remove_domain d (k_irqs k),
                   k_sched := sched_remove_domain d (k_sched k)\<rparr>))"

definition domain_reset :: "u64 \<Rightarrow> kernel_state \<Rightarrow> bool \<times> kernel_state" where
  "domain_reset d k =
     (case vec_get (k_doms k) (unat d) of
        None \<Rightarrow> (False, k)
      | Some None \<Rightarrow> (False, k)
      | Some (Some dm) \<Rightarrow> (True, k\<lparr>k_mem := free_user_space (dom_pml4 dm) (k_mem k)\<rparr>))"

definition request_destroy :: "u64 \<Rightarrow> kernel_state \<Rightarrow> kernel_state" where
  "request_destroy d k = (if is_boot d then k else k\<lparr>k_reclaim := k_reclaim k @ [d]\<rparr>)"

lemma domain_destroy_reclaim [simp]: "k_reclaim (snd (domain_destroy d k)) = k_reclaim k"
  by (simp add: domain_destroy_def split: option.splits)

function reclaim_pending :: "kernel_state \<Rightarrow> kernel_state" where
  "reclaim_pending k =
     (if k_reclaim k = [] then k
      else reclaim_pending (snd (domain_destroy (last (k_reclaim k)) (k\<lparr>k_reclaim := butlast (k_reclaim k)\<rparr>))))"
  by pat_completeness auto
termination
  by (relation "measure (\<lambda>k. length (k_reclaim k))") auto

declare reclaim_pending.simps [simp del]

section \<open>Scheduler operations that reach the domain table\<close>

definition lift_sched :: "(sched \<Rightarrow> sched res) \<Rightarrow> kernel_state \<Rightarrow> kernel_state res" where
  "lift_sched f k = bind_res (f (k_sched k)) (\<lambda>s. Inr (k\<lparr>k_sched := s\<rparr>))"

definition tick :: "kernel_state \<Rightarrow> kernel_state res" where
  "tick k =
     (let k' = reclaim_pending k
      in lift_sched (schedule_next Ready) (k'\<lparr>k_sched := tick_wake (k_sched k')\<rparr>))"

definition exit_current :: "kernel_state \<Rightarrow> kernel_state res" where
  "exit_current k =
     bind_res (current_domain (k_sched k)) (\<lambda>d.
       let k' = (if live_tasks d (k_sched k) \<le> 1 then request_destroy d k else k)
       in lift_sched (schedule_next Terminated) k')"

section \<open>Fresh address spaces\<close>

lemma copy_fold:
  assumes "dst \<noteq> src" and "distinct is"
  shows "fold (\<lambda>i pt. if i = USER_SPACE_P4_INDEX then pt
                  else if \<not> is_unused (pt src i) then set_entry dst i (pt src i) pt else pt) is pt a j =
    (if a = dst \<and> j \<in> set is \<and> j \<noteq> 1 \<and> \<not> is_unused (pt src j) then pt src j else pt a j)"
  using assms
proof (induction "is" arbitrary: pt)
  case (Cons i "is")
  define pt1 where "pt1 = (if i = USER_SPACE_P4_INDEX then pt else if \<not> is_unused (pt src i) then set_entry dst i (pt src i) pt else pt)"
  have src: "pt1 src j = pt src j" for j using Cons.prems(1) by (simp add: pt1_def set_entry_def)
  have "pt1 a j = (if a = dst \<and> j = i \<and> j \<noteq> 1 \<and> \<not> is_unused (pt src j) then pt src j else pt a j)"
    by (auto simp: pt1_def set_entry_def USER_SPACE_P4_INDEX_def)
  then show ?case using Cons.IH [of pt1] Cons.prems src by (auto simp: pt1_def)
qed simp

lemma copy_kernel_entries_eq:
  assumes "dst \<noteq> src"
  shows "copy_kernel_entries src dst pt a j =
    (if a = dst \<and> j < 512 \<and> j \<noteq> 1 \<and> \<not> is_unused (pt src j) then pt src j else pt a j)"
  unfolding copy_kernel_entries_def by (subst copy_fold) (use assms in auto)

lemma slot_for_free:
  "slot_for doms \<le> length doms \<and> (slot_for doms < length doms \<longrightarrow> doms ! slot_for doms = None) \<and>
     (\<forall>i < slot_for doms. doms ! i \<noteq> None)"
  by (auto simp: slot_for_def find_index_None_iff find_index_Some_iff split: option.splits)

lemma domain_create_Inr:
  assumes "domain_create k = Inr (d, k')" and "length (k_doms k) < 2 ^ 64"
  obtains root fr where "unat d = slot_for (k_doms k)" and "allocate_frame (frames (k_mem k)) = Some (root, fr)"
    and "vec_get (k_doms k') (unat d) = Some (Some \<lparr>dom_id = d, dom_pml4 = root\<rparr>)"
    and "\<And>j. j \<noteq> unat d \<Longrightarrow> vec_get (k_doms k') j = vec_get (k_doms k) j"
    and "k_mem k' = (k_mem k)\<lparr>frames := fr, ptabs := copy_kernel_entries (cpu_cr3 (k_sched k)) root (zero_table root (ptabs (k_mem k)))\<rparr>"
    and "k_reclaim k' = k_reclaim k" and "k_binds k' = k_binds k" and "k_caps k' = k_caps k"
proof -
  note sl = slot_for_free [of "k_doms k"]
  have d: "d = of_nat (slot_for (k_doms k))" using assms(1) by (auto simp: domain_create_def Let_def bind_res_Inr_iff)
  have u: "unat d = slot_for (k_doms k)" unfolding d using sl assms(2) by (intro unat_of_nat_u64) simp
  obtain root fr where al: "allocate_frame (frames (k_mem k)) = Some (root, fr)"
    using assms(1) by (cases "allocate_frame (frames (k_mem k))") (auto simp: domain_create_def domain_new_def Let_def)
  let ?dm = "\<lparr>dom_id = d, dom_pml4 = root\<rparr>"
  define doms' where "doms' = (case vec_get (k_doms k) (unat d) of Some _ \<Rightarrow> (k_doms k)[unat d := Some ?dm] | None \<Rightarrow> k_doms k @ [Some ?dm])"
  have k': "k' = k\<lparr>k_mem := (k_mem k)\<lparr>frames := fr, ptabs := copy_kernel_entries (cpu_cr3 (k_sched k)) root (zero_table root (ptabs (k_mem k)))\<rparr>,
      k_doms := doms'\<rparr>"
    using assms(1) al unfolding domain_create_def domain_new_def Let_def d [symmetric] doms'_def by simp
  show thesis
  proof (rule that [OF u al])
    show "vec_get (k_doms k') (unat d) = Some (Some ?dm)"
      using sl unfolding k' doms'_def u by (cases "slot_for (k_doms k) < length (k_doms k)") (auto simp: vec_get_def nth_append)
    show "vec_get (k_doms k') j = vec_get (k_doms k) j" if "j \<noteq> unat d" for j
      using sl that unfolding k' doms'_def u by (cases "slot_for (k_doms k) < length (k_doms k)") (auto simp: vec_get_def nth_append)
  qed (simp_all add: k')
qed

section \<open>Reclaiming\<close>

lemma is_alive_destroy: "is_alive (k_doms (snd (domain_destroy d k))) e \<longleftrightarrow> e \<noteq> d \<and> is_alive (k_doms k) e"
  by (auto simp: domain_destroy_def is_alive_def vec_get_def nth_list_update split: option.splits)

lemma destroy_ok_iff: "fst (domain_destroy d k) \<longleftrightarrow> is_alive (k_doms k) d"
  by (auto simp: domain_destroy_def is_alive_def split: option.splits)

lemma domain_destroy_reclaim_update:
  "domain_destroy d (k\<lparr>k_reclaim := r\<rparr>) = (fst (domain_destroy d k), (snd (domain_destroy d k))\<lparr>k_reclaim := r\<rparr>)"
  by (simp add: domain_destroy_def split: option.splits)

lemma reclaim_pending_snoc:
  "reclaim_pending (k\<lparr>k_reclaim := ds @ [d]\<rparr>) = reclaim_pending ((snd (domain_destroy d k))\<lparr>k_reclaim := ds\<rparr>)"
  by (subst reclaim_pending.simps) (simp add: domain_destroy_reclaim_update)

lemma reclaim_pending_fold:
  "reclaim_pending (k\<lparr>k_reclaim := ds\<rparr>) = (fold (\<lambda>d k. snd (domain_destroy d k)) (rev ds) k)\<lparr>k_reclaim := []\<rparr>"
proof (induction ds arbitrary: k rule: rev_induct)
  case Nil
  show ?case by (subst reclaim_pending.simps) simp
next
  case (snoc d ds)
  show ?case unfolding reclaim_pending_snoc snoc.IH by simp
qed

lemma reclaim_pending_eq:
  "reclaim_pending k = (fold (\<lambda>d k. snd (domain_destroy d k)) (rev (k_reclaim k)) k)\<lparr>k_reclaim := []\<rparr>"
  using reclaim_pending_fold [where k = k and ds = "k_reclaim k"] by simp

lemma is_alive_reclaim: "is_alive (k_doms (reclaim_pending k)) e \<longleftrightarrow> e \<notin> set (k_reclaim k) \<and> is_alive (k_doms k) e"
proof -
  have "is_alive (k_doms (fold (\<lambda>d k. snd (domain_destroy d k)) ds k)) e \<longleftrightarrow> e \<notin> set ds \<and> is_alive (k_doms k) e" for ds k
    by (induction ds arbitrary: k) (auto simp: is_alive_destroy)
  then show ?thesis unfolding reclaim_pending_eq by simp
qed

lemma destroy_Some:
  assumes "vec_get (k_doms k) (unat d) = Some (Some dm)"
  shows "domain_destroy d k = (True, k\<lparr>k_doms := (k_doms k)[unat d := None],
     k_mem := free_table (dom_pml4 dm) (free_user_space (dom_pml4 dm) (k_mem k)),
     k_caps := cap_remove_domain d (k_caps k), k_boxes := ipc_remove_domain d (k_boxes k),
     k_pagers := pager_remove_domain d (k_pagers k), k_irqs := irq_remove_domain d (k_irqs k),
     k_sched := sched_remove_domain d (k_sched k)\<rparr>)"
  using assms by (simp add: domain_destroy_def)

lemma sched_remove_nth:
  "i < length (tasks s) \<Longrightarrow> tasks (sched_remove_domain d s) ! i =
     (if in_domain d (tasks s ! i) then None else if waits_on d (tasks s ! i) then wake_task (tasks s ! i) else tasks s ! i)"
  by (auto simp: sched_remove_domain_def waits_on_def)

lemma sched_remove_frame [simp]:
  "length (tasks (sched_remove_domain d s)) = length (tasks s)" "current (sched_remove_domain d s) = current s"
  by (simp_all add: sched_remove_domain_def)

lemma sched_remove_clean:
  assumes "x \<in> set (tasks (sched_remove_domain d s))"
  shows "\<not> in_domain d x \<and> \<not> waits_on d x"
proof -
  obtain i where i: "i < length (tasks s)" "x = tasks (sched_remove_domain d s) ! i"
    using assms by (auto simp: in_set_conv_nth)
  show ?thesis unfolding i(2) sched_remove_nth [OF i(1)]
    by (cases "tasks s ! i") (simp_all add: in_domain_def waits_on_def wake_task_def)
qed

section \<open>A running task whose domain disappears\<close>

lemma destroy_sched_frame [simp]:
  "length (tasks (k_sched (snd (domain_destroy d k)))) = length (tasks (k_sched k))"
  "current (k_sched (snd (domain_destroy d k))) = current (k_sched k)"
  by (simp_all add: domain_destroy_def split: option.splits)

text \<open>The current task is gone, or was in domain \<open>d\<close>, which is alive.\<close>

definition current_doomed :: "u64 \<Rightarrow> kernel_state \<Rightarrow> bool" where
  "current_doomed d k \<longleftrightarrow> tasks (k_sched k) ! current (k_sched k) = None \<or>
     in_domain d (tasks (k_sched k) ! current (k_sched k)) \<and> is_alive (k_doms k) d"

lemma current_doomed_destroy:
  assumes "current (k_sched k) < length (tasks (k_sched k))" and "current_doomed d k"
  shows "current_doomed d (snd (domain_destroy e k))" and "tasks (k_sched (snd (domain_destroy d k))) ! current (k_sched k) = None"
proof -
  have r: "k_sched (snd (domain_destroy e k)) = (if is_alive (k_doms k) e then sched_remove_domain e (k_sched k) else k_sched k)" for e
    by (auto simp: domain_destroy_def is_alive_def split: option.splits)
  have in_e: "in_domain e t \<and> in_domain d t \<longrightarrow> e = d" for e t by (auto simp: in_domain_def split: option.splits)
  show "tasks (k_sched (snd (domain_destroy d k))) ! current (k_sched k) = None"
    using assms unfolding r current_doomed_def by (auto simp: sched_remove_nth in_domain_def waits_on_def)
  show "current_doomed d (snd (domain_destroy e k))"
  proof (cases "e = d")
    case True
    then show ?thesis using \<open>tasks (k_sched (snd (domain_destroy d k))) ! current (k_sched k) = None\<close> by (simp add: current_doomed_def)
  next
    case False
    have keep: "in_domain d (wake_task t) = in_domain d t" for t by (cases t) (simp_all add: wake_task_def in_domain_def)
    show ?thesis using assms(2) False in_e [of e] keep
      unfolding current_doomed_def is_alive_destroy r destroy_sched_frame
      by (auto simp: sched_remove_nth [OF assms(1)] in_domain_def waits_on_def wake_task_def)
  qed
qed

lemma current_doomed_fold:
  assumes "current (k_sched k) < length (tasks (k_sched k))" and "current_doomed d k" and "d \<in> set ds"
  shows "tasks (k_sched (fold (\<lambda>d k. snd (domain_destroy d k)) ds k)) ! current (k_sched k) = None"
  using assms
proof (induction ds arbitrary: k)
  case (Cons e ds)
  let ?k = "snd (domain_destroy e k)"
  have c: "current (k_sched ?k) < length (tasks (k_sched ?k))" using Cons.prems(1) by simp
  show ?case
  proof (cases "e = d")
    case False
    then show ?thesis using Cons.IH [OF c current_doomed_destroy(1) [OF Cons.prems(1,2)]] Cons.prems(3) by simp
  next
    case True
    have n: "tasks (k_sched ?k) ! current (k_sched ?k) = None" using current_doomed_destroy(2) [OF Cons.prems(1,2)] True by simp
    have "tasks (k_sched (fold (\<lambda>d k. snd (domain_destroy d k)) es k')) ! current (k_sched k') = None"
      if "tasks (k_sched k') ! current (k_sched k') = None" "current (k_sched k') < length (tasks (k_sched k'))" for es k'
      using that
    proof (induction es arbitrary: k')
      case (Cons x es)
      have "current_doomed x k'" using Cons.prems(1) by (simp add: current_doomed_def)
      then show ?case using Cons.IH [of "snd (domain_destroy x k')"] Cons.prems current_doomed_destroy(2) [of k' x] by simp
    qed simp
    from this [OF n c, of ds] show ?thesis by simp
  qed
qed simp

lemma schedule_next_no_current:
  assumes "current s < length (tasks s)" and "tasks s ! current s = None"
  shows "schedule_next st s = Inl ExpectFailed"
  using assms by (auto simp: schedule_next_def set_state_def Let_def split: option.splits)

section \<open>A small kernel\<close>

definition w_kernel :: "u64 \<Rightarrow> nat \<Rightarrow> nat list \<Rightarrow> sched \<Rightarrow> kernel_state" where
  "w_kernel root n fs s = \<lparr>k_caps = cap_init n, k_mem = \<lparr>frames = w_frames fs, ptabs = w_tables\<rparr>, k_phys = (\<lambda>_. 0),
     k_doms = map (\<lambda>i. Some \<lparr>dom_id = of_nat i, dom_pml4 = root\<rparr>) [0..<n], k_reclaim = [], k_boxes = ipc_init n,
     k_pagers = pager_init n 2, k_irqs = irq_start, k_sched = s, k_binds = [], k_keys = kq_new, k_log = log_start\<rparr>"

lemma w_kernel_doms:
  "vec_get (k_doms (w_kernel root n fs s)) i = (if i < n then Some (Some \<lparr>dom_id = of_nat i, dom_pml4 = root\<rparr>) else None)"
  by (simp add: w_kernel_def vec_get_def)

lemma w_kernel_simps [simp]:
  "k_reclaim (w_kernel root n fs s) = []" "k_sched (w_kernel root n fs s) = s" "k_binds (w_kernel root n fs s) = []"
  "length (k_doms (w_kernel root n fs s)) = n" "k_mem (w_kernel root n fs s) = \<lparr>frames = w_frames fs, ptabs = w_tables\<rparr>"
  by (simp_all add: w_kernel_def)

lemma domain_create_succeeds:
  "free_set (frames (k_mem k)) \<noteq> {} \<Longrightarrow> \<exists>k'. domain_create k = Inr (of_nat (slot_for (k_doms k)), k')"
  using allocate_frame_None [of "frames (k_mem k)"] by (auto simp: domain_create_def domain_new_def Let_def)

lemma slot_for_full: "\<forall>i < length doms. doms ! i \<noteq> None \<Longrightarrow> slot_for doms = length doms"
  by (meson slot_for_free le_neq_implies_less)

text \<open>Destroying the last domain of a kernel whose root table is empty, then creating one.\<close>

lemma w_kernel_recycle:
  fixes n :: nat and s :: sched
  defines "k \<equiv> w_kernel 0x9000 (Suc n) [16] s"
  assumes "n < 1000"
  shows "\<exists>k1 k2. domain_destroy (of_nat n) (k\<lparr>k_reclaim := r, k_binds := b\<rparr>) = (True, k1) \<and> domain_create k1 = Inr (of_nat n, k2) \<and>
    length (k_doms k1) < 2 ^ 64"
proof -
  let ?k = "k\<lparr>k_reclaim := r, k_binds := b\<rparr>"
  have u: "unat (of_nat n :: u64) = n" using assms(2) by (intro unat_of_nat_u64) simp
  have v: "vec_get (k_doms ?k) (unat (of_nat n :: u64)) = Some (Some \<lparr>dom_id = of_nat n, dom_pml4 = 0x9000\<rparr>)"
    unfolding u k_def using w_kernel_doms [of "0x9000" "Suc n" "[16]" s n] by simp
  obtain k1 where k1: "domain_destroy (of_nat n) ?k = (True, k1)"
      "k_doms k1 = (k_doms k)[n := None]" "k_mem k1 = free_table 0x9000 (free_user_space 0x9000 (k_mem k))"
    unfolding destroy_Some [OF v] u by simp
  have "free_user_space 0x9000 (k_mem k) = k_mem k"
    by (simp add: free_user_space_def k_def w_tables_def is_unused_def unused_pte_def Let_def)
  then have "frames (k_mem k1) = free_frame 0x9000 (w_frames [16])" by (simp add: k1(3) free_table_def k_def)
  moreover have "free_set (w_frames [16]) = {16}" "frames_inv (w_frames [16])" using w_frames_free [of "[16]"] by (simp_all add: managed_limit)
  ultimately have ne: "free_set (frames (k_mem k1)) \<noteq> {}" using free_frame_cases(2) [of "w_frames [16]" "0x9000"] by (auto split: if_splits)
  have ln: "length (k_doms k) = Suc n" by (simp add: k_def)
  have full: "k_doms k ! i \<noteq> None" if "i < Suc n" for i
    using w_kernel_doms [of "0x9000" "Suc n" "[16]" s i] that unfolding k_def by (simp add: vec_get_def)
  note sl = slot_for_free [of "k_doms k1"]
  have "slot_for (k_doms k1) = n"
  proof (rule antisym)
    show "slot_for (k_doms k1) \<le> n" using sl ln by (metis k1(2) length_list_update lessI not_le nth_list_update_eq)
    show "n \<le> slot_for (k_doms k1)" using sl ln full
      by (metis k1(2) length_list_update less_SucI not_less nth_list_update_neq order_less_irrefl)
  qed
  with domain_create_succeeds [OF ne] k1(1) show ?thesis using ln assms(2) by (auto simp: k1(2))
qed

section \<open>Properties\<close>

text \<open>
  C28: a new domain is isolated. Its id was not in use and is the smallest such; it gets a root table in
  a frame that was free; no other domain and no other table changes. In the new root no user address
  translates, so nothing of the creator's user space is visible, while every kernel address
  translates exactly as in the address space the kernel is running in.
\<close>

theorem domain_create_isolated:
  assumes "domain_create k = Inr (d, k')" and "frames_inv (frames (k_mem k))" and "length (k_doms k) < 2 ^ 64"
    and "\<not> frame_is_free (frames (k_mem k)) (cpu_cr3 (k_sched k))"
  shows "\<not> is_alive (k_doms k) d \<and> (\<forall>e < d. is_alive (k_doms k) e) \<and> (\<forall>e. e \<noteq> d \<longrightarrow> vec_get (k_doms k') (unat e) = vec_get (k_doms k) (unat e)) \<and>
    (\<exists>root. pml4_of (k_doms k') d = Inr root \<and> frame_is_free (frames (k_mem k)) root \<and> \<not> frame_is_free (frames (k_mem k')) root \<and>
       (\<forall>a. a \<noteq> root \<longrightarrow> ptabs (k_mem k') a = ptabs (k_mem k) a) \<and>
       (\<forall>v. is_user_address v \<longrightarrow> walk (ptabs (k_mem k')) root v = None) \<and>
       (\<forall>v. \<not> is_user_address v \<longrightarrow> walk (ptabs (k_mem k')) root v = walk (ptabs (k_mem k')) (cpu_cr3 (k_sched k)) v))"
proof -
  let ?cr3 = "cpu_cr3 (k_sched k)" and ?i = "slot_for (k_doms k)" and ?pt = "ptabs (k_mem k)"
  note sl = slot_for_free [of "k_doms k"]
  obtain root fr where u: "unat d = ?i" and al: "allocate_frame (frames (k_mem k)) = Some (root, fr)"
      and at: "vec_get (k_doms k') (unat d) = Some (Some \<lparr>dom_id = d, dom_pml4 = root\<rparr>)"
      and other: "\<And>j. j \<noteq> unat d \<Longrightarrow> vec_get (k_doms k') j = vec_get (k_doms k) j"
      and k': "k_mem k' = (k_mem k)\<lparr>frames := fr, ptabs := copy_kernel_entries ?cr3 root (zero_table root ?pt)\<rparr>"
    by (rule domain_create_Inr [OF assms(1,3)]) blast
  have free: "frame_is_free (frames (k_mem k)) root" by (rule bitmap_frames.alloc_free [OF assms(2) al])
  have taken: "\<not> frame_is_free fr root" using bitmap_frames.alloc_taken [OF assms(2) al] by simp
  have ne: "root \<noteq> ?cr3" using free assms(4) by auto
  have tab: "ptabs (k_mem k') a j = (if a = root then if j < 512 \<and> j \<noteq> 1 \<and> \<not> is_unused (?pt ?cr3 j) then ?pt ?cr3 j else unused_pte else ?pt a j)" for a j
    unfolding k' using ne by (simp add: copy_kernel_entries_eq zero_table_def)
  have root4: "ptabs (k_mem k') root (p4_index v) = (if is_user_address v then unused_pte else if is_unused (?pt ?cr3 (p4_index v)) then unused_pte else ?pt ?cr3 (p4_index v))" for v
    using index_bound(1) [of v] by (simp add: tab is_user_p4)
  have cr4: "ptabs (k_mem k') ?cr3 j = ?pt ?cr3 j" for j using ne by (simp add: tab)
  have un: "PRESENT \<notin> pte_flags unused_pte" by (simp add: unused_pte_def)
  have wu: "walk (ptabs (k_mem k')) root v = None" if "is_user_address v" for v using that un by (simp add: walk_def root4)
  have wk: "walk (ptabs (k_mem k')) root v = walk (ptabs (k_mem k')) ?cr3 v" if "\<not> is_user_address v" for v
  proof (cases "is_unused (?pt ?cr3 (p4_index v))")
    case True
    then have "PRESENT \<notin> pte_flags (?pt ?cr3 (p4_index v))" using present_used by blast
    then show ?thesis using that True un by (simp add: walk_def root4 cr4)
  next
    case False
    then have "ptabs (k_mem k') root (p4_index v) = ptabs (k_mem k') ?cr3 (p4_index v)" using that by (simp add: root4 cr4)
    then show ?thesis by (simp only: walk_def)
  qed
  have "pml4_of (k_doms k') d = Inr root" using at by (auto simp: pml4_of_def vec_get_Some_iff)
  moreover have "\<not> is_alive (k_doms k) d" using sl by (auto simp: is_alive_def u vec_get_def)
  moreover have "is_alive (k_doms k) e" if "e < d" for e
    using sl that by (auto simp: is_alive_def vec_get_def word_less_nat_alt u)
  moreover have "vec_get (k_doms k') (unat e) = vec_get (k_doms k) (unat e)" if "e \<noteq> d" for e
    using other that by simp
  moreover have "ptabs (k_mem k') a = ptabs (k_mem k) a" if "a \<noteq> root" for a using that by (intro ext) (simp add: tab)
  moreover have "frames (k_mem k') = fr" by (simp add: k')
  ultimately show ?thesis using free taken wu wk by auto
qed

theorem domain_create_isolated_witness:
  "\<exists>k' root. domain_create (w_kernel 0x1000 2 [16] (w_sched False)) = Inr (2, k') \<and> pml4_of (k_doms k') 2 = Inr root \<and>
     walk (ptabs (k_mem k')) root USER_SPACE_BASE = None"
proof -
  let ?k = "w_kernel 0x1000 2 [16] (w_sched False)"
  have fs: "free_set (w_frames [16]) = {16}" "frames_inv (w_frames [16])" using w_frames_free [of "[16]"] by (simp_all add: managed_limit)
  have "\<forall>i < length (k_doms ?k). k_doms ?k ! i \<noteq> None"
    by (simp add: w_kernel_def)
  then have "slot_for (k_doms ?k) = 2" by (subst slot_for_full) simp_all
  then obtain k' where k': "domain_create ?k = Inr (2, k')" using domain_create_succeeds [of ?k] fs by auto
  have cr: "\<not> frame_is_free (frames (k_mem ?k)) (cpu_cr3 (k_sched ?k))" by (simp add: frame_is_free_def fs w_sched_def FRAME_SIZE_def)
  have "is_user_address USER_SPACE_BASE" by (simp add: is_user_p4)
  with domain_create_isolated [OF k' _ _ cr] fs(2) k' show ?thesis by auto
qed



text \<open>
  C30: reclaiming on a timer tick always ends: the queue is emptied and exactly the queued domains are gone. An
  exiting task queues its domain only when that is not one of the boot services, so services are
  never reclaimed.
\<close>

theorem reclaim_empties_queue:
  assumes "\<forall>d \<in> set (k_reclaim k). \<not> is_boot d"
  shows "k_reclaim (reclaim_pending k) = [] \<and>
    (\<forall>d. is_alive (k_doms (reclaim_pending k)) d \<longleftrightarrow> is_alive (k_doms k) d \<and> d \<notin> set (k_reclaim k)) \<and>
    (\<forall>d. is_boot d \<longrightarrow> is_alive (k_doms (reclaim_pending k)) d = is_alive (k_doms k) d) \<and>
    (\<forall>k'. exit_current k = Inr k' \<longrightarrow> (\<forall>d \<in> set (k_reclaim k'). \<not> is_boot d))"
proof (intro conjI allI impI)
  show "k_reclaim (reclaim_pending k) = []" by (simp add: reclaim_pending_eq)
  show "is_alive (k_doms (reclaim_pending k)) d \<longleftrightarrow> is_alive (k_doms k) d \<and> d \<notin> set (k_reclaim k)" for d
    by (auto simp: is_alive_reclaim)
  show "is_alive (k_doms (reclaim_pending k)) d = is_alive (k_doms k) d" if "is_boot d" for d
    using that assms by (auto simp: is_alive_reclaim)
  show "\<forall>d \<in> set (k_reclaim k'). \<not> is_boot d" if "exit_current k = Inr k'" for k'
    using that assms by (auto simp: exit_current_def lift_sched_def bind_res_Inr_iff Let_def request_destroy_def split: if_splits)
qed

theorem reclaim_empties_queue_witness:
  "\<not> is_alive (k_doms (reclaim_pending ((w_kernel 0x9000 27 [] (w_sched False))\<lparr>k_reclaim := [26]\<rparr>))) 26 \<and>
   is_alive (k_doms (reclaim_pending ((w_kernel 0x9000 27 [] (w_sched False))\<lparr>k_reclaim := [26]\<rparr>))) 25"
proof -
  let ?k = "(w_kernel 0x9000 27 [] (w_sched False))\<lparr>k_reclaim := [26]\<rparr>"
  have r: "\<forall>d \<in> set (k_reclaim ?k). \<not> is_boot d" by (simp add: is_boot_def BOOT_DOMAINS_def)
  have "is_alive (k_doms ?k) 25" using w_kernel_doms [of "0x9000" 27 "[]" "w_sched False" 25] by (simp add: is_alive_def)
  with reclaim_empties_queue [OF r] show ?thesis by simp
qed

text \<open>
  a destruction request outlives the domain it was made for. When a domain waits to be reclaimed, is
  destroyed explicitly first, and a new domain gets the same id, the request stays queued. If the
  next tick finds the new domain running, the kernel destroys it under the running task and panics.
\<close>

theorem stale_request_panics:
  assumes "d \<in> set (k_reclaim k)" and "domain_destroy d k = (True, k1)" and "domain_create k1 = Inr (d, k2)"
    and "length (k_doms k1) < 2 ^ 64"
    and "k_reclaim k3 = k_reclaim k2" and "k_doms k3 = k_doms k2" and "current_domain (k_sched k3) = Inr d"
  shows "tick k3 = Inl ExpectFailed"
proof -
  obtain root where at: "vec_get (k_doms k2) (unat d) = Some (Some \<lparr>dom_id = d, dom_pml4 = root\<rparr>)" and r: "k_reclaim k2 = k_reclaim k1"
    by (rule domain_create_Inr [OF assms(3,4)]) blast
  have q: "d \<in> set (k_reclaim k3)" using assms(1,2,5) r domain_destroy_reclaim [of d k] by simp
  have alive: "is_alive (k_doms k3) d" unfolding assms(6) using at by (simp add: is_alive_def)
  obtain t where t: "current (k_sched k3) < length (tasks (k_sched k3))" "tasks (k_sched k3) ! current (k_sched k3) = Some t" "t_domain t = d"
    using assms(7) by (auto simp: current_domain_task)
  have dm: "current_doomed d k3" using alive t by (simp add: current_doomed_def in_domain_def)
  let ?k = "fold (\<lambda>d k. snd (domain_destroy d k)) (rev (k_reclaim k3)) k3"
  have none: "tasks (k_sched ?k) ! current (k_sched k3) = None" by (rule current_doomed_fold [OF t(1) dm]) (use q in simp)
  have fr: "length (tasks (k_sched (fold (\<lambda>d k. snd (domain_destroy d k)) ds k'))) = length (tasks (k_sched k')) \<and>
      current (k_sched (fold (\<lambda>d k. snd (domain_destroy d k)) ds k')) = current (k_sched k')" for ds k'
    by (induction ds arbitrary: k') auto
  have "schedule_next Ready (tick_wake (k_sched ?k)) = Inl ExpectFailed"
    by (rule schedule_next_no_current) (use none t(1) fr in \<open>simp_all add: tick_wake_nth\<close>)
  then show ?thesis by (simp add: tick_def reclaim_pending_eq lift_sched_def Let_def)
qed

theorem stale_request_panics_witness:
  "\<exists>k1 k2. domain_destroy 26 ((w_kernel 0x9000 27 [16] (w_sched False))\<lparr>k_reclaim := [26]\<rparr>) = (True, k1) \<and>
     domain_create k1 = Inr (26, k2) \<and>
     tick (k2\<lparr>k_sched := (w_sched False)\<lparr>tasks := (tasks (w_sched False))[0 := Some (w_task 26 Running)]\<rparr>\<rparr>) = Inl ExpectFailed"
proof -
  let ?k = "(w_kernel 0x9000 27 [16] (w_sched False))\<lparr>k_reclaim := [26], k_binds := []\<rparr>"
  let ?s = "(w_sched False)\<lparr>tasks := (tasks (w_sched False))[0 := Some (w_task 26 Running)]\<rparr>"
  obtain k1 k2 where k: "domain_destroy 26 ?k = (True, k1)" "domain_create k1 = Inr (26, k2)" "length (k_doms k1) < 2 ^ 64"
    using w_kernel_recycle [where n = 26 and s = "w_sched False" and r = "[26]" and b = "[]"] by auto
  have c: "current_domain (k_sched (k2\<lparr>k_sched := ?s\<rparr>)) = Inr 26" by (simp add: current_domain_task w_sched_def)
  have "tick (k2\<lparr>k_sched := ?s\<rparr>) = Inl ExpectFailed"
    by (rule stale_request_panics [OF _ k(1,2,3) _ _ c]) simp_all
  moreover have "?k = (w_kernel 0x9000 27 [16] (w_sched False))\<lparr>k_reclaim := [26]\<rparr>" by (simp add: w_kernel_def)
  ultimately show ?thesis using k by metis
qed

text \<open>
  port ownership outlives its owner. After the owner of a port is destroyed and the next domain created, which
  gets the same id when no smaller one is free, the port counts as owned by the new domain, although
  that domain holds no network capability.
\<close>

theorem port_inherited:
  assumes "domain_destroy d k = (True, k1)" and "\<forall>e < d. is_alive (k_doms k) e" and "length (k_doms k) < 2 ^ 64"
    and "domain_create k1 = Inr (d', k2)" and "net_owner port (k_binds k) = d"
  shows "d' = d \<and> net_owner port (k_binds k2) = d \<and> held (k_caps k2) d = {}"
proof -
  obtain dm where dm: "vec_get (k_doms k) (unat d) = Some (Some dm)"
    using assms(1) by (auto simp: domain_destroy_def split: option.splits)
  have k1: "k_doms k1 = (k_doms k)[unat d := None]" "k_binds k1 = k_binds k" "k_caps k1 = cap_remove_domain d (k_caps k)"
    using assms(1) unfolding destroy_Some [OF dm] by auto
  have l1: "length (k_doms k1) < 2 ^ 64" using assms(3) by (simp add: k1)
  have k2: "k_binds k2 = k_binds k1" "k_caps k2 = k_caps k1" and sl: "unat d' = slot_for (k_doms k1)"
    by (rule domain_create_Inr [OF assms(4) l1], simp)+
  have dl: "unat d < length (k_doms k)" using dm by (simp add: vec_get_Some_iff)
  have "slot_for (k_doms k1) = unat d"
  proof (rule antisym)
    show "slot_for (k_doms k1) \<le> unat d"
      using slot_for_free [of "k_doms k1"] k1(1) dl by (metis length_list_update not_le nth_list_update_eq)
    have "k_doms k1 ! i \<noteq> None" if "i < unat d" for i
    proof -
      have "unat (of_nat i :: u64) = i" using that dl assms(3) by (intro unat_of_nat_u64) simp
      then have "is_alive (k_doms k) (of_nat i)" using assms(2) that by (simp add: word_less_nat_alt)
      then show ?thesis using that dl by (simp add: k1(1) is_alive_def vec_get_def \<open>unat (of_nat i) = i\<close>)
    qed
    then show "unat d \<le> slot_for (k_doms k1)"
      using slot_for_free [of "k_doms k1"] k1(1) dl by (metis length_list_update not_le order_less_trans)
  qed
  then have "d' = d" using sl by simp
  then show ?thesis using assms(5) by (simp add: k1 k2 held_remove_domain)
qed

theorem port_inherited_witness:
  "\<exists>k1 k2. domain_destroy 2 ((w_kernel 0x9000 3 [16] (w_sched False))\<lparr>k_binds := [\<lparr>b_domain = 2, b_port = 80\<rparr>]\<rparr>) = (True, k1) \<and>
     domain_create k1 = Inr (2, k2) \<and> net_owner 80 (k_binds k2) = 2 \<and> held (k_caps k2) 2 = {}"
proof -
  let ?k = "(w_kernel 0x9000 3 [16] (w_sched False))\<lparr>k_reclaim := [], k_binds := [\<lparr>b_domain = 2, b_port = 80\<rparr>]\<rparr>"
  obtain k1 k2 where k: "domain_destroy 2 ?k = (True, k1)" "domain_create k1 = Inr (2, k2)"
    using w_kernel_recycle [where n = 2 and s = "w_sched False" and r = "[]" and b = "[\<lparr>b_domain = 2, b_port = 80\<rparr>]"] by (auto simp: numeral_3_eq_3)
  have al: "\<forall>e < 2. is_alive (k_doms ?k) e"
    using w_kernel_doms [of "0x9000" 3 "[16]" "w_sched False"] by (simp add: is_alive_def word_less_nat_alt)
  have o: "net_owner 80 (k_binds ?k) = 2" by (simp add: net_owner_def)
  have "?k = (w_kernel 0x9000 3 [16] (w_sched False))\<lparr>k_binds := [\<lparr>b_domain = 2, b_port = 80\<rparr>]\<rparr>" by (simp add: w_kernel_def)
  with port_inherited [OF k(1) al _ k(2) o] k show ?thesis by simp
qed

text \<open>Releasing never takes a frame away, and a frame without references becomes free.\<close>

lemma do_act_spec:
  assumes "frames_inv s" and "shared_wf s"
  shows "frames_inv (do_act x s)" and "shared_wf (do_act x s)" and "pinned (do_act x s) = pinned s"
    and "refcount (do_act x s) b \<le> refcount s b" and "free_set s \<subseteq> free_set (do_act x s)"
proof -
  have f: "free_set s \<subseteq> free_set (free_frame a s)" for a using free_frame_cases(2) [OF assms(1), of a] by auto
  show "frames_inv (do_act x s)" "shared_wf (do_act x s)" "pinned (do_act x s) = pinned s"
      "refcount (do_act x s) b \<le> refcount s b" "free_set s \<subseteq> free_set (do_act x s)"
    using release_spec [OF assms] free_frame_cases(1) [OF assms(1)] assms f by (cases x; force)+
qed

lemma fold_acts_free:
  assumes "frames_inv s" and "shared_wf s" and "refcount s a = 0" and "\<not> is_pinned a s" and "unat a div FRAME_SIZE < MAX_MANAGED_FRAMES"
    and "Release a \<in> set acts \<or> unat a div FRAME_SIZE \<in> free_set s"
  shows "unat a div FRAME_SIZE \<in> free_set (fold do_act acts s)"
  using assms
proof (induction acts arbitrary: s)
  case (Cons x acts)
  note sp = do_act_spec [OF Cons.prems(1,2)]
  have "unat a div FRAME_SIZE \<in> free_set (do_act x s)" if "x = Release a"
    using that release_spec(5) [OF Cons.prems(1,2), of a] free_frame_cases(2) [OF Cons.prems(1), of a] Cons.prems(3-5) by simp
  then have "Release a \<in> set acts \<or> unat a div FRAME_SIZE \<in> free_set (do_act x s)" using Cons.prems(6) sp(5) [of x] by auto
  moreover have "refcount (do_act x s) a = 0" using sp(4) [of x a] Cons.prems(3) by simp
  ultimately show ?case using Cons.IH [OF sp(1,2)] Cons.prems(4,5) is_pinned_cong [OF sp(3)] by simp
qed simp

text \<open>
  device registers become memory. Restarting a service in place (or destroying a domain) releases every page
  mapped in its user space. A device register page that the kernel mapped there with \<open>map_mmio\<close> carries
  no reference and is not pinned; when its physical address lies below the 32 GiB the allocator
  manages, it is handed to the allocator as free memory.
\<close>

theorem reset_frees_device_pages:
  assumes "vec_get (k_doms k) (unat d) = Some (Some dm)" and "tree4 (ptabs (k_mem k)) (dom_pml4 dm)"
    and "frames_inv (frames (k_mem k))" and "shared_wf (frames (k_mem k))"
    and "is_user_address v" and "walk (ptabs (k_mem k)) (dom_pml4 dm) v = Some (p + (v AND 0xFFF))"
    and "refcount (frames (k_mem k)) p = 0" and "\<not> is_pinned p (frames (k_mem k))"
    and "unat p div FRAME_SIZE < MAX_MANAGED_FRAMES" and "unat p mod FRAME_SIZE = 0"
  shows "frame_is_free (frames (k_mem (snd (domain_reset d k)))) p"
proof -
  obtain a where a: "Release a \<in> set (space_acts (ptabs (k_mem k)) (dom_pml4 dm))" "p + (v AND 0xFFF) = a + (v AND 0xFFF)"
    using walk_released [OF assms(5,6)] by blast
  have "frames (k_mem (snd (domain_reset d k))) = fold do_act (space_acts (ptabs (k_mem k)) (dom_pml4 dm)) (frames (k_mem k))"
    using assms(1) free_user_space_spec [OF assms(2)] by (simp add: domain_reset_def)
  then show ?thesis using fold_acts_free [OF assms(3,4,7,8,9)] a assms(10) by (simp add: frame_is_free_def)
qed

theorem reset_frees_device_pages_witness:
  "walk w_tables 0x1000 USER_SPACE_BASE = Some 0x5000 \<and>
   frame_is_free (frames (k_mem (snd (domain_reset 1 (w_kernel 0x1000 2 [] (w_sched False)))))) 0x5000"
proof -
  let ?k = "w_kernel 0x1000 2 [] (w_sched False)"
  have v: "vec_get (k_doms ?k) (unat (1 :: u64)) = Some (Some \<lparr>dom_id = 1, dom_pml4 = 0x1000\<rparr>)" by (simp add: w_kernel_doms)
  have i: "p3_index USER_SPACE_BASE = 0" "p2_index USER_SPACE_BASE = 0" "p1_index USER_SPACE_BASE = 0"
    by (simp_all add: index_div USER_SPACE_BASE_def)
  have w: "walk w_tables 0x1000 USER_SPACE_BASE = Some (0x5000 + (USER_SPACE_BASE AND 0xFFF))"
    by (simp add: walk_def i w_tables_def)
  have u: "is_user_address USER_SPACE_BASE" by (simp add: is_user_p4)
  have wf: "shared_wf (w_frames [])" "refcount (w_frames []) 0x5000 = 0" "\<not> is_pinned 0x5000 (w_frames [])" "frames_inv (w_frames [])"
    using w_frames_free [of "[]"] by (simp_all add: shared_wf_def live_at_def refcount_def w_frames_def is_pinned_def nth_Cons split: nat.splits)
  have "frame_is_free (frames (k_mem (snd (domain_reset 1 ?k)))) 0x5000"
    by (rule reset_frees_device_pages [OF v _ _ _ u]) (use w wf in \<open>simp_all add: w_tables_tree FRAME_SIZE_def managed_limit\<close>)
  then show ?thesis using w by (simp add: USER_SPACE_BASE_def)
qed

end
