(* ===== verification/Exec.thy ===== *)
theory Exec
  imports Domain Elf
begin

text \<open>
  Loading and starting programs, \<open>kernel/src/exec.rs\<close>. \<open>map_image\<close> works in two passes: map every page of
  every segment with the union of the permissions asked for it, then copy the file contents, then
  map the user stack. A result \<open>False\<close> of the page loops is the source's early \<open>return None\<close>; the
  memory state at that moment is returned with it, because the caller goes on from there.

  The loops \<open>while page_vaddr < end { ...; page_vaddr += FRAME_SIZE }\<close> run over the list
  \<open>page_range\<close>; \<open>page_range_loop\<close> shows that this is the loop whenever the counter does not wrap, which
  holds for every image that \<open>parse\<close> accepts (its segments lie in user space).
\<close>

section \<open>Pages\<close>

definition MAX_IMAGE_PAGES :: u64 where
  "MAX_IMAGE_PAGES = 4096"

definition MOUNT_SRV_DOMAIN :: u64 where
  "MOUNT_SRV_DOMAIN = 9"

definition MFS_SRV_DOMAIN :: u64 where
  "MFS_SRV_DOMAIN = 11"

definition page_range :: "u64 \<Rightarrow> u64 \<Rightarrow> u64 list" where
  "page_range first fin = map (\<lambda>i. first + of_nat (i * FRAME_SIZE)) [0..<(unat fin - unat first + (FRAME_SIZE - 1)) div FRAME_SIZE]"

definition seg_pages :: "Segment \<Rightarrow> u64 list" where
  "seg_pages seg = page_range (page_of (seg_vaddr seg)) (seg_vaddr seg + seg_memsz seg)"

text \<open>The union of the flags of all segments that touch the page.\<close>

definition touches :: "u64 \<Rightarrow> Segment \<Rightarrow> bool" where
  "touches page_vaddr seg \<longleftrightarrow> page_of (seg_vaddr seg) \<le> page_vaddr \<and> page_vaddr < seg_vaddr seg + seg_memsz seg"

definition page_perm :: "Image \<Rightarrow> u64 \<Rightarrow> UserPagePerm option" where
  "page_perm elf page_vaddr =
     (let writable = list_ex (\<lambda>seg. touches page_vaddr seg \<and> seg_flags seg AND PF_W \<noteq> 0) (img_segments elf);
          executable = list_ex (\<lambda>seg. touches page_vaddr seg \<and> seg_flags seg AND PF_X \<noteq> 0) (img_segments elf)
      in if writable \<and> executable then None
         else if executable then Some ReadExecute
         else if writable then Some ReadWrite
         else Some ReadOnly)"

section \<open>Mapping and copying\<close>

fun map_pages :: "mapper \<Rightarrow> domains \<Rightarrow> u64 \<Rightarrow> Image \<Rightarrow> u64 list \<Rightarrow> mem \<times> phys \<Rightarrow> (bool \<times> mem \<times> phys) res" where
  "map_pages mp doms d elf [] st = Inr (True, st)"
| "map_pages mp doms d elf (page # pages) (m, ph) =
     bind_res (resolve_user_page doms d page m) (\<lambda>r.
       case r of
         Some _ \<Rightarrow> map_pages mp doms d elf pages (m, ph)
       | None \<Rightarrow>
           (case page_perm elf page of
              None \<Rightarrow> Inr (False, m, ph)
            | Some perm \<Rightarrow>
                (case allocate_frame (frames m) of
                   None \<Rightarrow> Inr (False, m, ph)
                 | Some (p, fr) \<Rightarrow>
                     bind_res (map_user_page mp doms d page p perm (m\<lparr>frames := fr\<rparr>)) (\<lambda>m'.
                       map_pages mp doms d elf pages (m', zero_frame p ph)))))"

definition copy_segment_page :: "u8 list \<Rightarrow> Segment \<Rightarrow> u64 \<Rightarrow> u64 \<Rightarrow> phys \<Rightarrow> phys" where
  "copy_segment_page img seg page_vaddr paddr ph =
     (let file_end = seg_vaddr seg + seg_filesz seg;
          page_end = page_vaddr + of_nat FRAME_SIZE;
          lo = max page_vaddr (seg_vaddr seg);
          hi = min page_end file_end
      in if hi \<le> lo then ph
         else let src_off = unat (seg_offset seg + (lo - seg_vaddr seg));
                  dst_off = lo - page_vaddr;
                  n = unat (hi - lo)
              in write_bytes (paddr + dst_off) (take n (drop src_off img)) ph)"

fun copy_pages :: "domains \<Rightarrow> u64 \<Rightarrow> u8 list \<Rightarrow> Segment \<Rightarrow> u64 list \<Rightarrow> mem \<times> phys \<Rightarrow> (bool \<times> mem \<times> phys) res" where
  "copy_pages doms d img seg [] st = Inr (True, st)"
| "copy_pages doms d img seg (page # pages) (m, ph) =
     bind_res (resolve_user_page doms d page m) (\<lambda>r.
       case r of
         None \<Rightarrow> Inr (False, m, ph)
       | Some paddr \<Rightarrow> copy_pages doms d img seg pages (m, copy_segment_page img seg page paddr ph))"

fun map_stack :: "mapper \<Rightarrow> domains \<Rightarrow> u64 \<Rightarrow> u64 list \<Rightarrow> mem \<times> phys \<Rightarrow> (bool \<times> mem \<times> phys) res" where
  "map_stack mp doms d [] st = Inr (True, st)"
| "map_stack mp doms d (page # pages) (m, ph) =
     (case allocate_frame (frames m) of
        None \<Rightarrow> Inr (False, m, ph)
      | Some (p, fr) \<Rightarrow>
          bind_res (map_user_page mp doms d page p ReadWrite (m\<lparr>frames := fr\<rparr>)) (\<lambda>m'.
            map_stack mp doms d pages (m', zero_frame p ph)))"

text \<open>Running one step after another until one gives up.\<close>

fun all_steps :: "('s \<Rightarrow> (bool \<times> 's) res) list \<Rightarrow> 's \<Rightarrow> (bool \<times> 's) res" where
  "all_steps [] st = Inr (True, st)"
| "all_steps (f # fs) st = bind_res (f st) (\<lambda>(ok, st'). if ok then all_steps fs st' else Inr (False, st'))"

definition stack_pages :: "u64 list" where
  "stack_pages = map (\<lambda>i. USER_STACK_TOP - USER_STACK_PAGES * of_nat FRAME_SIZE + of_nat (i * FRAME_SIZE)) [0..<unat USER_STACK_PAGES]"

definition map_image :: "mapper \<Rightarrow> domains \<Rightarrow> u8 list \<Rightarrow> Image \<Rightarrow> u64 \<Rightarrow> mem \<times> phys \<Rightarrow> (bool \<times> mem \<times> phys) res" where
  "map_image mp doms img elf d =
     all_steps (map (\<lambda>seg. map_pages mp doms d elf (seg_pages seg)) (img_segments elf) @
                map (\<lambda>seg. copy_pages doms d img seg (seg_pages seg)) (img_segments elf) @
                [map_stack mp doms d stack_pages])"

section \<open>Starting a program\<close>

text \<open>The page budget; \<open>None\<close> when a sum overflows.\<close>

fun image_pages :: "u64 \<Rightarrow> Segment list \<Rightarrow> u64 option" where
  "image_pages pages [] = Some pages"
| "image_pages pages (seg # segs) =
     (case checked_add pages (seg_memsz seg div of_nat FRAME_SIZE + 1) of
        None \<Rightarrow> None
      | Some pages' \<Rightarrow> image_pages pages' segs)"

text \<open>
  The second half of both loaders: map the image, then start a task at its entry with kernel stack \<open>kst\<close>.
\<close>

definition build_program :: "mapper \<Rightarrow> u64 \<Rightarrow> u8 list \<Rightarrow> Image \<Rightarrow> u64 \<Rightarrow> kernel_state \<Rightarrow> (bool \<times> kernel_state) res" where
  "build_program mp kst img elf d k =
     bind_res (map_image mp (k_doms k) img elf d (k_mem k, k_phys k)) (\<lambda>(mapped, m, ph).
       let k1 = k\<lparr>k_mem := m, k_phys := ph\<rparr>
       in if \<not> mapped then Inr (False, k1)
          else bind_res (try_spawn_user (img_entry elf) USER_STACK_TOP d kst (pml4_of (k_doms k1) d) (k_sched k1)) (\<lambda>(started, s).
                 Inr (started, k1\<lparr>k_sched := s\<rparr>)))"

definition grant_all :: "u64 \<Rightarrow> capability list \<Rightarrow> cap_state \<Rightarrow> cap_state res" where
  "grant_all d caps s = fold (\<lambda>c r. bind_res r (\<lambda>s. bind_res (cap_grant d c s) (\<lambda>(_, s'). Inr s'))) caps (Inr s)"

definition spawn_elf :: "mapper \<Rightarrow> u64 \<Rightarrow> u8 list \<Rightarrow> u64 \<Rightarrow> kernel_state \<Rightarrow> (u64 option \<times> kernel_state) res" where
  "spawn_elf mp kst img loader k =
     (case parse img of
        None \<Rightarrow> Inr (None, k)
      | Some elf \<Rightarrow>
          (case image_pages USER_STACK_PAGES (img_segments elf) of
             None \<Rightarrow> Inr (None, k)
           | Some pages \<Rightarrow>
               if MAX_IMAGE_PAGES < pages then Inr (None, k)
               else bind_res (domain_create k) (\<lambda>(d, k1).
                 bind_res (grant_all d [SendTo MOUNT_SRV_DOMAIN, SendTo MFS_SRV_DOMAIN, MapInto MFS_SRV_DOMAIN]
                             (cap_add_domain d (k_caps k1))) (\<lambda>caps.
                   let k2 = k1\<lparr>k_caps := caps, k_boxes := ipc_add_domain d (k_boxes k1),
                               k_pagers := pager_add_domain d loader (k_pagers k1)\<rparr>
                   in bind_res (build_program mp kst img elf d k2) (\<lambda>(built, k3).
                        if \<not> built then Inr (None, snd (domain_destroy d k3))
                        else Inr (Some d, k3))))))"

definition spawn_elf_at :: "mapper \<Rightarrow> u64 \<Rightarrow> u64 \<Rightarrow> u8 list \<Rightarrow> kernel_state \<Rightarrow> (bool \<times> kernel_state) res" where
  "spawn_elf_at mp kst d img k =
     (case parse img of
        None \<Rightarrow> Inr (False, k)
      | Some elf \<Rightarrow>
          (case image_pages USER_STACK_PAGES (img_segments elf) of
             None \<Rightarrow> Inr (False, k)
           | Some pages \<Rightarrow> if MAX_IMAGE_PAGES < pages then Inr (False, k) else build_program mp kst img elf d k))"

section \<open>Facts on the loops\<close>

lemma page_count: "0 < n \<Longrightarrow> (n + 4095) div 4096 = Suc ((n - 4096 + 4095) div 4096)" for n :: nat
  by (cases "n < 4096") (simp_all add: le_div_geq)

lemma page_range_loop:
  assumes "unat fin + FRAME_SIZE \<le> 2 ^ 64"
  shows "page_range a fin = (if a < fin then a # page_range (a + of_nat FRAME_SIZE) fin else [])"
proof (cases "a < fin")
  case True
  then have lt: "unat a < unat fin" by (simp add: word_less_nat_alt)
  then have u: "unat (a + of_nat FRAME_SIZE) = unat a + FRAME_SIZE" using assms by (simp add: unat_word_ariths FRAME_SIZE_def)
  have c: "(unat fin - unat a + (FRAME_SIZE - 1)) div FRAME_SIZE = Suc ((unat fin - unat (a + of_nat FRAME_SIZE) + (FRAME_SIZE - 1)) div FRAME_SIZE)"
    using page_count [of "unat fin - unat a"] lt unfolding u by (simp add: FRAME_SIZE_def)
  have up: "[0..<Suc k] = 0 # map Suc [0..<k]" for k by (simp add: upt_conv_Cons map_Suc_upt del: upt_Suc)
  note n = up [of "(unat fin - unat (a + of_nat FRAME_SIZE) + (FRAME_SIZE - 1)) div FRAME_SIZE", folded c]
  show ?thesis unfolding page_range_def n using True by (simp add: algebra_simps)
next
  case False
  then have "unat fin - unat a = 0" by (simp add: word_less_nat_alt)
  then show ?thesis using False by (simp add: page_range_def FRAME_SIZE_def)
qed

text \<open>What the steps leave alone: only memory changes while the image is mapped.\<close>

lemma build_program_Inr:
  assumes "build_program mp kst img elf d k = Inr (b, k')"
  shows "k_caps k' = k_caps k" "k_doms k' = k_doms k" "k_boxes k' = k_boxes k" "k_pagers k' = k_pagers k" "k_reclaim k' = k_reclaim k"
    "k_binds k' = k_binds k" "k_irqs k' = k_irqs k"
    and "b \<Longrightarrow> \<exists>slot pml4. find_index (\<lambda>t. t = None) (tasks (k_sched k)) = Some slot \<and> pml4_of (k_doms k) d = Inr pml4 \<and>
      tasks (k_sched k') = (tasks (k_sched k))[slot := Some \<lparr>t_id = of_nat slot, t_state = Ready, t_cr3 = pml4,
                   t_domain = d, t_kernel_stack_top = kst, t_user_entry = img_entry elf, t_user_stack = USER_STACK_TOP,
                   t_sleep_until = 0, t_wait_on = 0, t_wake_deadline = 0, t_reply_target = U64_MAX\<rparr>]"
    and "\<not> b \<Longrightarrow> k_sched k' = k_sched k"
  using assms unfolding build_program_def
  by (auto simp: bind_res_Inr_iff Let_def try_spawn_user_def spawn_inner_def split: if_splits option.splits)

section \<open>Capabilities of a fresh domain\<close>

lemma insert_first_prefix: "insert_first c (map Some xs @ replicate (Suc n) None) = Some (length xs, map Some (xs @ [c]) @ replicate n None)"
  by (simp add: insert_first_Some_iff nth_append list_update_append)

lemma grant_all_fresh:
  assumes "unat d < length (cap_table s)" and "cap_table s ! unat d = map Some xs @ replicate n None" and "length cs \<le> n"
  shows "grant_all d cs s = Inr (s\<lparr>cap_table := (cap_table s)[unat d := map Some (xs @ cs) @ replicate (n - length cs) None]\<rparr>)"
  using assms
proof (induction cs arbitrary: s xs n)
  case Nil
  then show ?case by (simp add: grant_all_def list_update_same_iff [symmetric])
next
  case (Cons c cs)
  then obtain m where n: "n = Suc m" by (cases n) auto
  let ?s = "s\<lparr>cap_table := (cap_table s)[unat d := map Some (xs @ [c]) @ replicate m None]\<rparr>"
  have g: "cap_grant d c s = Inr (True, ?s)"
    using Cons.prems(1,2) by (simp add: cap_grant_def n insert_first_prefix del: replicate_Suc)
  have "grant_all d cs ?s = Inr (?s\<lparr>cap_table := (cap_table ?s)[unat d := map Some ((xs @ [c]) @ cs) @ replicate (m - length cs) None]\<rparr>)"
    by (rule Cons.IH) (use Cons.prems n in simp_all)
  then show ?case using g by (simp add: grant_all_def n)
qed

lemma grant_fresh_domain:
  "\<exists>s'. grant_all d [SendTo MOUNT_SRV_DOMAIN, SendTo MFS_SRV_DOMAIN, MapInto MFS_SRV_DOMAIN] (cap_add_domain d s) = Inr s' \<and>
     (\<forall>e. held s' e = (if e = d then {SendTo MOUNT_SRV_DOMAIN, SendTo MFS_SRV_DOMAIN, MapInto MFS_SRV_DOMAIN} else held s e))"
proof -
  let ?cs = "[SendTo MOUNT_SRV_DOMAIN, SendTo MFS_SRV_DOMAIN, MapInto MFS_SRV_DOMAIN]" and ?s = "cap_add_domain d s"
  have l: "unat d < length (cap_table ?s)" by (simp add: cap_add_domain_def length_set_row)
  have r: "cap_table ?s ! unat d = map Some [] @ replicate 32 None" by (simp add: cap_add_domain_def set_row_same CAP_SLOTS_def)
  note g = grant_all_fresh [OF l r, of ?cs]
  have "held (?s\<lparr>cap_table := (cap_table ?s)[unat d := map Some ([] @ ?cs) @ replicate (32 - length ?cs) None]\<rparr>) e =
      (if e = d then set ?cs else held s e)" for e
    using held_update [OF l, of _ e] by (auto simp: cap_add_eq_remove held_remove_domain)
  then show ?thesis using g by simp
qed

lemma domain_create_frame:
  assumes "domain_create k = Inr (d, k')"
  shows "k_sched k' = k_sched k" "k_boxes k' = k_boxes k" "k_pagers k' = k_pagers k" "k_caps k' = k_caps k"
    "k_irqs k' = k_irqs k" "k_reclaim k' = k_reclaim k" "k_binds k' = k_binds k"
  using assms by (auto simp: domain_create_def Let_def bind_res_Inr_iff)

lemma domain_create_alive:
  assumes "domain_create k = Inr (d, k')" and "length (k_doms k) < 2 ^ 64"
  shows "\<not> is_alive (k_doms k) d" and "is_alive (k_doms k') e \<longleftrightarrow> e = d \<or> is_alive (k_doms k) e"
proof -
  obtain root where u: "unat d = slot_for (k_doms k)" and at: "vec_get (k_doms k') (unat d) = Some (Some \<lparr>dom_id = d, dom_pml4 = root\<rparr>)"
      and other: "\<And>j. j \<noteq> unat d \<Longrightarrow> vec_get (k_doms k') j = vec_get (k_doms k) j"
    by (rule domain_create_Inr [OF assms]) blast
  show "\<not> is_alive (k_doms k) d" using slot_for_free [of "k_doms k"] by (auto simp: is_alive_def u vec_get_def)
  show "is_alive (k_doms k') e \<longleftrightarrow> e = d \<or> is_alive (k_doms k) e"
    using at other [of "unat e"] by (cases "e = d") (simp_all add: is_alive_def)
qed

lemma mailbox_row_add: "mailbox_row (ipc_add_domain d b) e = (if e = d then [] else mailbox_row b e)"
  using mailbox_rows.row_reset [of d b e] by (simp add: ipc_add_domain_def ipc_remove_domain_def)

section \<open>An example load\<close>

text \<open>A mapper under which every address translates once something is mapped.\<close>

definition w_mapper :: mapper where
  "w_mapper = \<lparr>map_to = (\<lambda>_ _ f _ m. Some (m\<lparr>ptabs := (\<lambda>t i. \<lparr>pte_addr = f, pte_flags = {PRESENT}\<rparr>)\<rparr>)), unmap = (\<lambda>_ _ _. None)\<rparr>"

lemma w_mapper_walk: "walk (\<lambda>t i. \<lparr>pte_addr = f, pte_flags = {PRESENT}\<rparr>) root v \<noteq> None"
  by (simp add: walk_def)

lemma w_map:
  assumes "pml4_of doms d = Inr root" and "canonical page" and "frames_inv (frames m)" and "n < card (free_set (frames m))"
  obtains p fr m' where "allocate_frame (frames m) = Some (p, fr)" and "map_user_page w_mapper doms d page p perm (m\<lparr>frames := fr\<rparr>) = Inr m'"
    and "frames m' = fr" and "frames_inv fr" and "n \<le> card (free_set fr)" and "\<And>v. walk (ptabs m') root v \<noteq> None"
proof -
  have "free_set (frames m) \<noteq> {}" using assms(4) by auto
  then obtain p fr where al: "allocate_frame (frames m) = Some (p, fr)"
    using allocate_frame_None [of "frames m"] by (cases "allocate_frame (frames m)") auto
  from allocate_frame_Some [OF assms(3) al] obtain i where
      i: "i \<in> free_set (frames m)" "free_set fr = free_set (frames m) - {i}" "unat p = i * FRAME_SIZE" "frames_inv fr"
    by blast
  have c: "card (free_set fr) = card (free_set (frames m)) - 1" using i by simp
  have "i < MAX_MANAGED_FRAMES" using i(1) by (simp add: free_set_def)
  then have "unat p < 2 ^ 52" unfolding i(3) by (simp add: managed_limit FRAME_SIZE_def)
  then have "unat (drop_bit 52 p) = 0" by (simp add: drop_bit_eq_div unat_div)
  then have "drop_bit 52 p = 0" by (simp add: unat_eq_0)
  then have m: "map_user_page w_mapper doms d page p perm (m\<lparr>frames := fr\<rparr>) =
      Inr (m\<lparr>frames := fr, ptabs := (\<lambda>t i. \<lparr>pte_addr = page_of p, pte_flags = {PRESENT}\<rparr>)\<rparr>)"
    using assms(1,2) by (simp add: map_user_page_def VirtAddr_new_def PhysAddr_new_def w_mapper_def)
  show thesis by (rule that [OF al m]) (use i c assms(4) in \<open>simp_all add: walk_def\<close>)
qed

lemma w_map_pages:
  assumes "pml4_of doms d = Inr root" and "\<forall>p \<in> set pages. canonical p \<and> page_perm elf p \<noteq> None"
    and "frames_inv (frames m)" and "length pages + n \<le> card (free_set (frames m))"
  shows "\<exists>m' ph'. map_pages w_mapper doms d elf pages (m, ph) = Inr (True, m', ph') \<and> frames_inv (frames m') \<and>
    n \<le> card (free_set (frames m')) \<and> (\<forall>v. v \<in> set pages \<or> walk (ptabs m) root v \<noteq> None \<longrightarrow> walk (ptabs m') root v \<noteq> None)"
  using assms(2-4)
proof (induction pages arbitrary: m ph)
  case (Cons p pages)
  have r: "resolve_user_page doms d p m = Inr (walk (ptabs m) root p)" by (simp add: resolve_user_page_def assms(1))
  obtain perm where perm: "page_perm elf p = Some perm" using Cons.prems(1) by auto
  show ?case
  proof (cases "walk (ptabs m) root p")
    case None
    obtain q fr m1 where m1: "allocate_frame (frames m) = Some (q, fr)" "map_user_page w_mapper doms d p q perm (m\<lparr>frames := fr\<rparr>) = Inr m1"
        "frames m1 = fr" "frames_inv fr" "length pages + n \<le> card (free_set fr)" "\<And>v. walk (ptabs m1) root v \<noteq> None"
      by (rule w_map [OF assms(1), of p m "length pages + n"]) (use Cons.prems in auto)
    from Cons.IH [of m1 "zero_frame q ph"] Cons.prems(1) m1 obtain m' ph' where
        "map_pages w_mapper doms d elf pages (m1, zero_frame q ph) = Inr (True, m', ph')" "frames_inv (frames m')"
        "n \<le> card (free_set (frames m'))" "\<forall>v. walk (ptabs m') root v \<noteq> None" by auto
    then show ?thesis using None perm m1 r by auto
  next
    case (Some q)
    from Cons.IH [of m ph] Cons.prems show ?thesis using Some r by auto
  qed
qed simp

lemma w_copy_pages:
  assumes "pml4_of doms d = Inr root" and "\<forall>p \<in> set pages. walk (ptabs m) root p \<noteq> None"
  shows "\<exists>ph'. copy_pages doms d img seg pages (m, ph) = Inr (True, m, ph')"
  using assms(2)
proof (induction pages arbitrary: ph)
  case (Cons p pages)
  then obtain q where "resolve_user_page doms d p m = Inr (Some q)" by (auto simp: resolve_user_page_def assms(1))
  then show ?case using Cons by simp
qed simp

lemma w_map_stack:
  assumes "pml4_of doms d = Inr root" and "\<forall>p \<in> set pages. canonical p" and "frames_inv (frames m)" and "length pages \<le> card (free_set (frames m))"
  shows "\<exists>m' ph'. map_stack w_mapper doms d pages (m, ph) = Inr (True, m', ph')"
  using assms(2-4)
proof (induction pages arbitrary: m ph)
  case (Cons p pages)
  obtain q fr m1 where m1: "allocate_frame (frames m) = Some (q, fr)" "map_user_page w_mapper doms d p q ReadWrite (m\<lparr>frames := fr\<rparr>) = Inr m1"
      "frames m1 = fr" "frames_inv fr" "length pages \<le> card (free_set fr)"
    by (rule w_map [OF assms(1), of p m "length pages"]) (use Cons.prems in auto)
  then show ?case using Cons.IH [of m1] Cons.prems(1) by auto
qed simp

lemma w_seg_pages: "seg_pages w_seg = [USER_SPACE_BASE, USER_SPACE_BASE + 0x1000]"
  by (simp add: seg_pages_def page_range_def w_seg_def FRAME_SIZE_def page_of_def USER_SPACE_BASE_def upt_rec)

lemma w_stack_canonical: "\<forall>p \<in> set stack_pages. canonical p"
proof -
  have n: "[0..<8] = [0, 1, 2, 3, 4, 5, 6, 7 :: nat]" by code_simp
  show ?thesis unfolding stack_pages_def by (simp add: USER_STACK_PAGES_def n USER_STACK_TOP_def USER_SPACE_BASE_def FRAME_SIZE_def canonical_def)
qed

definition w_image :: Image where
  "w_image = \<lparr>img_entry = USER_SPACE_BASE + 0x1000, img_segments = [w_seg]\<rparr>"

lemma w_image_parse: "parse w_elf = Some w_image" and w_image_pages: "image_pages USER_STACK_PAGES (img_segments w_image) = Some 11"
  unfolding w_image_def w_elf_def
  by (rule parse_elf_file [OF w_elf_hyps]) (simp add: checked_add_def USER_STACK_PAGES_def w_seg_def FRAME_SIZE_def)

lemma w_map_image:
  assumes "pml4_of doms d = Inr root" and "frames_inv (frames m)" and "10 \<le> card (free_set (frames m))"
  shows "\<exists>m' ph'. map_image w_mapper doms w_elf w_image d (m, ph) = Inr (True, m', ph')"
proof -
  have pg: "\<forall>p \<in> set (seg_pages w_seg). canonical p \<and> page_perm w_image p \<noteq> None"
    unfolding w_seg_pages by (simp add: canonical_def USER_SPACE_BASE_def page_perm_def w_image_def w_seg_def PF_W_def)
  have two: "length (seg_pages w_seg) = 2" "length stack_pages = 8" by (simp_all add: w_seg_pages stack_pages_def USER_STACK_PAGES_def)
  obtain m1 ph1 where m1: "map_pages w_mapper doms d w_image (seg_pages w_seg) (m, ph) = Inr (True, m1, ph1)" "frames_inv (frames m1)"
      "8 \<le> card (free_set (frames m1))" "\<forall>v \<in> set (seg_pages w_seg). walk (ptabs m1) root v \<noteq> None"
    using w_map_pages [OF assms(1) pg assms(2), of 8 ph] assms(3) two by auto
  obtain ph2 where c: "copy_pages doms d w_elf w_seg (seg_pages w_seg) (m1, ph1) = Inr (True, m1, ph2)"
    using w_copy_pages [OF assms(1) m1(4)] by blast
  obtain m' ph' where "map_stack w_mapper doms d stack_pages (m1, ph2) = Inr (True, m', ph')"
    using w_map_stack [OF assms(1) w_stack_canonical m1(2), of ph2] m1(3) two by auto
  then show ?thesis using m1(1) c by (simp add: map_image_def w_image_def)
qed

lemma w_spawn:
  assumes "distinct fs" and "\<forall>i \<in> set fs. i < MAX_MANAGED_FRAMES" and "11 \<le> length fs"
  shows "\<exists>k'. spawn_elf w_mapper 0x9000 w_elf 1 (w_kernel 0x1000 2 fs (w_sched False)) = Inr (Some 2, k')"
proof -
  let ?k = "w_kernel 0x1000 2 fs (w_sched False)"
  have fs: "card (free_set (w_frames fs)) \<ge> 11" "frames_inv (w_frames fs)"
    using w_frames_free [OF assms(1,2)] assms(3) distinct_card [OF assms(1)] by simp_all
  have mem: "frames (k_mem ?k) = w_frames fs" and len: "length (k_doms ?k) = 2" by simp_all
  have "slot_for (k_doms ?k) = 2" by (subst slot_for_full) (simp_all add: w_kernel_def)
  moreover have "free_set (w_frames fs) \<noteq> {}" using fs(1) by force
  ultimately obtain k1 where k1: "domain_create ?k = Inr (2, k1)" using domain_create_succeeds [of ?k] by (auto simp: mem)
  obtain root fr where at: "vec_get (k_doms k1) (unat (2 :: u64)) = Some (Some \<lparr>dom_id = 2, dom_pml4 = root\<rparr>)"
      and al: "allocate_frame (w_frames fs) = Some (root, fr)" and fk: "frames (k_mem k1) = fr"
    by (rule domain_create_Inr [OF k1]) (simp_all add: mem len)
  obtain i where i: "i \<in> free_set (w_frames fs)" "free_set fr = free_set (w_frames fs) - {i}" "frames_inv fr"
    by (rule allocate_frame_Some [OF fs(2) al]) blast
  have fr: "frames_inv fr" "10 \<le> card (free_set fr)" using i fs(1) by simp_all
  have p: "pml4_of (k_doms k1) 2 = Inr root" using at by (auto simp: pml4_of_def vec_get_Some_iff)
  obtain caps where g: "grant_all 2 [SendTo MOUNT_SRV_DOMAIN, SendTo MFS_SRV_DOMAIN, MapInto MFS_SRV_DOMAIN] (cap_add_domain 2 (k_caps k1)) = Inr caps"
    using grant_fresh_domain by blast
  define k2 where "k2 = k1\<lparr>k_caps := caps, k_boxes := ipc_add_domain 2 (k_boxes k1), k_pagers := pager_add_domain 2 1 (k_pagers k1)\<rparr>"
  obtain m' ph' where m: "map_image w_mapper (k_doms k2) w_elf w_image 2 (k_mem k2, k_phys k2) = Inr (True, m', ph')"
    using w_map_image [of "k_doms k2" 2 root "k_mem k2" "k_phys k2"] p fr fk by (auto simp: k2_def)
  have s: "k_sched k2 = w_sched False" using domain_create_frame(1) [OF k1] by (simp add: k2_def)
  have "\<exists>i. find_index (\<lambda>t. t = None) (tasks (w_sched False)) = Some i" by (rule find_index_ex) (simp_all add: w_sched_def)
  then have "\<exists>k'. build_program w_mapper 0x9000 w_elf w_image 2 k2 = Inr (True, k')"
    using m p s by (auto simp: build_program_def try_spawn_user_def spawn_inner_def k2_def Let_def)
  then show ?thesis using k1 g by (auto simp: spawn_elf_def w_image_parse w_image_pages MAX_IMAGE_PAGES_def k2_def Let_def)
qed

lemma w_spawn_fails: "\<exists>k'. spawn_elf w_mapper 0x9000 w_elf 1 (w_kernel 0x1000 2 [16] (w_sched False)) = Inr (None, k')"
proof -
  let ?k = "w_kernel 0x1000 2 [16] (w_sched False)"
  have fs: "free_set (w_frames [16]) = {16}" "frames_inv (w_frames [16])" using w_frames_free [of "[16]"] by (simp_all add: managed_limit)
  have mem: "frames (k_mem ?k) = w_frames [16]" and len: "length (k_doms ?k) = 2" by simp_all
  have "slot_for (k_doms ?k) = 2" by (subst slot_for_full) (simp_all add: w_kernel_def)
  then obtain k1 where k1: "domain_create ?k = Inr (2, k1)" using domain_create_succeeds [of ?k] fs(1) by (auto simp: mem)
  obtain root fr where at: "vec_get (k_doms k1) (unat (2 :: u64)) = Some (Some \<lparr>dom_id = 2, dom_pml4 = root\<rparr>)"
      and al: "allocate_frame (w_frames [16]) = Some (root, fr)"
      and m1: "k_mem k1 = (k_mem ?k)\<lparr>frames := fr, ptabs := copy_kernel_entries (cpu_cr3 (w_sched False)) root (zero_table root (ptabs (k_mem ?k)))\<rparr>"
    by (rule domain_create_Inr [OF k1]) (simp_all add: mem len)
  obtain i where i: "i \<in> free_set (w_frames [16])" "free_set fr = free_set (w_frames [16]) - {i}" "unat root = i * FRAME_SIZE"
    by (rule allocate_frame_Some [OF fs(2) al]) blast
  have none: "allocate_frame fr = None" using i fs(1) by (simp add: allocate_frame_None)
  have "root \<noteq> cpu_cr3 (w_sched False)" using i fs(1) by (auto simp: FRAME_SIZE_def w_sched_def)
  then have w: "walk (ptabs (k_mem k1)) root USER_SPACE_BASE = None"
    by (simp add: m1 walk_def p4_index_def USER_SPACE_BASE_def copy_kernel_entries_eq zero_table_def unused_pte_def)
  have p: "pml4_of (k_doms k1) 2 = Inr root" using at by (auto simp: pml4_of_def vec_get_Some_iff)
  obtain caps where g: "grant_all 2 [SendTo MOUNT_SRV_DOMAIN, SendTo MFS_SRV_DOMAIN, MapInto MFS_SRV_DOMAIN] (cap_add_domain 2 (k_caps k1)) = Inr caps"
    using grant_fresh_domain by blast
  define k2 where "k2 = k1\<lparr>k_caps := caps, k_boxes := ipc_add_domain 2 (k_boxes k1), k_pagers := pager_add_domain 2 1 (k_pagers k1)\<rparr>"
  have "resolve_user_page (k_doms k1) 2 USER_SPACE_BASE (k_mem k1) = Inr None" by (simp add: resolve_user_page_def p w)
  then have "map_image w_mapper (k_doms k2) w_elf w_image 2 (k_mem k2, k_phys k2) = Inr (False, k_mem k1, k_phys k1)"
    using none by (simp add: map_image_def w_image_def w_seg_pages k2_def m1 split: option.splits)
  then have "\<exists>k3. build_program w_mapper 0x9000 w_elf w_image 2 k2 = Inr (False, k3)" by (simp add: build_program_def)
  then show ?thesis using k1 g by (auto simp: spawn_elf_def w_image_parse w_image_pages MAX_IMAGE_PAGES_def k2_def Let_def)
qed

section \<open>Properties\<close>

text \<open>
  C31: what a loaded program may do. When \<open>spawn_elf\<close> succeeds, the image was accepted by the parser and its pages are
  within budget; the new domain has an id that was not in use; it holds exactly the three capabilities
  needed to reach the file services, and its loader is its pager; its mailbox is empty; one new task,
  ready, starts at the image's entry in the new address space. No other domain's capabilities, mailbox
  or pager change.
\<close>

theorem spawn_elf_confined:
  assumes "spawn_elf mp kst img loader k = Inr (Some d, k')" and "length (k_doms k) < 2 ^ 64"
  shows "\<exists>elf pages slot root. parse img = Some elf \<and> image_pages USER_STACK_PAGES (img_segments elf) = Some pages \<and> pages \<le> MAX_IMAGE_PAGES \<and>
    \<not> is_alive (k_doms k) d \<and> (\<forall>e. is_alive (k_doms k') e \<longleftrightarrow> e = d \<or> is_alive (k_doms k) e) \<and>
    (\<forall>e. held (k_caps k') e = (if e = d then {SendTo MOUNT_SRV_DOMAIN, SendTo MFS_SRV_DOMAIN, MapInto MFS_SRV_DOMAIN} else held (k_caps k) e)) \<and>
    (\<forall>e. mailbox_row (k_boxes k') e = (if e = d then [] else mailbox_row (k_boxes k) e)) \<and>
    (\<forall>e. pager_of (k_pagers k') e = (if e = d then Some loader else pager_of (k_pagers k) e)) \<and>
    slot < length (tasks (k_sched k)) \<and> tasks (k_sched k) ! slot = None \<and> pml4_of (k_doms k') d = Inr root \<and>
    tasks (k_sched k') = (tasks (k_sched k))[slot := Some \<lparr>t_id = of_nat slot, t_state = Ready, t_cr3 = root,
                   t_domain = d, t_kernel_stack_top = kst, t_user_entry = img_entry elf, t_user_stack = USER_STACK_TOP,
                   t_sleep_until = 0, t_wait_on = 0, t_wake_deadline = 0, t_reply_target = U64_MAX\<rparr>]"
proof -
  obtain elf pages where e: "parse img = Some elf" "image_pages USER_STACK_PAGES (img_segments elf) = Some pages" "pages \<le> MAX_IMAGE_PAGES"
    using assms(1) by (auto simp: spawn_elf_def split: option.splits if_splits)
  obtain k1 caps k2 where c: "domain_create k = Inr (d, k1)"
      and g: "grant_all d [SendTo MOUNT_SRV_DOMAIN, SendTo MFS_SRV_DOMAIN, MapInto MFS_SRV_DOMAIN] (cap_add_domain d (k_caps k1)) = Inr caps"
      and k2: "k2 = k1\<lparr>k_caps := caps, k_boxes := ipc_add_domain d (k_boxes k1), k_pagers := pager_add_domain d loader (k_pagers k1)\<rparr>"
      and b: "build_program mp kst img elf d k2 = Inr (True, k')"
    using assms(1) e by (auto simp: spawn_elf_def bind_res_Inr_iff Let_def split: if_splits)
  have h: "\<forall>e. held caps e = (if e = d then {SendTo MOUNT_SRV_DOMAIN, SendTo MFS_SRV_DOMAIN, MapInto MFS_SRV_DOMAIN} else held (k_caps k) e)"
    using grant_fresh_domain [of d "k_caps k1"] g domain_create_frame(4) [OF c] by auto
  note B = build_program_Inr [OF b]
  obtain slot root where s: "find_index (\<lambda>t. t = None) (tasks (k_sched k2)) = Some slot" "pml4_of (k_doms k2) d = Inr root"
      "tasks (k_sched k') = (tasks (k_sched k2))[slot := Some \<lparr>t_id = of_nat slot, t_state = Ready, t_cr3 = root,
                   t_domain = d, t_kernel_stack_top = kst, t_user_entry = img_entry elf, t_user_stack = USER_STACK_TOP,
                   t_sleep_until = 0, t_wait_on = 0, t_wake_deadline = 0, t_reply_target = U64_MAX\<rparr>]"
    using B(8) by blast
  have sk: "k_sched k2 = k_sched k" "k_doms k2 = k_doms k1" using domain_create_frame(1) [OF c] by (simp_all add: k2)
  have sl: "slot < length (tasks (k_sched k))" "tasks (k_sched k) ! slot = None" using s(1) by (simp_all add: sk find_index_Some_iff)
  show ?thesis
    using e h s(2,3) sl domain_create_alive [OF c assms(2)] B(1-4) domain_create_frame [OF c]
    by (intro exI [of _ elf] exI [of _ pages] exI [of _ slot] exI [of _ root]) (simp add: sk k2 mailbox_row_add pager_of_add)
qed

theorem spawn_elf_confined_witness:
  "\<exists>k'. spawn_elf w_mapper 0x9000 w_elf 1 (w_kernel 0x1000 2 (rev [16..<48]) (w_sched False)) = Inr (Some 2, k') \<and>
     held (k_caps k') 2 = {SendTo MOUNT_SRV_DOMAIN, SendTo MFS_SRV_DOMAIN, MapInto MFS_SRV_DOMAIN} \<and> pager_of (k_pagers k') 2 = Some 1"
proof -
  define fs where "fs = rev [16..<48 :: nat]"
  have "distinct fs" "\<forall>i \<in> set fs. i < MAX_MANAGED_FRAMES" "11 \<le> length fs" unfolding fs_def by (simp_all add: managed_limit del: upt_conv_Cons)
  then obtain k' where k': "spawn_elf w_mapper 0x9000 w_elf 1 (w_kernel 0x1000 2 fs (w_sched False)) = Inr (Some 2, k')"
    using w_spawn [of fs] by blast
  have "length (k_doms (w_kernel 0x1000 2 fs (w_sched False))) < 2 ^ 64" by simp
  then show ?thesis using spawn_elf_confined [OF k'] k' unfolding fs_def by auto
qed

text \<open>
  C32: a failed load leaves no domain behind. When \<open>spawn_elf\<close> reports failure, the same domains are alive as before;
  no domain holds a capability, a message or a pager entry it did not have, except that the unused id
  the loader had picked has none at all; no task of that id exists, and the port table and the
  pending destructions are as they were.
\<close>

theorem spawn_elf_failure_undone:
  assumes "spawn_elf mp kst img loader k = Inr (None, k')" and "length (k_doms k) < 2 ^ 64"
  shows "(\<forall>e. is_alive (k_doms k') e = is_alive (k_doms k) e) \<and>
    (\<exists>d. \<not> is_alive (k_doms k) d \<and> (\<forall>e. e \<noteq> d \<longrightarrow> held (k_caps k') e = held (k_caps k) e \<and>
        mailbox_row (k_boxes k') e = mailbox_row (k_boxes k) e \<and> pager_of (k_pagers k') e = pager_of (k_pagers k) e \<and>
        irq_row (k_irqs k') e = irq_row (k_irqs k) e) \<and>
      (k' = k \<or> held (k_caps k') d = {} \<and> mailbox_row (k_boxes k') d = [] \<and> pager_of (k_pagers k') d = None \<and>
        (\<forall>t \<in> set (tasks (k_sched k')). \<not> in_domain d t \<and> \<not> waits_on d t))) \<and>
    k_binds k' = k_binds k \<and> k_reclaim k' = k_reclaim k"
proof (cases "k' = k")
  case True
  have "\<not> is_alive (k_doms k) (of_nat (slot_for (k_doms k)))"
    using slot_for_free [of "k_doms k"] unat_of_nat_u64 [of "slot_for (k_doms k)"] assms(2) by (auto simp: is_alive_def vec_get_def)
  then show ?thesis using True by blast
next
  case False
  obtain elf d k1 caps k2 k3 where c: "domain_create k = Inr (d, k1)"
      and g: "grant_all d [SendTo MOUNT_SRV_DOMAIN, SendTo MFS_SRV_DOMAIN, MapInto MFS_SRV_DOMAIN] (cap_add_domain d (k_caps k1)) = Inr caps"
      and k2: "k2 = k1\<lparr>k_caps := caps, k_boxes := ipc_add_domain d (k_boxes k1), k_pagers := pager_add_domain d loader (k_pagers k1)\<rparr>"
      and b: "build_program mp kst img elf d k2 = Inr (False, k3)" and k': "k' = snd (domain_destroy d k3)"
    using assms(1) False by (auto simp: spawn_elf_def bind_res_Inr_iff Let_def split: option.splits if_splits)
  note B = build_program_Inr(1-7,9) [OF b, simplified] and F = domain_create_frame [OF c] and A = domain_create_alive [OF c assms(2)]
  have h: "held caps e = held (k_caps k) e" if "e \<noteq> d" for e
    using grant_fresh_domain [of d "k_caps k1"] g F(4) that by auto
  have al: "is_alive (k_doms k3) d" using A(2) [of d] by (simp add: B k2)
  then obtain dm where dm: "vec_get (k_doms k3) (unat d) = Some (Some dm)"
    by (auto simp: is_alive_def split: option.splits)
  have alive: "is_alive (k_doms k') e = is_alive (k_doms k) e" for e
    unfolding k' is_alive_destroy using A(1) A(2) [of e] by (auto simp: B k2)
  have others: "held (k_caps k') e = held (k_caps k) e \<and> mailbox_row (k_boxes k') e = mailbox_row (k_boxes k) e \<and>
      pager_of (k_pagers k') e = pager_of (k_pagers k) e \<and> irq_row (k_irqs k') e = irq_row (k_irqs k) e" if "e \<noteq> d" for e
    unfolding k' destroy_Some [OF dm] using that h F
    by (simp add: held_remove_domain mailbox_rows.row_reset pager_rows.row_reset irq_rows.row_reset B k2 mailbox_row_add pager_of_add)
  have own: "held (k_caps k') d = {} \<and> mailbox_row (k_boxes k') d = [] \<and> pager_of (k_pagers k') d = None \<and>
      (\<forall>t \<in> set (tasks (k_sched k')). \<not> in_domain d t \<and> \<not> waits_on d t)"
    unfolding k' destroy_Some [OF dm] using sched_remove_clean [of _ d "k_sched k3"]
    by (simp add: held_remove_domain mailbox_rows.row_reset pager_rows.row_reset)
  have "k_binds k' = k_binds k" "k_reclaim k' = k_reclaim k"
    using F B by (simp_all add: k' k2) (simp add: destroy_Some [OF dm])
  then show ?thesis using alive others own A(1) by blast
qed

theorem spawn_elf_failure_undone_witness:
  "\<exists>k'. spawn_elf w_mapper 0x9000 w_elf 1 (w_kernel 0x1000 2 [16] (w_sched False)) = Inr (None, k') \<and> \<not> is_alive (k_doms k') 2"
proof -
  obtain k' where k': "spawn_elf w_mapper 0x9000 w_elf 1 (w_kernel 0x1000 2 [16] (w_sched False)) = Inr (None, k')" using w_spawn_fails by blast
  have len: "length (k_doms (w_kernel 0x1000 2 [16] (w_sched False))) = 2" by simp
  then have "\<not> is_alive (k_doms (w_kernel 0x1000 2 [16] (w_sched False))) 2" by (simp add: is_alive_def vec_get_def)
  then show ?thesis using spawn_elf_failure_undone [OF k'] k' len by auto
qed

end
