(* ===== verification/Unicode.thy ===== *)
theory Unicode
  imports Prelude
begin

text \<open>
  UTF-8 text in the kernel console, \<open>kernel/src/video/unicode.rs\<close>: decoding one character at a byte
  offset, stepping forward and back by characters, and display widths. \<open>utf8_encode\<close> is
  \<open>char::encode_utf8\<close> of the Rust library, \<open>scalar\<close> the condition under which \<open>char::from_u32\<close> succeeds.
\<close>

section \<open>Decoding\<close>

definition utf8_lead :: "u8 \<Rightarrow> (nat \<times> u32) option" where
  "utf8_lead b0 =
     (if b0 AND 0xE0 = 0xC0 then Some (1, ucast (b0 AND 0x1F))
      else if b0 AND 0xF0 = 0xE0 then Some (2, ucast (b0 AND 0x0F))
      else if b0 AND 0xF8 = 0xF0 then Some (3, ucast (b0 AND 0x07))
      else None)"

fun utf8_tail :: "u8 list \<Rightarrow> u32 \<Rightarrow> u32 option" where
  "utf8_tail [] cp = Some cp"
| "utf8_tail (b # bs) cp =
     (if b AND 0xC0 \<noteq> 0x80 then None else utf8_tail bs (push_bit 6 cp OR ucast (b AND 0x3F)))"

definition utf8_min :: "nat \<Rightarrow> u32" where
  "utf8_min need = (if need = 1 then 0x80 else if need = 2 then 0x800 else 0x10000)"

definition utf8_decode :: "u8 list \<Rightarrow> nat \<Rightarrow> (u32 \<times> nat) res" where
  "utf8_decode bytes i =
     bind_res (index_res bytes i) (\<lambda>b0.
       if b0 < 0x80 then Inr (ucast b0, 1)
       else case utf8_lead b0 of
         None \<Rightarrow> Inr (0xFFFD, 1)
       | Some (need, cp0) \<Rightarrow>
           if length bytes \<le> i + need then Inr (0xFFFD, 1)
           else case utf8_tail (take need (drop (i + 1) bytes)) cp0 of
             None \<Rightarrow> Inr (0xFFFD, 1)
           | Some cp \<Rightarrow>
               if cp < utf8_min need \<or> (0xD800 \<le> cp \<and> cp \<le> 0xDFFF) \<or> 0x10FFFF < cp then Inr (0xFFFD, 1)
               else Inr (cp, need + 1))"

definition next_index :: "u8 list \<Rightarrow> nat \<Rightarrow> nat res" where
  "next_index bytes i = bind_res (utf8_decode bytes i) (\<lambda>(_, n). Inr (i + n))"

text \<open>The loop of \<open>prev_index\<close>, which walks back over continuation bytes.\<close>

fun back_to_lead :: "u8 list \<Rightarrow> nat \<Rightarrow> nat res" where
  "back_to_lead bytes 0 = Inr 0"
| "back_to_lead bytes (Suc j) =
     bind_res (index_res bytes (Suc j)) (\<lambda>b.
       if b AND 0xC0 = 0x80 then back_to_lead bytes j else Inr (Suc j))"

definition prev_index :: "u8 list \<Rightarrow> nat \<Rightarrow> nat res" where
  "prev_index bytes i = back_to_lead bytes (i - 1)"

section \<open>Widths\<close>

definition in_ranges :: "(u32 \<times> u32) list \<Rightarrow> u32 \<Rightarrow> bool" where
  "in_ranges rs cp = list_ex (\<lambda>(lo, hi). lo \<le> cp \<and> cp \<le> hi) rs"

definition east_asian_wide :: "u32 \<Rightarrow> bool" where
  "east_asian_wide = in_ranges
     [(0x1100, 0x115F), (0x2E80, 0x303E), (0x3041, 0x33FF), (0x3400, 0x4DBF), (0x4E00, 0x9FFF), (0xA000, 0xA4CF),
      (0xA960, 0xA97F), (0xAC00, 0xD7A3), (0xF900, 0xFAFF), (0xFE10, 0xFE19), (0xFE30, 0xFE6F), (0xFF00, 0xFF60),
      (0xFFE0, 0xFFE6), (0x1F300, 0x1F64F), (0x1F900, 0x1F9FF), (0x20000, 0x3FFFD)]"

definition cp_width :: "u32 \<Rightarrow> u32" where
  "cp_width cp =
     (if 0x20 \<le> cp \<and> cp \<le> 0x7E then 1
      else if cp < 0x20 \<or> cp = 0x7F then 0
      else if east_asian_wide cp then 2 else 1)"

lemma utf8_decode_in:
  assumes "i < length bytes"
  shows "\<exists>cp n. utf8_decode bytes i = Inr (cp, n) \<and> 0 < n \<and> i + n \<le> length bytes"
  using assms by (auto simp: utf8_decode_def not_le split: option.splits)

text \<open>The loop of \<open>str_width\<close> from byte \<open>i\<close> on, with the width so far.\<close>

function str_width_from :: "u8 list \<Rightarrow> nat \<Rightarrow> u32 \<Rightarrow> u32" where
  "str_width_from bytes i w =
     (if i < length bytes
      then case utf8_decode bytes i of
             Inl _ \<Rightarrow> w
           | Inr (cp, n) \<Rightarrow> str_width_from bytes (i + n) (w + cp_width cp)
      else w)"
  by pat_completeness auto
termination
proof (relation "measure (\<lambda>(bytes, i, w). length bytes - i)")
  fix bytes :: "u8 list" and i :: nat and w cp :: u32 and n :: nat and r p
  assume i: "i < length bytes" and r: "utf8_decode bytes i = Inr p" and p: "(cp, n) = p"
  from utf8_decode_in [OF i] r p have "0 < n" by auto
  then show "((bytes, i + n, w + cp_width cp), bytes, i, w) \<in> measure (\<lambda>(bytes, i, w). length bytes - i)" using i by simp
qed simp

declare str_width_from.simps [simp del]

definition str_width :: "u8 list \<Rightarrow> u32" where
  "str_width bytes = str_width_from bytes 0 0"

section \<open>Encoding\<close>

definition scalar :: "u32 \<Rightarrow> bool" where
  "scalar cp \<longleftrightarrow> cp \<le> 0x10FFFF \<and> \<not> (0xD800 \<le> cp \<and> cp \<le> 0xDFFF)"

definition cont_byte :: "nat \<Rightarrow> u32 \<Rightarrow> u8" where
  "cont_byte k cp = 0x80 OR ucast (drop_bit (6 * k) cp AND 0x3F)"

definition utf8_encode :: "u32 \<Rightarrow> u8 list" where
  "utf8_encode cp =
     (if cp < 0x80 then [ucast cp]
      else if cp < 0x800 then [0xC0 OR ucast (drop_bit 6 cp), cont_byte 0 cp]
      else if cp < 0x10000 then [0xE0 OR ucast (drop_bit 12 cp), cont_byte 1 cp, cont_byte 0 cp]
      else [0xF0 OR ucast (drop_bit 18 cp), cont_byte 2 cp, cont_byte 1 cp, cont_byte 0 cp])"

text \<open>Masks, bit by bit.\<close>

lemma low_masks: "(0x3F :: u8) = mask 6" "(0x1F :: u8) = mask 5" "(0x0F :: u8) = mask 4" "(0x07 :: u8) = mask 3" "(0x3F :: u32) = mask 6"
  by (simp_all add: mask_eq_exp_minus_1)

lemma high_masks:
  "(0x80 :: u8) = push_bit 7 (mask 1)" "(0xC0 :: u8) = push_bit 6 (mask 2)" "(0xE0 :: u8) = push_bit 5 (mask 3)"
  "(0xF0 :: u8) = push_bit 4 (mask 4)" "(0xF8 :: u8) = push_bit 3 (mask 5)"
  by (simp_all add: mask_eq_exp_minus_1 push_bit_eq_mult)

lemma mask_bits [simp]:
  "bit (0x3F :: u8) n \<longleftrightarrow> n < 6" "bit (0x1F :: u8) n \<longleftrightarrow> n < 5" "bit (0x0F :: u8) n \<longleftrightarrow> n < 4" "bit (0x07 :: u8) n \<longleftrightarrow> n < 3"
  "bit (0x3F :: u32) n \<longleftrightarrow> n < 6" "bit (0x80 :: u8) n \<longleftrightarrow> n = 7" "bit (0xC0 :: u8) n \<longleftrightarrow> n = 6 \<or> n = 7"
  "bit (0xE0 :: u8) n \<longleftrightarrow> 5 \<le> n \<and> n < 8" "bit (0xF0 :: u8) n \<longleftrightarrow> 4 \<le> n \<and> n < 8" "bit (0xF8 :: u8) n \<longleftrightarrow> 3 \<le> n \<and> n < 8"
proof -
  have "(0x80 :: u8) = 2 ^ 7" by simp
  then show "bit (0x80 :: u8) n \<longleftrightarrow> n = 7" by (simp only: bit_exp_iff) auto
qed (unfold low_masks high_masks, auto simp: bit_simps)

lemma small_bits:
  fixes cp :: "'a::len word"
  assumes "unat cp < 2 ^ m" and "bit cp n"
  shows "n < m"
proof (rule ccontr)
  assume "\<not> n < m"
  then have "unat cp < 2 ^ n" using assms(1) power_increasing [of m n "2 :: nat"] by linarith
  moreover have "bit (unat cp) n" using assms(2) by (simp add: bit_unsigned_iff)
  then have "odd (unat cp div 2 ^ n)" by (simp add: bit_iff_odd)
  ultimately show False by simp
qed

declare bit_numeral_word_iff [simp del]

lemmas byte_bits = bit_and_iff bit_or_iff bit_unsigned_iff bit_drop_bit_eq bit_push_bit_iff

lemma cont_byte_parts: "cont_byte k cp AND 0xC0 = 0x80" "ucast (cont_byte k cp AND 0x3F) = drop_bit (6 * k) cp AND 0x3F"
  unfolding cont_byte_def
  by (rule bit_word_eqI; auto simp: byte_bits)+

text \<open>The leading bytes for two, three and four byte sequences.\<close>

lemma lead_ge: "(0x80 :: u8) \<le> h \<Longrightarrow> 0x80 \<le> h OR x"
  using le_word_or2 [of h x] by simp

lemma lead_2:
  assumes "unat cp < 2 ^ 11"
  shows "utf8_lead (0xC0 OR ucast (drop_bit 6 cp)) = Some (1, drop_bit 6 cp)"
proof -
  note sb = small_bits [OF assms]
  have "(0xC0 OR ucast (drop_bit 6 cp) :: u8) AND 0xE0 = 0xC0" "ucast ((0xC0 OR ucast (drop_bit 6 cp) :: u8) AND 0x1F) = drop_bit 6 cp"
    by (rule bit_word_eqI, auto simp: byte_bits dest: sb)+
  then show ?thesis by (simp add: utf8_lead_def)
qed

lemma lead_3:
  assumes "unat cp < 2 ^ 16"
  shows "utf8_lead (0xE0 OR ucast (drop_bit 12 cp)) = Some (2, drop_bit 12 cp)"
proof -
  note sb = small_bits [OF assms]
  let ?b = "0xE0 OR ucast (drop_bit 12 cp) :: u8"
  have "bit (?b AND 0xE0) 5" by (simp add: byte_bits)
  then have "?b AND 0xE0 \<noteq> 0xC0" by (metis mask_bits(7) numeral_eq_iff num.simps)
  moreover have "?b AND 0xF0 = 0xE0" "ucast (?b AND 0x0F) = drop_bit 12 cp"
    by (rule bit_word_eqI, auto simp: byte_bits dest: sb)+
  ultimately show ?thesis by (simp add: utf8_lead_def)
qed

lemma lead_4:
  assumes "unat cp < 2 ^ 21"
  shows "utf8_lead (0xF0 OR ucast (drop_bit 18 cp)) = Some (3, drop_bit 18 cp)"
proof -
  note sb = small_bits [OF assms]
  let ?b = "0xF0 OR ucast (drop_bit 18 cp) :: u8"
  have "bit (?b AND 0xE0) 5" "bit (?b AND 0xF0) 4" by (simp_all add: byte_bits)
  then have "?b AND 0xE0 \<noteq> 0xC0" "?b AND 0xF0 \<noteq> 0xE0" by (auto dest: arg_cong [where f = "\<lambda>w. bit w 5"] arg_cong [where f = "\<lambda>w. bit w 4"])
  moreover have "?b AND 0xF8 = 0xF0" "ucast (?b AND 0x07) = drop_bit 18 cp"
    by (rule bit_word_eqI, auto simp: byte_bits dest: sb)+
  ultimately show ?thesis by (simp add: utf8_lead_def)
qed

lemma rejoin: "push_bit 6 (drop_bit (6 * Suc k) cp) OR (drop_bit (6 * k) cp AND 0x3F) = drop_bit (6 * k) (cp :: u32)"
proof (rule bit_word_eqI)
  fix n
  have "6 * Suc k + (n - 6) = 6 * k + n" if "6 \<le> n" using that by simp
  then show "bit (push_bit 6 (drop_bit (6 * Suc k) cp) OR (drop_bit (6 * k) cp AND 0x3F)) n = bit (drop_bit (6 * k) cp) n" if "n < LENGTH(32)"
    using that by (cases "6 \<le> n") (auto simp: byte_bits)
qed

lemma tail_step: "utf8_tail (cont_byte k cp # bs) (drop_bit (6 * Suc k) cp) = utf8_tail bs (drop_bit (6 * k) cp)"
  by (simp add: cont_byte_parts rejoin [simplified])

text \<open>Encoding and decoding are inverse, in any context.\<close>

lemma utf8_encode_length: "length (utf8_encode cp) \<in> {1, 2, 3, 4}"
  by (simp add: utf8_encode_def)

lemma decode_multi:
  assumes "\<not> b < 0x80" and "utf8_lead b = Some (length bs, cp0)" and "utf8_tail bs cp0 = Some cp" and "scalar cp" and "\<not> cp < utf8_min (length bs)"
  shows "utf8_decode (pre @ (b # bs) @ post) (length pre) = Inr (cp, Suc (length bs))"
proof -
  have "\<not> (0xD800 \<le> cp \<and> cp \<le> 0xDFFF)" "\<not> 0x10FFFF < cp" using assms(4) by (auto simp: scalar_def)
  moreover have "index_res (pre @ (b # bs) @ post) (length pre) = Inr b" by (simp add: index_res_def)
  ultimately show ?thesis using assms(1-3,5) by (auto simp: utf8_decode_def)
qed

lemma utf8_decode_encode:
  assumes "scalar cp"
  shows "utf8_decode (pre @ utf8_encode cp @ post) (length pre) = Inr (cp, length (utf8_encode cp))"
proof -
  consider "cp < 0x80" | "0x80 \<le> cp" "cp < 0x800" | "0x800 \<le> cp" "cp < 0x10000" | "0x10000 \<le> cp"
    by (meson not_less)
  then show ?thesis
  proof cases
    case 1
    then have "unat cp < 2 ^ 7" by (simp add: word_less_nat_alt)
    note sb = small_bits [OF this]
    have "ucast (ucast cp :: u8) = cp" by (rule bit_word_eqI) (auto simp: byte_bits dest: sb)
    moreover have "(ucast cp :: u8) < 0x80" using 1 by (simp add: word_less_nat_alt unsigned_ucast_eq unsigned_take_bit_eq take_bit_nat_eq_self)
    ultimately show ?thesis using 1 by (simp add: utf8_encode_def utf8_decode_def)
  next
    case 2
    then have l: "unat cp < 2 ^ 11" by (simp add: word_less_nat_alt)
    have e: "utf8_encode cp = [0xC0 OR ucast (drop_bit 6 cp), cont_byte 0 cp]" using 2 by (simp add: utf8_encode_def not_less)
    have "utf8_decode (pre @ ((0xC0 OR ucast (drop_bit 6 cp)) # [cont_byte 0 cp]) @ post) (length pre) = Inr (cp, Suc (length [cont_byte 0 cp]))"
      by (rule decode_multi) (use assms 2 lead_2 [OF l] tail_step [of 0 cp "[]"] in \<open>simp_all add: lead_ge utf8_min_def not_less del: utf8_tail.simps(2)\<close>)
    then show ?thesis by (simp add: e)
  next
    case 3
    then have l: "unat cp < 2 ^ 16" by (simp add: word_less_nat_alt)
    let ?t = "[cont_byte 1 cp, cont_byte 0 cp]"
    have e: "utf8_encode cp = (0xE0 OR ucast (drop_bit 12 cp)) # ?t" using 3 by (simp add: utf8_encode_def word_less_nat_alt word_le_nat_alt)
    have "utf8_decode (pre @ ((0xE0 OR ucast (drop_bit 12 cp)) # ?t) @ post) (length pre) = Inr (cp, Suc (length ?t))"
      by (rule decode_multi) (use assms 3 lead_3 [OF l] tail_step [of 1 cp "[cont_byte 0 cp]"] tail_step [of 0 cp "[]"] in
          \<open>simp_all add: lead_ge utf8_min_def not_less del: utf8_tail.simps(2)\<close>)
    then show ?thesis by (simp add: e)
  next
    case 4
    have l: "unat cp < 2 ^ 21" using assms by (simp add: scalar_def word_le_nat_alt)
    let ?t = "[cont_byte 2 cp, cont_byte 1 cp, cont_byte 0 cp]"
    have e: "utf8_encode cp = (0xF0 OR ucast (drop_bit 18 cp)) # ?t" using 4 by (simp add: utf8_encode_def word_less_nat_alt word_le_nat_alt)
    have t: "utf8_tail ?t (drop_bit 18 cp) = Some cp"
      using tail_step [of 2 cp "[cont_byte 1 cp, cont_byte 0 cp]"] tail_step [of 1 cp "[cont_byte 0 cp]"] tail_step [of 0 cp "[]"]
      by (simp add: numeral_2_eq_2 del: utf8_tail.simps(2))
    have "utf8_decode (pre @ ((0xF0 OR ucast (drop_bit 18 cp)) # ?t) @ post) (length pre) = Inr (cp, Suc (length ?t))"
      by (rule decode_multi) (use assms 4 lead_4 [OF l] t in \<open>simp_all add: lead_ge utf8_min_def not_less del: utf8_tail.simps(2)\<close>)
    then show ?thesis by (simp add: e)
  qed
qed

text \<open>
  The characters of a byte string, as \<open>str::chars\<close> of the Rust library yields them. A byte string that
  is not UTF-8 has none: making a \<open>str\<close> of it without a check is undefined behaviour.
\<close>

function utf8_chars :: "u8 list \<Rightarrow> nat \<Rightarrow> u32 list option" where
  "utf8_chars bytes i =
     (if i < length bytes
      then case utf8_decode bytes i of
             Inl _ \<Rightarrow> None
           | Inr (cp, n) \<Rightarrow>
               if cp = 0xFFFD \<and> n = 1 then None else map_option ((#) cp) (utf8_chars bytes (i + n))
      else Some [])"
  by pat_completeness auto
termination
proof (relation "measure (\<lambda>(bytes, i). length bytes - i)")
  fix bytes :: "u8 list" and i :: nat and cp :: u32 and n :: nat and p
  assume i: "i < length bytes" and r: "utf8_decode bytes i = Inr p" and p: "(cp, n) = p"
  from utf8_decode_in [OF i] r p have "0 < n" by auto
  then show "((bytes, i + n), bytes, i) \<in> measure (\<lambda>(bytes, i). length bytes - i)" using i by simp
qed simp

declare utf8_chars.simps [simp del]

definition utf8_text :: "u32 list \<Rightarrow> u8 list" where
  "utf8_text cps = concat (map utf8_encode cps)"

lemma utf8_text_simps [simp]: "utf8_text [] = []" "utf8_text (c # cs) = utf8_encode c @ utf8_text cs" "utf8_text (cs @ ds) = utf8_text cs @ utf8_text ds"
  by (simp_all add: utf8_text_def)

lemma encode_not_replacement: "\<not> (cp = 0xFFFD \<and> length (utf8_encode cp) = 1)"
  by (auto simp: utf8_encode_def)

lemma utf8_encode_nonempty [simp]: "utf8_encode cp \<noteq> []"
  by (simp add: utf8_encode_def)

lemma chars_text_from:
  "list_all scalar cps \<Longrightarrow> utf8_chars (pre @ utf8_text cps) (length pre) = Some cps"
proof (induction cps arbitrary: pre)
  case Nil
  then show ?case by (simp add: utf8_chars.simps)
next
  case (Cons c cs)
  have "utf8_chars ((pre @ utf8_encode c) @ utf8_text cs) (length (pre @ utf8_encode c)) = Some cs"
    using Cons by (intro Cons.IH) simp
  then show ?case using utf8_decode_encode [of c pre "utf8_text cs"] Cons.prems encode_not_replacement [of c]
    by (subst utf8_chars.simps) simp
qed

lemma width_text_from:
  "list_all scalar cps \<Longrightarrow> str_width_from (pre @ utf8_text cps) (length pre) w = w + sum_list (map cp_width cps)"
proof (induction cps arbitrary: pre w)
  case Nil
  then show ?case by (simp add: str_width_from.simps)
next
  case (Cons c cs)
  have "str_width_from ((pre @ utf8_encode c) @ utf8_text cs) (length (pre @ utf8_encode c)) (w + cp_width c) = w + cp_width c + sum_list (map cp_width cs)"
    using Cons by (intro Cons.IH) simp
  then show ?case using utf8_decode_encode [of c pre "utf8_text cs"] Cons.prems
    by (subst str_width_from.simps) (simp add: add.assoc)
qed

lemma str_width_text: "list_all scalar cps \<Longrightarrow> str_width (utf8_text cps) = sum_list (map cp_width cps)"
  using width_text_from [of cps "[]" 0] by (simp add: str_width_def)

lemma text_chars:
  assumes "utf8_chars bytes i = Some cps"
  shows "list_all scalar cps"
  using assms
proof (induction bytes i arbitrary: cps rule: utf8_chars.induct)
  case (1 bytes i)
  show ?case
  proof (cases "i < length bytes")
    case True
    then obtain cp n where d: "utf8_decode bytes i = Inr (cp, n)" using utf8_decode_in by blast
    from 1(2) True d obtain cs where cs: "\<not> (cp = 0xFFFD \<and> n = 1)" "utf8_chars bytes (i + n) = Some cs" "cps = cp # cs"
      by (subst (asm) utf8_chars.simps) (auto split: if_splits)
    have "scalar cp" using d cs(1) True
      by (auto simp: utf8_decode_def scalar_def not_less word_less_nat_alt word_le_nat_alt unsigned_ucast_eq unsigned_take_bit_eq
            take_bit_nat_eq_self split: option.splits if_splits)
    moreover have "list_all scalar cs" by (rule 1(1) [OF True d refl cs(1,2)])
    ultimately show ?thesis using cs(3) by simp
  next
    case False
    then show ?thesis using 1(2) by (subst (asm) utf8_chars.simps) auto
  qed
qed

text \<open>Stepping back from the end of a character.\<close>

lemma cont_is_cont: "cont_byte k cp AND 0xC0 = 0x80"
  by (rule cont_byte_parts)

lemma lead_not_cont: "h AND 0xC0 = 0xC0 \<Longrightarrow> (h OR x) AND 0xC0 \<noteq> (0x80 :: u8)"
proof
  assume h: "h AND 0xC0 = 0xC0" and e: "(h OR x) AND 0xC0 = 0x80"
  have "bit (h AND 0xC0) 6" unfolding h by simp
  then have "bit ((h OR x) AND 0xC0) 6" by (simp add: byte_bits)
  then show False unfolding e by simp
qed

lemma lead_byte:
  "scalar cp \<Longrightarrow> \<exists>b bs. utf8_encode cp = b # bs \<and> b AND 0xC0 \<noteq> 0x80 \<and> list_all (\<lambda>c. c AND 0xC0 = 0x80) bs"
proof (cases "cp < 0x80")
  case True
  then have "\<not> bit (ucast cp :: u8) 7" using small_bits [of cp 7 7] by (auto simp: byte_bits word_less_nat_alt)
  then have "\<not> bit ((ucast cp :: u8) AND 0xC0) 7" by (simp add: byte_bits)
  then have "(ucast cp :: u8) AND 0xC0 \<noteq> 0x80" by (auto dest: arg_cong [where f = "\<lambda>w. bit w 7"])
  then show ?thesis using True by (simp add: utf8_encode_def)
next
  case False
  then show ?thesis by (simp add: utf8_encode_def lead_not_cont cont_byte_parts)
qed

lemma back_over_tail:
  assumes "list_all (\<lambda>c. c AND 0xC0 = 0x80) bs" and "b AND 0xC0 \<noteq> 0x80"
  shows "back_to_lead (pre @ b # bs @ post) (length pre + length bs) = Inr (length pre)"
  using assms(1)
proof (induction bs arbitrary: post rule: rev_induct)
  case Nil
  then show ?case using assms(2) by (cases pre) simp_all
next
  case (snoc c bs)
  have i: "back_to_lead (pre @ b # bs @ (c # post)) (length pre + length bs) = Inr (length pre)" using snoc by simp
  have "index_res (pre @ b # bs @ c # post) (Suc (length pre + length bs)) = Inr c" by (simp add: index_res_def nth_append)
  then show ?case using snoc.prems i by simp
qed

lemma prev_index_encode:
  assumes "scalar cp"
  shows "prev_index (pre @ utf8_encode cp @ post) (length pre + length (utf8_encode cp)) = Inr (length pre)"
proof -
  obtain b bs where b: "utf8_encode cp = b # bs" "b AND 0xC0 \<noteq> 0x80" "list_all (\<lambda>c. c AND 0xC0 = 0x80) bs" using lead_byte [OF assms] by blast
  then show ?thesis using back_over_tail [OF b(3,2), of pre post] by (simp add: prev_index_def)
qed

section \<open>Properties\<close>

text \<open>
  C33: text survives the byte buffer. For every sequence of characters, the bytes that encode it decode to exactly
  that sequence, the display width of the bytes is the sum of the widths of the characters, and stepping
  forward or back from a character boundary lands on the neighbouring boundary, never inside a character.
\<close>

theorem utf8_text_roundtrip:
  assumes "list_all scalar cps"
  shows "utf8_chars (utf8_text cps) 0 = Some cps \<and> str_width (utf8_text cps) = sum_list (map cp_width cps) \<and>
    (\<forall>pre c post. cps = pre @ c # post \<longrightarrow>
       next_index (utf8_text cps) (length (utf8_text pre)) = Inr (length (utf8_text (pre @ [c]))) \<and>
       prev_index (utf8_text cps) (length (utf8_text (pre @ [c]))) = Inr (length (utf8_text pre)))"
proof (intro conjI allI impI)
  show "utf8_chars (utf8_text cps) 0 = Some cps" using chars_text_from [OF assms, of "[]"] by simp
  show "str_width (utf8_text cps) = sum_list (map cp_width cps)" by (rule str_width_text [OF assms])
next
  fix pre c post
  assume c: "cps = pre @ c # post"
  then have "scalar c" using assms by simp
  then show "next_index (utf8_text cps) (length (utf8_text pre)) = Inr (length (utf8_text (pre @ [c])))"
    "prev_index (utf8_text cps) (length (utf8_text (pre @ [c]))) = Inr (length (utf8_text pre))"
    using utf8_decode_encode [of c "utf8_text pre" "utf8_text post"] prev_index_encode [of c "utf8_text pre" "utf8_text post"]
    by (simp_all add: c next_index_def)
qed

theorem utf8_text_roundtrip_witness:
  "utf8_chars (utf8_text [0x41, 0x4E2D]) 0 = Some [0x41, 0x4E2D] \<and> str_width (utf8_text [0x41, 0x4E2D]) = 3 \<and>
   prev_index (utf8_text [0x41, 0x4E2D]) 4 = Inr 1"
proof -
  have s: "list_all scalar [0x41, 0x4E2D]" by (simp add: scalar_def)
  have l: "length (utf8_text [0x41]) = 1" "length (utf8_text ([0x41] @ [0x4E2D])) = 4" by (simp_all add: utf8_encode_def)
  have w: "sum_list (map cp_width [0x41, 0x4E2D]) = 3" by (simp add: cp_width_def east_asian_wide_def in_ranges_def)
  have "prev_index (utf8_text [0x41, 0x4E2D]) (length (utf8_text ([0x41] @ [0x4E2D]))) = Inr (length (utf8_text [0x41]))"
    using utf8_text_roundtrip [OF s] by (metis append_Cons append_Nil)
  then show ?thesis using utf8_text_roundtrip [OF s] unfolding l w by blast
qed

end
