(* ===== verification/Console.thy ===== *)
theory Console
  imports Unicode Klog Frames
begin

text \<open>
  The kernel console, \<open>kernel/src/video/mod.rs\<close>: a ring of 512 committed lines, the line being written, the
  scroll position, and the flag that hands the screen to a user process. Output is mirrored to the
  serial port and captured in the kernel log. What is drawn on the screen is a function of this state;
  the drawing itself (pixels, glyphs, cursor) is not modelled.

  A Rust \<open>str\<close> is a list of scalar values here; its bytes are \<open>utf8_text\<close> of it. Subtractions on \<open>u32\<close>
  wrap, as in a release build: a frame buffer narrower than the margin counts as very wide.
\<close>

section \<open>State\<close>

definition MARGIN :: u32 where
  "MARGIN = 16"

definition CHAR_WIDTH :: u32 where
  "CHAR_WIDTH = 8"

definition CHAR_HEIGHT :: u32 where
  "CHAR_HEIGHT = 16"

definition LINE_HEIGHT :: u32 where
  "LINE_HEIGHT = CHAR_HEIGHT + 4"

definition HISTORY_LINES :: nat where
  "HISTORY_LINES = 512"

definition LINE_BYTES :: nat where
  "LINE_BYTES = 200"

record console =
  fb_ptr :: u64
  fb_w :: u32
  fb_h :: u32
  v_base :: u64
  v_bytes :: u64
  v_geom :: "u32 \<times> u32 \<times> u32 \<times> u32"
  taken_over :: bool
  print_bypass :: bool
  hist_buf :: "u8 list list"
  hist_len :: "nat list"
  hist_count :: nat
  hist_start :: nat
  line_buf :: "u8 list"
  line_len :: nat
  scroll_offset :: nat
  scancode_ext :: bool
  serial :: "u8 list"

definition console_start :: console where
  "console_start = \<lparr>fb_ptr = 0, fb_w = 0, fb_h = 0, v_base = 0, v_bytes = 0, v_geom = (0, 0, 0, 0), taken_over = False,
     print_bypass = False, hist_buf = replicate HISTORY_LINES (replicate LINE_BYTES 0), hist_len = replicate HISTORY_LINES 0,
     hist_count = 0, hist_start = 0, line_buf = replicate LINE_BYTES 0, line_len = 0, scroll_offset = 0, scancode_ext = False,
     serial = []\<rparr>"

definition console_init :: "boot_info \<Rightarrow> console \<Rightarrow> console" where
  "console_init info c =
     c\<lparr>fb_ptr := bi_fb_addr info, fb_w := bi_fb_width info, fb_h := bi_fb_height info,
       v_base := bi_fb_addr info,
       v_bytes := ucast (bi_fb_height info) * ucast (bi_fb_stride info) * (ucast (bi_fb_bpp info) div 8),
       v_geom := (bi_fb_width info, bi_fb_height info, bi_fb_stride info, bi_fb_bpp info)\<rparr>"

definition fb_ready :: "console \<Rightarrow> bool" where
  "fb_ready c \<longleftrightarrow> fb_ptr c \<noteq> 0 \<and> 0 < fb_w c \<and> 0 < fb_h c"

definition rebind :: "u64 \<Rightarrow> console \<Rightarrow> console" where
  "rebind base c = c\<lparr>fb_ptr := base\<rparr>"

definition take_over :: "console \<Rightarrow> console" where
  "take_over c = c\<lparr>taken_over := True\<rparr>"

section \<open>Layout\<close>

definition visible_lines :: "console \<Rightarrow> nat" where
  "visible_lines c = unat ((fb_h c - MARGIN) div LINE_HEIGHT)"

definition hist_visible :: "console \<Rightarrow> nat" where
  "hist_visible c = visible_lines c - 1"

definition max_cols :: "console \<Rightarrow> nat" where
  "max_cols c = unat ((fb_w c - MARGIN) div CHAR_WIDTH)"

section \<open>Lines\<close>

text \<open>\<open>dst[..n].copy_from_slice(&src[..n])\<close>\<close>

definition overwrite :: "u8 list \<Rightarrow> nat \<Rightarrow> u8 list \<Rightarrow> u8 list" where
  "overwrite dst at src = take at dst @ src @ drop (at + length src) dst"

definition history_push :: "u8 list \<Rightarrow> console \<Rightarrow> console" where
  "history_push bytes c =
     (let idx = (hist_start c + hist_count c) mod HISTORY_LINES;
          c' = (if hist_count c < HISTORY_LINES then c\<lparr>hist_count := hist_count c + 1\<rparr>
                else c\<lparr>hist_start := (hist_start c + 1) mod HISTORY_LINES\<rparr>);
          n = (if LINE_BYTES < length bytes then LINE_BYTES else length bytes)
      in c'\<lparr>hist_buf := (hist_buf c)[idx := overwrite (hist_buf c ! idx) 0 (take n bytes)],
            hist_len := (hist_len c)[idx := n]\<rparr>)"

definition commit_line :: "console \<Rightarrow> console" where
  "commit_line c = (history_push (take (line_len c) (line_buf c)) c)\<lparr>line_len := 0\<rparr>"

definition append_cp :: "u32 \<Rightarrow> console \<Rightarrow> console" where
  "append_cp cp c =
     (let w = cp_width cp in
      if w = 0 \<or> \<not> scalar cp then c
      else (let buf = utf8_encode cp;
                n = length buf;
                cols = unat (str_width (take (line_len c) (line_buf c)));
                c' = (if LINE_BYTES < line_len c + n \<or> max_cols c < cols + unat w then commit_line c else c)
            in if line_len c' + n \<le> LINE_BYTES
               then c'\<lparr>line_buf := overwrite (line_buf c') (line_len c') buf, line_len := line_len c' + n\<rparr>
               else c'))"

text \<open>The loop of \<open>line_backspace\<close>: back to the first byte of the last character.\<close>

fun back_lead :: "u8 list \<Rightarrow> nat \<Rightarrow> nat" where
  "back_lead buf 0 = 0"
| "back_lead buf (Suc j) = (if buf ! Suc j AND 0xC0 = 0x80 then back_lead buf j else Suc j)"

definition line_backspace :: "console \<Rightarrow> console" where
  "line_backspace c = (if line_len c = 0 then c else c\<lparr>line_len := back_lead (line_buf c) (line_len c - 1)\<rparr>)"

definition append_char :: "u32 \<Rightarrow> console \<Rightarrow> console" where
  "append_char ch c = (if ch = 0x0A then commit_line c else if ch = 0x08 then line_backspace c else append_cp ch c)"

definition append_text :: "u32 list \<Rightarrow> console \<Rightarrow> console" where
  "append_text s c = fold append_char s c"

section \<open>Output\<close>

definition serial_write :: "u8 list \<Rightarrow> console \<Rightarrow> console" where
  "serial_write bs c = c\<lparr>serial := serial c @ concat (map (\<lambda>b. if b = 0x0A then [0x0D, b] else [b]) bs)\<rparr>"

definition con_print :: "u32 list \<Rightarrow> console \<times> log_state \<Rightarrow> console \<times> log_state" where
  "con_print s st =
     (case st of (c, lg) \<Rightarrow>
        let c' = serial_write (utf8_text s) c; lg' = capture_bytes (utf8_text s) lg
        in if print_bypass c then (if fb_ready c' then (append_text s c', lg') else (c', lg'))
           else if taken_over c' then (c', lg')
           else (append_text s c', lg'))"

definition con_println :: "u32 list \<Rightarrow> console \<times> log_state \<Rightarrow> console \<times> log_state" where
  "con_println s st = con_print [0x0A] (con_print s st)"

definition hex_digit :: "u64 \<Rightarrow> u32" where
  "hex_digit d = (if d < 10 then 0x30 + ucast d else 0x41 + ucast (d - 10))"

definition print_hex :: "u64 \<Rightarrow> console \<times> log_state \<Rightarrow> console \<times> log_state" where
  "print_hex v = con_print (map (\<lambda>i. hex_digit (drop_bit (60 - i * 4) v AND 0xF)) [0..<16])"

fun dec_digits :: "nat \<Rightarrow> u64 \<Rightarrow> u32 list \<Rightarrow> u32 list" where
  "dec_digits 0 val acc = acc"
| "dec_digits (Suc i) val acc = (if val = 0 then acc else dec_digits i (val div 10) ((0x30 + ucast (val mod 10)) # acc))"

definition print_u64 :: "u64 \<Rightarrow> console \<times> log_state \<Rightarrow> console \<times> log_state" where
  "print_u64 v = (if v = 0 then con_print [0x30] else con_print (dec_digits 20 v []))"

section \<open>Clearing, scrolling, panics\<close>

definition clear_screen :: "console \<Rightarrow> console" where
  "clear_screen c =
     (if taken_over c then c
      else c\<lparr>hist_count := 0, hist_start := 0, line_buf := replicate LINE_BYTES 0, line_len := 0, scroll_offset := 0,
             scancode_ext := False\<rparr>)"

definition scroll_up :: "nat \<Rightarrow> console \<Rightarrow> console" where
  "scroll_up lines c =
     (if taken_over c then c
      else c\<lparr>scroll_offset := min (min (scroll_offset c + lines) (2 ^ 64 - 1)) (hist_count c - hist_visible c)\<rparr>)"

definition scroll_down :: "nat \<Rightarrow> console \<Rightarrow> console" where
  "scroll_down lines c = (if taken_over c then c else c\<lparr>scroll_offset := scroll_offset c - lines\<rparr>)"

definition scroll_to_bottom :: "console \<Rightarrow> console" where
  "scroll_to_bottom c = c\<lparr>scroll_offset := 0\<rparr>"

definition handle_scancode :: "u8 \<Rightarrow> console \<Rightarrow> bool \<times> console" where
  "handle_scancode sc c =
     (if taken_over c then (False, c)
      else if sc = 0xE0 then (False, c\<lparr>scancode_ext := True\<rparr>)
      else if sc AND 0x80 \<noteq> 0 then (False, c\<lparr>scancode_ext := False\<rparr>)
      else if \<not> scancode_ext c then (False, scroll_to_bottom c)
      else (let c' = c\<lparr>scancode_ext := False\<rparr>;
                page = max (hist_visible c') 1
            in if sc = 0x48 then (True, scroll_up 1 c')
               else if sc = 0x50 then (True, scroll_down 1 c')
               else if sc = 0x49 then (True, scroll_up page c')
               else if sc = 0x51 then (True, scroll_down page c')
               else (False, c')))"

definition panic_begin :: "console \<Rightarrow> console" where
  "panic_begin c =
     (let c' = c\<lparr>print_bypass := True\<rparr>
      in if \<not> fb_ready c' then c'
         else c'\<lparr>taken_over := False, hist_count := 0, hist_start := 0, line_len := 0, scroll_offset := 0\<rparr>)"

text \<open>The committed lines, oldest first, and what \<open>redraw\<close> shows of them.\<close>

definition hist_view :: "console \<Rightarrow> u8 list list" where
  "hist_view c =
     map (\<lambda>i. let idx = (hist_start c + i) mod HISTORY_LINES in take (hist_len c ! idx) (hist_buf c ! idx)) [0..<hist_count c]"

definition cur_line :: "console \<Rightarrow> u8 list" where
  "cur_line c = take (line_len c) (line_buf c)"

definition redraw_lines :: "console \<Rightarrow> u8 list list" where
  "redraw_lines c =
     (let tot = hist_count c;
          offset = min (scroll_offset c) tot;
          stop = tot - offset;
          rows = (if offset = 0 then hist_visible c else visible_lines c);
          start = stop - rows
      in take (stop - start) (drop start (hist_view c)) @
         (if offset = 0 \<and> MARGIN + of_nat (stop - start) * LINE_HEIGHT + LINE_HEIGHT \<le> fb_h c then [cur_line c] else []))"

section \<open>The ring of lines\<close>

definition console_inv :: "console \<Rightarrow> bool" where
  "console_inv c \<longleftrightarrow> length (hist_buf c) = HISTORY_LINES \<and> (\<forall>row \<in> set (hist_buf c). length row = LINE_BYTES) \<and>
     length (hist_len c) = HISTORY_LINES \<and> (\<forall>n \<in> set (hist_len c). n \<le> LINE_BYTES) \<and> hist_count c \<le> HISTORY_LINES \<and>
     hist_start c < HISTORY_LINES \<and> (hist_count c < HISTORY_LINES \<longrightarrow> hist_start c = 0) \<and>
     length (line_buf c) = LINE_BYTES \<and> line_len c \<le> LINE_BYTES"

lemma length_overwrite: "at + length src \<le> length dst \<Longrightarrow> length (overwrite dst at src) = length dst"
  by (simp add: overwrite_def)

lemma take_overwrite: "at \<le> length dst \<Longrightarrow> take (at + length src) (overwrite dst at src) = take at dst @ src"
  by (simp add: overwrite_def)

lemma history_lines_pos [simp]: "0 < HISTORY_LINES"
  by (simp add: HISTORY_LINES_def)

lemma set_update_all: "\<forall>x \<in> set xs. P x \<Longrightarrow> P y \<Longrightarrow> \<forall>x \<in> set (xs[i := y]). P x"
  using set_update_subset_insert by fast

lemma inv_set_row:
  assumes "console_inv c" and "length row = LINE_BYTES" and "n \<le> LINE_BYTES"
  shows "console_inv (c\<lparr>hist_buf := (hist_buf c)[i := row], hist_len := (hist_len c)[i := n]\<rparr>)"
  using assms set_update_all [of "hist_buf c" "\<lambda>r. length r = LINE_BYTES" row i] set_update_all [of "hist_len c" "\<lambda>n. n \<le> LINE_BYTES" n i]
  by (simp add: console_inv_def)

lemma inv_advance:
  assumes "console_inv c"
  shows "console_inv (if hist_count c < HISTORY_LINES then c\<lparr>hist_count := hist_count c + 1\<rparr>
      else c\<lparr>hist_start := (hist_start c + 1) mod HISTORY_LINES\<rparr>)"
  using assms by (simp add: console_inv_def)

lemma history_push_inv:
  assumes "console_inv c"
  shows "console_inv (history_push bytes c)"
proof -
  define c1 where "c1 = (if hist_count c < HISTORY_LINES then c\<lparr>hist_count := hist_count c + 1\<rparr>
      else c\<lparr>hist_start := (hist_start c + 1) mod HISTORY_LINES\<rparr>)"
  define i where "i = (hist_start c + hist_count c) mod HISTORY_LINES"
  have i: "i < HISTORY_LINES" by (simp add: i_def)
  then have "length (hist_buf c ! i) = LINE_BYTES" using assms by (simp add: console_inv_def)
  then have o: "length (overwrite (hist_buf c ! i) 0 (take LINE_BYTES bytes)) = LINE_BYTES" by (subst length_overwrite) simp_all
  have "history_push bytes c = c1\<lparr>hist_buf := (hist_buf c1)[i := overwrite (hist_buf c ! i) 0 (take LINE_BYTES bytes)],
      hist_len := (hist_len c1)[i := min LINE_BYTES (length bytes)]\<rparr>"
    by (simp add: history_push_def c1_def i_def min_def Let_def)
  then show ?thesis using inv_set_row [OF inv_advance [OF assms] o, of "min LINE_BYTES (length bytes)" i] by (simp add: c1_def)
qed

definition hist_row :: "console \<Rightarrow> nat \<Rightarrow> u8 list" where
  "hist_row c i = take (hist_len c ! i) (hist_buf c ! i)"

lemma hist_view_rows: "hist_view c = map (\<lambda>i. hist_row c ((hist_start c + i) mod HISTORY_LINES)) [0..<hist_count c]"
  by (simp add: hist_view_def hist_row_def Let_def)

lemma history_push_row:
  assumes "console_inv c" and "i < HISTORY_LINES"
  shows "hist_row (history_push bytes c) i =
    (if i = (hist_start c + hist_count c) mod HISTORY_LINES then take LINE_BYTES bytes else hist_row c i)"
proof -
  let ?i = "(hist_start c + hist_count c) mod HISTORY_LINES"
  have "length (hist_buf c ! ?i) = LINE_BYTES" using assms by (simp add: console_inv_def)
  then show ?thesis using assms take_overwrite [of 0 "hist_buf c ! ?i" "take LINE_BYTES bytes"]
    by (auto simp: hist_row_def history_push_def Let_def console_inv_def overwrite_def)
qed

lemma mod_shift_neq:
  fixes s j n :: nat
  assumes "0 < j" and "j < n"
  shows "(s + j) mod n \<noteq> s mod n"
proof
  assume "(s + j) mod n = s mod n"
  then have "n dvd (s + j) - s" by (simp add: mod_eq_dvd_iff_nat)
  then show False using assms by (simp add: nat_dvd_not_less)
qed

lemma hist_view_push:
  assumes "console_inv c"
  shows "hist_view (history_push bytes c) =
    (if hist_count c < HISTORY_LINES then hist_view c else tl (hist_view c)) @ [take LINE_BYTES bytes]"
proof (cases "hist_count c < HISTORY_LINES")
  case True
  then have s: "hist_start c = 0" using assms by (simp add: console_inv_def)
  have cnt: "hist_count (history_push bytes c) = Suc (hist_count c)" "hist_start (history_push bytes c) = 0"
    using True s by (simp_all add: history_push_def Let_def)
  have "hist_view (history_push bytes c) = map (hist_row (history_push bytes c)) [0..<Suc (hist_count c)]"
    unfolding hist_view_rows cnt using True by (intro map_cong) auto
  also have "\<dots> = map (hist_row c) [0..<hist_count c] @ [take LINE_BYTES bytes]"
    using True history_push_row [OF assms, of _ bytes] by (simp add: s)
  also have "map (hist_row c) [0..<hist_count c] = hist_view c"
    unfolding hist_view_rows s using True by (intro map_cong) auto
  finally show ?thesis using True by simp
next
  case False
  then have cnt: "hist_count c = HISTORY_LINES" using assms by (simp add: console_inv_def)
  have new: "hist_count (history_push bytes c) = HISTORY_LINES" "hist_start (history_push bytes c) = (hist_start c + 1) mod HISTORY_LINES"
    using cnt by (simp_all add: history_push_def Let_def)
  obtain m where m: "HISTORY_LINES = Suc m" using gr0_implies_Suc [OF history_lines_pos] by blast
  let ?row = "\<lambda>i. hist_row c ((hist_start c + i) mod HISTORY_LINES)"
  have at: "hist_row (history_push bytes c) ((hist_start (history_push bytes c) + i) mod HISTORY_LINES) =
      (if i = m then take LINE_BYTES bytes else ?row (Suc i))" if "i < Suc m" for i
  proof -
    have "(hist_start (history_push bytes c) + i) mod HISTORY_LINES = (hist_start c + Suc i) mod HISTORY_LINES"
      unfolding new by (simp add: mod_simps)
    moreover have "(hist_start c + Suc i) mod HISTORY_LINES = hist_start c mod HISTORY_LINES \<longleftrightarrow> i = m"
      using mod_shift_neq [of "Suc i" HISTORY_LINES "hist_start c"] that m by (cases "i = m") auto
    ultimately show ?thesis using history_push_row [OF assms, of "(hist_start c + Suc i) mod HISTORY_LINES" bytes] cnt by simp
  qed
  have "hist_view (history_push bytes c) = map (\<lambda>i. if i = m then take LINE_BYTES bytes else ?row (Suc i)) [0..<Suc m]"
    unfolding hist_view_rows new(1) m [symmetric] using at m by (intro map_cong) auto
  also have "\<dots> = map (\<lambda>i. ?row (Suc i)) [0..<m] @ [take LINE_BYTES bytes]" by simp
  also have "map (\<lambda>i. ?row (Suc i)) [0..<m] = map ?row [Suc 0..<Suc m]" by (simp add: map_Suc_upt [symmetric] del: upt_Suc)
  also have "\<dots> = tl (hist_view c)" unfolding hist_view_rows cnt m by (subst (2) upt_conv_Cons) simp_all
  finally show ?thesis using False by simp
qed

lemma history_push_frame [simp]:
  "line_buf (history_push b c) = line_buf c" "line_len (history_push b c) = line_len c" "fb_w (history_push b c) = fb_w c"
  "fb_h (history_push b c) = fb_h c" "taken_over (history_push b c) = taken_over c"
  by (simp_all add: history_push_def Let_def)

section \<open>Well-formed text\<close>

definition shown :: "u32 \<Rightarrow> bool" where
  "shown cp \<longleftrightarrow> scalar cp \<and> cp_width cp \<noteq> 0"

definition cols :: "u32 list \<Rightarrow> nat" where
  "cols cps = sum_list (map (\<lambda>cp. unat (cp_width cp)) cps)"

text \<open>A line as the console promises it: whole characters, none invisible, within the screen and the buffer.\<close>

definition line_ok :: "nat \<Rightarrow> u8 list \<Rightarrow> bool" where
  "line_ok width bs \<longleftrightarrow> (\<exists>cps. bs = utf8_text cps \<and> list_all shown cps \<and> cols cps \<le> width \<and> length bs \<le> LINE_BYTES)"

definition console_ok :: "console \<Rightarrow> bool" where
  "console_ok c \<longleftrightarrow> console_inv c \<and> line_ok (max_cols c) (cur_line c) \<and> (\<forall>l \<in> set (hist_view c). line_ok (max_cols c) l)"

lemma cp_width_le: "unat (cp_width cp) \<le> 2"
  by (simp add: cp_width_def)

lemma unat_cols: "length cps \<le> 2 ^ 16 \<Longrightarrow> unat (sum_list (map cp_width cps)) = cols cps \<and> cols cps \<le> 2 * length cps"
proof (induction cps)
  case Nil
  then show ?case by (simp add: cols_def)
next
  case (Cons cp cps)
  then have i: "unat (sum_list (map cp_width cps)) = cols cps" "cols cps \<le> 2 * length cps" by simp_all
  have "unat (cp_width cp) + cols cps < 2 ^ 32" using cp_width_le [of cp] i(2) Cons.prems by simp
  then show ?case using i cp_width_le [of cp] by (simp add: cols_def unat_word_ariths)
qed

lemma text_length: "length cps \<le> length (utf8_text cps)"
proof (induction cps)
  case (Cons cp cps)
  have "1 \<le> length (utf8_encode cp)" using utf8_encode_length [of cp] by auto
  then show ?case using Cons by simp
qed simp

lemma shown_scalar: "list_all shown cps \<Longrightarrow> list_all scalar cps"
  by (auto simp: list_all_iff shown_def)

lemma line_width:
  assumes "list_all shown cps" and "length (utf8_text cps) \<le> LINE_BYTES"
  shows "unat (str_width (utf8_text cps)) = cols cps"
  using unat_cols [of cps] text_length [of cps] assms by (simp add: str_width_text [OF shown_scalar] LINE_BYTES_def)

lemma line_ok_nil [simp]: "line_ok w []"
  unfolding line_ok_def by (rule exI [of _ "[]"]) (simp add: cols_def)

lemma commit_line_facts:
  assumes "console_inv c"
  shows "console_inv (commit_line c)" and "cur_line (commit_line c) = []" and "max_cols (commit_line c) = max_cols c"
    and "hist_view (commit_line c) = (if hist_count c < HISTORY_LINES then hist_view c else tl (hist_view c)) @ [cur_line c]"
    and "hist_count (commit_line c) = min HISTORY_LINES (Suc (hist_count c))"
proof -
  show "console_inv (commit_line c)" using history_push_inv [OF assms] by (simp add: commit_line_def console_inv_def)
  have "hist_view (commit_line c) = hist_view (history_push (cur_line c) c)"
    by (simp add: commit_line_def hist_view_def cur_line_def)
  moreover have "take LINE_BYTES (cur_line c) = cur_line c" using assms by (simp add: cur_line_def console_inv_def)
  ultimately show "hist_view (commit_line c) = (if hist_count c < HISTORY_LINES then hist_view c else tl (hist_view c)) @ [cur_line c]"
    using hist_view_push [OF assms, of "cur_line c"] by simp
  show "hist_count (commit_line c) = min HISTORY_LINES (Suc (hist_count c))"
    using assms by (auto simp: commit_line_def history_push_def Let_def console_inv_def)
qed (simp_all add: commit_line_def cur_line_def max_cols_def)

lemma set_tl: "x \<in> set (tl xs) \<Longrightarrow> x \<in> set xs"
  by (cases xs) simp_all

lemma commit_line_ok: "console_ok c \<Longrightarrow> console_ok (commit_line c)"
  using commit_line_facts [of c] by (auto simp: console_ok_def dest: set_tl)

text \<open>Writing a character that fits.\<close>

definition put_cp :: "u32 \<Rightarrow> console \<Rightarrow> console" where
  "put_cp cp c = c\<lparr>line_buf := overwrite (line_buf c) (line_len c) (utf8_encode cp), line_len := line_len c + length (utf8_encode cp)\<rparr>"

lemma put_cp_facts:
  assumes "console_inv c" and "line_len c + length (utf8_encode cp) \<le> LINE_BYTES"
  shows "console_inv (put_cp cp c)" and "cur_line (put_cp cp c) = cur_line c @ utf8_encode cp" and "hist_view (put_cp cp c) = hist_view c"
    and "max_cols (put_cp cp c) = max_cols c" and "hist_count (put_cp cp c) = hist_count c"
proof -
  have l: "length (line_buf c) = LINE_BYTES" "line_len c \<le> LINE_BYTES" using assms(1) by (simp_all add: console_inv_def)
  show "console_inv (put_cp cp c)" using assms l by (simp add: console_inv_def put_cp_def length_overwrite)
  show "cur_line (put_cp cp c) = cur_line c @ utf8_encode cp" using take_overwrite [of "line_len c" "line_buf c" "utf8_encode cp"] l
    by (simp add: cur_line_def put_cp_def)
qed (simp_all add: put_cp_def hist_view_def max_cols_def)

lemma append_cp_cases:
  assumes "console_ok c" and "2 \<le> max_cols c"
  obtains (skip) "\<not> shown cp" "append_cp cp c = c"
    | (fits) "shown cp" "append_cp cp c = put_cp cp c" "line_len c + length (utf8_encode cp) \<le> LINE_BYTES"
        "unat (str_width (cur_line c)) + unat (cp_width cp) \<le> max_cols c"
    | (wraps) "shown cp" "append_cp cp c = put_cp cp (commit_line c)"
proof (cases "shown cp")
  case False
  then show thesis using skip by (auto simp: append_cp_def shown_def Let_def)
next
  case True
  have n: "length (utf8_encode cp) \<le> LINE_BYTES" using utf8_encode_length [of cp] by (auto simp: LINE_BYTES_def)
  show thesis
  proof (cases "LINE_BYTES < line_len c + length (utf8_encode cp) \<or> max_cols c < unat (str_width (cur_line c)) + unat (cp_width cp)")
    case True
    moreover have "line_len (commit_line c) = 0" by (simp add: commit_line_def)
    ultimately show thesis using wraps \<open>shown cp\<close> n by (auto simp: append_cp_def shown_def Let_def put_cp_def cur_line_def)
  next
    case False
    then show thesis using fits \<open>shown cp\<close> by (auto simp: append_cp_def shown_def Let_def put_cp_def cur_line_def)
  qed
qed

lemma put_cp_ok:
  assumes "console_ok c" and "shown cp" and "line_len c + length (utf8_encode cp) \<le> LINE_BYTES"
    and "unat (str_width (cur_line c)) + unat (cp_width cp) \<le> max_cols c"
  shows "console_ok (put_cp cp c)"
proof -
  have inv: "console_inv c" using assms(1) by (simp add: console_ok_def)
  obtain cps where cps: "cur_line c = utf8_text cps" "list_all shown cps" "length (cur_line c) \<le> LINE_BYTES"
    using assms(1) by (auto simp: console_ok_def line_ok_def)
  then have w: "unat (str_width (cur_line c)) = cols cps" using line_width by simp
  have len: "length (cur_line c) = line_len c" using inv by (simp add: cur_line_def console_inv_def)
  have "line_ok (max_cols c) (cur_line c @ utf8_encode cp)"
    unfolding line_ok_def by (rule exI [of _ "cps @ [cp]"]) (use assms(2-4) cps w len in \<open>simp add: cols_def\<close>)
  then show ?thesis using assms(1) put_cp_facts [OF inv assms(3)] by (simp add: console_ok_def)
qed

lemma append_cp_ok:
  assumes "console_ok c" and "2 \<le> max_cols c"
  shows "console_ok (append_cp cp c)" and "max_cols (append_cp cp c) = max_cols c"
proof -
  have "console_ok (append_cp cp c) \<and> max_cols (append_cp cp c) = max_cols c"
  proof (cases rule: append_cp_cases [OF assms, of cp])
    case 1
    then show ?thesis using assms by simp
  next
    case 2
    then show ?thesis using put_cp_ok [OF assms(1)] by (simp add: put_cp_def max_cols_def)
  next
    case 3
    have inv: "console_inv c" using assms(1) by (simp add: console_ok_def)
    have "line_len (commit_line c) + length (utf8_encode cp) \<le> LINE_BYTES"
      using utf8_encode_length [of cp] by (auto simp: LINE_BYTES_def commit_line_def)
    moreover have "str_width [] = 0" by (simp add: str_width_def str_width_from.simps)
    then have "unat (str_width (cur_line (commit_line c))) + unat (cp_width cp) \<le> max_cols (commit_line c)"
      using commit_line_facts(2,3) [OF inv] cp_width_le [of cp] assms(2) by simp
    ultimately have "console_ok (put_cp cp (commit_line c))" using put_cp_ok [OF commit_line_ok [OF assms(1)]] 3 by blast
    then show ?thesis using 3 commit_line_facts(3) [OF inv] by (simp add: put_cp_def max_cols_def)
  qed
  then show "console_ok (append_cp cp c)" "max_cols (append_cp cp c) = max_cols c" by simp_all
qed

lemma back_lead_text:
  assumes "scalar cp" and "buf = pre @ utf8_encode cp @ post"
  shows "back_lead buf (length pre + length (utf8_encode cp) - 1) = length pre"
proof -
  obtain b bs where b: "utf8_encode cp = b # bs" "b AND 0xC0 \<noteq> 0x80" "list_all (\<lambda>c. c AND 0xC0 = 0x80) bs" using lead_byte [OF assms(1)] by blast
  have "back_lead (pre @ b # bs @ post) (length pre + length bs) = length pre" using b(3)
  proof (induction bs arbitrary: post rule: rev_induct)
    case Nil
    then show ?case using b(2) by (cases pre) simp_all
  next
    case (snoc c bs)
    have "back_lead (pre @ b # bs @ (c # post)) (length pre + length bs) = length pre" using snoc by simp
    moreover have "(pre @ b # bs @ c # post) ! Suc (length pre + length bs) = c" by (simp add: nth_append)
    ultimately show ?case using snoc.prems by simp
  qed
  then show ?thesis by (simp add: assms(2) b(1))
qed

lemma line_backspace_ok:
  assumes "console_ok c"
  shows "console_ok (line_backspace c)" and "max_cols (line_backspace c) = max_cols c"
    and "\<exists>cps. cur_line c = utf8_text cps \<and> cur_line (line_backspace c) = utf8_text (butlast cps)"
proof -
  have inv: "console_inv c" using assms by (simp add: console_ok_def)
  obtain cps where cps: "cur_line c = utf8_text cps" "list_all shown cps" "cols cps \<le> max_cols c" "length (cur_line c) \<le> LINE_BYTES"
    using assms by (auto simp: console_ok_def line_ok_def)
  have len: "length (cur_line c) = line_len c" using inv by (simp add: cur_line_def console_inv_def)
  show "max_cols (line_backspace c) = max_cols c" by (simp add: line_backspace_def max_cols_def)
  have "cur_line (line_backspace c) = utf8_text (butlast cps) \<and> line_len (line_backspace c) \<le> LINE_BYTES"
  proof (cases cps rule: rev_cases)
    case Nil
    then show ?thesis using cps len by (simp add: line_backspace_def)
  next
    case (snoc ds d)
    have n: "line_len c = length (utf8_text ds) + length (utf8_encode d)" using cps(1) snoc len by simp
    have "line_buf c = utf8_text ds @ utf8_encode d @ drop (line_len c) (line_buf c)"
      using cps(1) snoc append_take_drop_id [of "line_len c" "line_buf c"] by (simp add: cur_line_def)
    then have b: "back_lead (line_buf c) (line_len c - 1) = length (utf8_text ds)"
      using back_lead_text [of d "line_buf c" "utf8_text ds" "drop (line_len c) (line_buf c)"] cps(2) snoc n by (simp add: shown_def)
    have pos: "line_len c \<noteq> 0" using n by simp
    have "take (length (utf8_text ds)) (line_buf c) = take (length (utf8_text ds)) (cur_line c)" using n by (simp add: cur_line_def)
    then have "take (length (utf8_text ds)) (line_buf c) = utf8_text ds" using cps(1) snoc by simp
    then show ?thesis using pos b snoc n cps(4) len by (simp add: line_backspace_def cur_line_def)
  qed
  note c = this
  then show "\<exists>cps. cur_line c = utf8_text cps \<and> cur_line (line_backspace c) = utf8_text (butlast cps)" using cps(1) by blast
  have "cols (butlast cps) \<le> cols cps" "length (utf8_text (butlast cps)) \<le> length (utf8_text cps)" "list_all shown (butlast cps)"
    using cps(2) by (cases cps rule: rev_cases; simp add: cols_def)+
  then have "line_ok (max_cols c) (cur_line (line_backspace c))" unfolding line_ok_def using c cps by (intro exI [of _ "butlast cps"]) simp
  then show "console_ok (line_backspace c)" using assms c
    by (auto simp: console_ok_def console_inv_def line_backspace_def hist_view_def max_cols_def)
qed

lemma append_char_ok:
  assumes "console_ok c" and "2 \<le> max_cols c"
  shows "console_ok (append_char ch c)" and "max_cols (append_char ch c) = max_cols c"
  using append_cp_ok [OF assms, of ch] commit_line_ok [OF assms(1)] line_backspace_ok [OF assms(1)] commit_line_facts(3) [of c] assms(1)
  by (auto simp: append_char_def console_ok_def)

lemma append_text_ok:
  assumes "console_ok c" and "2 \<le> max_cols c"
  shows "console_ok (append_text s c) \<and> max_cols (append_text s c) = max_cols c"
  using assms
proof (induction s arbitrary: c)
  case (Cons ch s)
  then show ?case using append_char_ok [OF Cons.prems, of ch] Cons.IH [of "append_char ch c"] by (simp add: append_text_def)
qed (simp add: append_text_def)

text \<open>Everything on the console, as one byte string.\<close>

definition all_text :: "console \<Rightarrow> u8 list" where
  "all_text c = concat (hist_view c) @ cur_line c"

lemma hist_count_mono: "console_inv c \<Longrightarrow> hist_count c \<le> hist_count (append_cp cp c)"
  using commit_line_facts(5) [of c] by (auto simp: append_cp_def Let_def console_inv_def)

lemma append_cp_text:
  assumes "console_ok c" and "2 \<le> max_cols c" and "hist_count (append_cp cp c) < HISTORY_LINES"
  shows "all_text (append_cp cp c) = all_text c @ (if shown cp then utf8_encode cp else [])"
proof -
  have inv: "console_inv c" using assms(1) by (simp add: console_ok_def)
  show ?thesis
  proof (cases rule: append_cp_cases [OF assms(1,2), of cp])
    case 1
    then show ?thesis by simp
  next
    case 2
    then show ?thesis using put_cp_facts [OF inv] by (simp add: all_text_def)
  next
    case 3
    have inv': "console_inv (commit_line c)" by (rule commit_line_facts [OF inv])
    have n: "line_len (commit_line c) + length (utf8_encode cp) \<le> LINE_BYTES"
      using utf8_encode_length [of cp] by (auto simp: LINE_BYTES_def commit_line_def)
    note P = put_cp_facts [OF inv' n] and C = commit_line_facts [OF inv]
    have "hist_count c < HISTORY_LINES" using hist_count_mono [OF inv, of cp] assms(3) by simp
    then show ?thesis using 3 by (simp add: all_text_def P C)
  qed
qed

lemma append_text_lossless:
  assumes "console_ok c" and "2 \<le> max_cols c" and "0x0A \<notin> set s" and "0x08 \<notin> set s" and "hist_count (append_text s c) < HISTORY_LINES"
  shows "all_text (append_text s c) = all_text c @ utf8_text (filter shown s)"
  using assms
proof (induction s arbitrary: c)
  case Nil
  then show ?case by (simp add: append_text_def)
next
  case (Cons ch s)
  let ?c = "append_char ch c"
  have e: "?c = append_cp ch c" using Cons.prems(3,4) by (simp add: append_char_def)
  have mono: "hist_count c' \<le> hist_count (append_text t c')" if "console_ok c'" "2 \<le> max_cols c'" "0x0A \<notin> set t" "0x08 \<notin> set t" for t c'
    using that
  proof (induction t arbitrary: c')
    case (Cons x t)
    have "hist_count c' \<le> hist_count (append_cp x c')" using Cons.prems(1) hist_count_mono by (simp add: console_ok_def)
    then show ?case using Cons append_cp_ok [OF Cons.prems(1,2), of x] by (fastforce simp: append_text_def append_char_def)
  qed (simp add: append_text_def)
  note ok = append_cp_ok [OF Cons.prems(1,2), of ch]
  have tail: "append_text (ch # s) c = append_text s ?c" by (simp add: append_text_def)
  have i: "all_text (append_text s ?c) = all_text ?c @ utf8_text (filter shown s)"
    by (rule Cons.IH) (use Cons.prems ok e tail in simp_all)
  have "hist_count ?c < HISTORY_LINES" using mono [of ?c s] Cons.prems ok e tail by simp
  then have "all_text ?c = all_text c @ (if shown ch then utf8_encode ch else [])" using append_cp_text [OF Cons.prems(1,2)] e by simp
  then show ?case using i tail by simp
qed

section \<open>Properties\<close>


definition w_console :: console where
  "w_console = console_init w_boot console_start"

lemma w_console_ok: "console_ok w_console" "max_cols w_console = 98" "\<not> print_bypass w_console" "\<not> taken_over w_console"
  by (simp_all add: w_console_def console_init_def console_start_def console_ok_def console_inv_def hist_view_def cur_line_def max_cols_def
      w_boot_def MARGIN_def CHAR_WIDTH_def)


end
