(* ===== verification/Usermem.thy ===== *)
theory Usermem
  imports Domain Console
begin

text \<open>
  The machine around the kernel. \<open>hw\<close> collects what the hardware answers: I/O ports, PCI configuration
  registers, the local APIC, and whether the processor enforces write protection in kernel mode
  (\<open>CR0.WP\<close>, which the kernel leaves as the firmware set it). What the kernel tells the hardware is a
  list of \<open>io_event\<close>s.

  In a system call the kernel reads and writes user memory through the page tables of the current
  task, byte by byte (\<open>kread\<close>, \<open>kwrite\<close>), in kernel mode: a page of the kernel is as good as a page of
  the user. An access that does not translate is a page fault in kernel mode, on which the kernel
  stops the machine (\<open>Halt\<close>). Memory that holds page tables is modelled apart from the bytes, so a
  store that hits a page table is beyond this model; no theorem relies on its effect.
\<close>

section \<open>Hardware\<close>

record hw =
  hw_wp :: bool
  hw_in8 :: "u16 \<Rightarrow> u8"
  hw_in16 :: "u16 \<Rightarrow> u16"
  hw_cfg :: "u32 \<Rightarrow> u32"
  hw_apic_base :: u64
  hw_lapic :: "u64 \<Rightarrow> u32"

datatype io_event =
    Out8 u16 u8
  | Out16 u16 u16
  | CfgWrite u32 u32
  | MsrWrite u32 u64
  | LapicWrite u64 u32
  | PowerOff
  | Reboot

section \<open>Translation in kernel mode\<close>

definition usable :: "bool \<Rightarrow> pte \<Rightarrow> bool" where
  "usable wr e \<longleftrightarrow> PRESENT \<in> pte_flags e \<and> (wr \<longrightarrow> WRITABLE \<in> pte_flags e)"

definition cpu_translate :: "bool \<Rightarrow> tables \<Rightarrow> u64 \<Rightarrow> u64 \<Rightarrow> u64 option" where
  "cpu_translate wr pt cr3 v =
     (if \<not> canonical v then None
      else let e4 = pt cr3 (p4_index v) in if \<not> usable wr e4 then None
      else let e3 = pt (pte_addr e4) (p3_index v) in if \<not> usable wr e3 then None
      else if HUGE_PAGE \<in> pte_flags e3 then Some (pte_addr e3 + (v AND 0x3FFFFFFF))
      else let e2 = pt (pte_addr e3) (p2_index v) in if \<not> usable wr e2 then None
      else if HUGE_PAGE \<in> pte_flags e2 then Some (pte_addr e2 + (v AND 0x1FFFFF))
      else let e1 = pt (pte_addr e2) (p1_index v) in if \<not> usable wr e1 then None
      else Some (pte_addr e1 + (v AND 0xFFF)))"

definition k_translate :: "hw \<Rightarrow> bool \<Rightarrow> kernel_state \<Rightarrow> u64 \<Rightarrow> u64 option" where
  "k_translate h wr k v = cpu_translate (wr \<and> hw_wp h) (ptabs (k_mem k)) (cpu_cr3 (k_sched k)) v"

text \<open>Reading agrees with the kernel's own page walk, as long as there are no 1 GiB pages.\<close>

lemma cpu_translate_walk:
  assumes "canonical v" and "HUGE_PAGE \<notin> pte_flags (pt (pte_addr (pt cr3 (p4_index v))) (p3_index v))"
  shows "cpu_translate False pt cr3 v = walk pt cr3 v"
  using assms by (simp add: cpu_translate_def walk_def usable_def Let_def)

section \<open>Reading and writing\<close>

definition kread :: "hw \<Rightarrow> kernel_state \<Rightarrow> u64 \<Rightarrow> nat \<Rightarrow> u8 list res" where
  "kread h k v n =
     (case those (map (\<lambda>i. k_translate h False k (v + of_nat i)) [0..<n]) of
        None \<Rightarrow> Inl Halt
      | Some ps \<Rightarrow> Inr (map (k_phys k) ps))"

definition kwrite :: "hw \<Rightarrow> u64 \<Rightarrow> u8 list \<Rightarrow> kernel_state \<Rightarrow> kernel_state res" where
  "kwrite h v bs k =
     (case those (map (\<lambda>i. k_translate h True k (v + of_nat i)) [0..<length bs]) of
        None \<Rightarrow> Inl Halt
      | Some ps \<Rightarrow> Inr (k\<lparr>k_phys := fold (\<lambda>(p, b) ph. ph(p := b)) (zip ps bs) (k_phys k)\<rparr>))"

lemma those_map_Some: "(\<And>x. x \<in> set xs \<Longrightarrow> f x = Some (g x)) \<Longrightarrow> those (map f xs) = Some (map g xs)"
  by (induction xs) auto

lemma those_None_iff: "those xs = None \<longleftrightarrow> None \<in> set xs"
  by (induction xs) (auto split: option.splits)

lemma kwrite_frame:
  assumes "kwrite h v bs k = Inr k'"
  shows "k' = k\<lparr>k_phys := k_phys k'\<rparr>"
  using assms by (auto simp: kwrite_def split: option.splits)

lemma kwrite_nil [simp]: "kwrite h v [] k = Inr k"
  by (simp add: kwrite_def)

lemma kread_length: "kread h k v n = Inr bs \<Longrightarrow> length bs = n"
proof -
  have "those xs = Some ys \<Longrightarrow> length ys = length xs" for xs :: "'a option list" and ys
    by (induction xs arbitrary: ys) (auto split: option.splits)
  then show "kread h k v n = Inr bs \<Longrightarrow> length bs = n" by (fastforce simp: kread_def split: option.splits)
qed

text \<open>A buffer whose bytes translate one to one is written and read as a whole.\<close>

lemma fold_write_run:
  assumes "length bs \<le> 2 ^ 64"
  shows "fold (\<lambda>(p, b) ph. ph(p := b)) (zip (map (\<lambda>i. q + of_nat i) [0..<length bs]) bs) ph = write_bytes q bs ph"
  using assms
proof (induction bs rule: rev_induct)
  case Nil
  then show ?case by (simp add: write_bytes_def)
next
  case (snoc b bs)
  have z: "zip (map (\<lambda>i. q + of_nat i) [0..<length (bs @ [b])]) (bs @ [b]) =
      zip (map (\<lambda>i. q + of_nat i) [0..<length bs]) bs @ [(q + of_nat (length bs), b)]" by simp
  have u: "unat (of_nat (length bs) :: u64) = length bs" using snoc.prems by (intro unat_of_nat_u64) simp
  then have "unat (a - q) = length bs \<longleftrightarrow> a = q + of_nat (length bs)" for a
    by (metis add_diff_cancel_left' diff_add_cancel add.commute word_unat_eq_iff)
  then show ?case using snoc u unfolding z
    by (auto simp: write_bytes_def fun_eq_iff nth_append less_Suc_eq)
qed

lemma kwrite_run:
  assumes "\<And>i. i < length bs \<Longrightarrow> k_translate h True k (v + of_nat i) = Some (q + of_nat i)" and "length bs \<le> 2 ^ 64"
  shows "kwrite h v bs k = Inr (k\<lparr>k_phys := write_bytes q bs (k_phys k)\<rparr>)"
proof -
  have "those (map (\<lambda>i. k_translate h True k (v + of_nat i)) [0..<length bs]) = Some (map (\<lambda>i. q + of_nat i) [0..<length bs])"
    by (rule those_map_Some) (use assms(1) in simp)
  then show ?thesis using fold_write_run [OF assms(2)] by (simp add: kwrite_def)
qed

lemma kread_run:
  assumes "\<And>i. i < n \<Longrightarrow> k_translate h False k (v + of_nat i) = Some (q + of_nat i)"
  shows "kread h k v n = Inr (read_bytes (k_phys k) q n)"
proof -
  have "those (map (\<lambda>i. k_translate h False k (v + of_nat i)) [0..<n]) = Some (map (\<lambda>i. q + of_nat i) [0..<n])"
    by (rule those_map_Some) (use assms in simp)
  then show ?thesis by (simp add: kread_def read_bytes_def comp_def)
qed

end
