(* ===== verification/Pci.thy ===== *)
theory Pci
  imports Usermem
begin

text \<open>
  PCI configuration space, \<open>kernel/src/arch/pci.rs\<close>. A register is selected by the word written to port
  \<open>0xCF8\<close>; \<open>hw_cfg\<close> is the answer the data port gives for it, a write is a \<open>CfgWrite\<close> event. On top of it:
  enumeration of the devices, base address registers, the search for particular devices and for the
  MSI-X capability, and the table of devices that \<open>SYS_PCI_INFO\<close> exports.
\<close>

section \<open>Registers\<close>

definition REG_COMMAND :: u8 where
  "REG_COMMAND = 0x04"

definition REG_STATUS :: u8 where
  "REG_STATUS = 0x06"

definition REG_CAP_PTR :: u8 where
  "REG_CAP_PTR = 0x34"

definition CMD_INTX_DISABLE :: u16 where
  "CMD_INTX_DISABLE = push_bit 10 1"

definition STATUS_CAP_LIST :: u16 where
  "STATUS_CAP_LIST = push_bit 4 1"

definition CAP_ID_MSIX :: u8 where
  "CAP_ID_MSIX = 0x11"

record pci_device =
  pd_bus :: u8
  pd_dev :: u8
  pd_func :: u8
  pd_vendor :: u16
  pd_device :: u16
  pd_class :: u8
  pd_subclass :: u8
  pd_progif :: u8

definition config_addr :: "u8 \<Rightarrow> u8 \<Rightarrow> u8 \<Rightarrow> u8 \<Rightarrow> u32" where
  "config_addr bus dev func offset =
     0x80000000 OR push_bit 16 (ucast bus) OR push_bit 11 (ucast dev) OR push_bit 8 (ucast func) OR (ucast offset AND 0xFC)"

definition config_read_dword :: "hw \<Rightarrow> u8 \<Rightarrow> u8 \<Rightarrow> u8 \<Rightarrow> u8 \<Rightarrow> u32" where
  "config_read_dword h bus dev func offset = hw_cfg h (config_addr bus dev func offset)"

definition config_read_word :: "hw \<Rightarrow> u8 \<Rightarrow> u8 \<Rightarrow> u8 \<Rightarrow> u8 \<Rightarrow> u16" where
  "config_read_word h bus dev func offset =
     (let dword = config_read_dword h bus dev func (offset AND NOT 0x3)
      in ucast (drop_bit (unat (offset AND 0x2) * 8) dword AND 0xFFFF))"

definition config_read_byte :: "hw \<Rightarrow> u8 \<Rightarrow> u8 \<Rightarrow> u8 \<Rightarrow> u8 \<Rightarrow> u8" where
  "config_read_byte h bus dev func offset =
     (let dword = config_read_dword h bus dev func (offset AND NOT 0x3)
      in ucast (drop_bit (unat (offset AND 0x3) * 8) dword AND 0xFF))"

definition config_write_dword :: "u8 \<Rightarrow> u8 \<Rightarrow> u8 \<Rightarrow> u8 \<Rightarrow> u32 \<Rightarrow> io_event list" where
  "config_write_dword bus dev func offset val = [CfgWrite (config_addr bus dev func offset) val]"

definition config_update_word :: "hw \<Rightarrow> u8 \<Rightarrow> u8 \<Rightarrow> u8 \<Rightarrow> u8 \<Rightarrow> u16 \<Rightarrow> u16 \<Rightarrow> u16 \<times> io_event list" where
  "config_update_word h bus dev func offset clr st =
     (let dword_off = offset AND NOT 0x3;
          dword = config_read_dword h bus dev func dword_off;
          shift = unat (offset AND 0x2) * 8;
          cur = ucast (drop_bit shift dword AND 0xFFFF);
          new = (cur AND NOT clr) OR st;
          merged = (dword AND NOT (push_bit shift 0xFFFF)) OR push_bit shift (ucast new)
      in (cur, config_write_dword bus dev func dword_off merged))"

definition disable_intx :: "hw \<Rightarrow> u8 \<Rightarrow> u8 \<Rightarrow> u8 \<Rightarrow> io_event list" where
  "disable_intx h bus dev func = snd (config_update_word h bus dev func REG_COMMAND 0 CMD_INTX_DISABLE)"

definition pci_enable_msix :: "hw \<Rightarrow> u8 \<Rightarrow> u8 \<Rightarrow> u8 \<Rightarrow> u8 \<Rightarrow> io_event list" where
  "pci_enable_msix h bus dev func cap_ptr = snd (config_update_word h bus dev func (cap_ptr + 2) 0x4000 0x8000)"

section \<open>Enumeration\<close>

definition read_ids :: "hw \<Rightarrow> u8 \<Rightarrow> u8 \<Rightarrow> u8 \<Rightarrow> (u16 \<times> u16) option" where
  "read_ids h bus dev func =
     (let vd = config_read_dword h bus dev func 0;
          vendor = ucast (vd AND 0xFFFF);
          device = ucast (drop_bit 16 vd)
      in if vendor = 0xFFFF then None else Some (vendor, device))"

definition read_function :: "hw \<Rightarrow> u8 \<Rightarrow> u8 \<Rightarrow> u8 \<Rightarrow> pci_device list" where
  "read_function h bus dev func =
     (case read_ids h bus dev func of
        None \<Rightarrow> []
      | Some (vendor, device) \<Rightarrow>
          (let cc = config_read_dword h bus dev func 0x08
           in [\<lparr>pd_bus = bus, pd_dev = dev, pd_func = func, pd_vendor = vendor, pd_device = device,
                pd_class = ucast (drop_bit 24 cc AND 0xFF), pd_subclass = ucast (drop_bit 16 cc AND 0xFF),
                pd_progif = ucast (drop_bit 8 cc AND 0xFF)\<rparr>]))"

definition read_slot :: "hw \<Rightarrow> u8 \<Rightarrow> u8 \<Rightarrow> pci_device list" where
  "read_slot h bus dev =
     (if read_ids h bus dev 0 = None then []
      else (let header = config_read_dword h bus dev 0 0x0C;
                multifunction = drop_bit 16 header AND 0x80 \<noteq> 0;
                max_func = (if multifunction then 8 else 1)
            in concat (map (\<lambda>func. read_function h bus dev (of_nat func)) [0..<max_func])))"

definition enumerate :: "hw \<Rightarrow> pci_device list" where
  "enumerate h = concat (map (\<lambda>bus. concat (map (\<lambda>dev. read_slot h (of_nat bus) (of_nat dev)) [0..<32])) [0..<256])"

section \<open>Base addresses\<close>

definition read_bar :: "hw \<Rightarrow> u8 \<Rightarrow> u8 \<Rightarrow> u8 \<Rightarrow> u8 \<Rightarrow> u64 option" where
  "read_bar h bus dev func index =
     (let off = 0x10 + index * 4;
          low = config_read_dword h bus dev func off
      in if low AND 1 \<noteq> 0 then None
         else (let addr = (if drop_bit 1 low AND 3 = 2
                           then push_bit 32 (ucast (config_read_dword h bus dev func (off + 4))) OR ucast (low AND 0xFFFFFFF0)
                           else ucast (low AND 0xFFFFFFF0))
               in if addr = 0 then None else Some addr))"

definition read_bar0 :: "hw \<Rightarrow> u8 \<Rightarrow> u8 \<Rightarrow> u8 \<Rightarrow> u64 option" where
  "read_bar0 h bus dev func = read_bar h bus dev func 0"

text \<open>The loop the \<open>find_\<close> functions share: the first matching device whose base address can be read.\<close>

fun find_device :: "hw \<Rightarrow> (pci_device \<Rightarrow> bool) \<Rightarrow> u8 \<Rightarrow> pci_device list \<Rightarrow> (u8 \<times> u8 \<times> u8 \<times> u64) option" where
  "find_device h wanted bar [] = None"
| "find_device h wanted bar (d # ds) =
     (if \<not> wanted d then find_device h wanted bar ds
      else case read_bar h (pd_bus d) (pd_dev d) (pd_func d) bar of
             Some b \<Rightarrow> Some (pd_bus d, pd_dev d, pd_func d, b)
           | None \<Rightarrow> find_device h wanted bar ds)"

definition find_nvme :: "hw \<Rightarrow> pci_device list \<Rightarrow> (u8 \<times> u8 \<times> u8 \<times> u64) option" where
  "find_nvme h = find_device h (\<lambda>d. pd_class d = 0x01 \<and> pd_subclass d = 0x08 \<and> pd_progif d = 0x02) 0"

definition find_net :: "hw \<Rightarrow> pci_device list \<Rightarrow> (u8 \<times> u8 \<times> u8 \<times> u64) option" where
  "find_net h = find_device h (\<lambda>d. pd_class d = 0x02 \<and> pd_vendor d = 0x1AF4 \<and> (pd_device d = 0x1041 \<or> pd_device d = 0x1000)) 4"

definition find_ahci :: "hw \<Rightarrow> pci_device list \<Rightarrow> (u8 \<times> u8 \<times> u8 \<times> u64) option" where
  "find_ahci h = find_device h (\<lambda>d. pd_class d = 0x01 \<and> pd_subclass d = 0x06 \<and> pd_progif d = 0x01) 5"

definition find_xhci :: "hw \<Rightarrow> pci_device list \<Rightarrow> (u8 \<times> u8 \<times> u8 \<times> u64) option" where
  "find_xhci h = find_device h (\<lambda>d. pd_class d = 0x0C \<and> pd_subclass d = 0x03 \<and> pd_progif d = 0x30) 0"

definition find_e1000e :: "hw \<Rightarrow> pci_device list \<Rightarrow> (u8 \<times> u8 \<times> u8 \<times> u64) option" where
  "find_e1000e h = find_device h (\<lambda>d. pd_class d = 0x02 \<and> pd_vendor d = 0x8086 \<and> pd_device d = 0x10D3) 0"

definition find_e1000 :: "hw \<Rightarrow> pci_device list \<Rightarrow> (u8 \<times> u8 \<times> u8 \<times> u64) option" where
  "find_e1000 h = find_device h (\<lambda>d. pd_class d = 0x02 \<and> pd_vendor d = 0x8086 \<and> pd_device d = 0x100E) 0"

definition find_virtio_blk :: "hw \<Rightarrow> pci_device list \<Rightarrow> (u8 \<times> u8 \<times> u8 \<times> u64) option" where
  "find_virtio_blk h = find_device h (\<lambda>d. pd_class d = 0x01 \<and> pd_vendor d = 0x1AF4 \<and> (pd_device d = 0x1042 \<or> pd_device d = 0x1001)) 4"

section \<open>The MSI-X capability\<close>

record msix_cap =
  mc_ptr :: u8
  mc_table_offset :: u32
  mc_table_bir :: u8
  mc_table_size :: u16

fun msix_scan :: "hw \<Rightarrow> u8 \<Rightarrow> u8 \<Rightarrow> u8 \<Rightarrow> nat \<Rightarrow> u8 \<Rightarrow> msix_cap option" where
  "msix_scan h bus dev func 0 ptr = None"
| "msix_scan h bus dev func (Suc n) ptr =
     (if ptr < 0x40 then None
      else if config_read_byte h bus dev func ptr = CAP_ID_MSIX
      then (let ctrl = config_read_word h bus dev func (ptr + 2);
                table = config_read_dword h bus dev func (ptr + 4)
            in Some \<lparr>mc_ptr = ptr, mc_table_offset = table AND NOT 0x7, mc_table_bir = ucast (table AND 0x7),
                     mc_table_size = (ctrl AND 0x7FF) + 1\<rparr>)
      else (let nxt = config_read_byte h bus dev func (ptr + 1) AND 0xFC
            in if nxt = 0 then None else msix_scan h bus dev func n nxt))"

definition find_msix :: "hw \<Rightarrow> u8 \<Rightarrow> u8 \<Rightarrow> u8 \<Rightarrow> msix_cap option" where
  "find_msix h bus dev func =
     (if config_read_word h bus dev func REG_STATUS AND STATUS_CAP_LIST = 0 then None
      else msix_scan h bus dev func 48 (config_read_byte h bus dev func REG_CAP_PTR AND 0xFC))"

section \<open>The exported table\<close>

definition PCI_MAX :: nat where
  "PCI_MAX = 64"

record pci_table =
  pt_devs :: "pci_device option list"
  pt_count :: nat

definition pci_table_start :: pci_table where
  "pci_table_start = \<lparr>pt_devs = replicate PCI_MAX None, pt_count = 0\<rparr>"

definition pci_publish :: "pci_device list \<Rightarrow> pci_table \<Rightarrow> pci_table" where
  "pci_publish devices t =
     (let n = min (length devices) PCI_MAX
      in \<lparr>pt_devs = map Some (take n devices) @ drop n (pt_devs t), pt_count = n\<rparr>)"

definition pci_record :: "hw \<Rightarrow> pci_device \<Rightarrow> u64 list" where
  "pci_record h d =
     [ucast (pd_vendor d) OR push_bit 16 (ucast (pd_device d)),
      ucast (pd_class d) OR push_bit 8 (ucast (pd_subclass d)) OR push_bit 16 (ucast (pd_progif d)) OR push_bit 24 (ucast (pd_bus d)) OR
        push_bit 32 (ucast (pd_dev d)) OR push_bit 40 (ucast (pd_func d)),
      (case read_bar h (pd_bus d) (pd_dev d) (pd_func d) 0 of None \<Rightarrow> 0 | Some b \<Rightarrow> b)]"

definition pci_syscall_info :: "hw \<Rightarrow> u64 \<Rightarrow> u64 \<Rightarrow> pci_table \<Rightarrow> kernel_state \<Rightarrow> (u64 \<times> kernel_state) res" where
  "pci_syscall_info h a1 a2 t k =
     (if pt_count t \<le> unat a1 \<or> a2 = 0 then Inr (0, k)
      else bind_res (index_res (pt_devs t) (unat a1)) (\<lambda>slot.
        case slot of
          None \<Rightarrow> Inr (0, k)
        | Some d \<Rightarrow>
            if \<not> is_user_address a2 \<or> \<not> is_user_address (a2 + 24 - 1) then Inr (0, k)
            else bind_res (kwrite h a2 (concat (map u64_bytes (pci_record h d))) k) (\<lambda>k'. Inr (1, k'))))"

section \<open>Addresses are faithful\<close>

declare bit_numeral_word_iff [simp del]

lemma fc_bits [simp]: "bit (0xFC :: u32) n \<longleftrightarrow> 2 \<le> n \<and> n < 8" "bit (0xFC :: u8) n \<longleftrightarrow> 2 \<le> n \<and> n < 8"
proof -
  have m: "(0xFC :: u32) = push_bit 2 (mask 6)" "(0xFC :: u8) = push_bit 2 (mask 6)" by (simp_all add: mask_eq_exp_minus_1 push_bit_eq_mult)
  show "bit (0xFC :: u32) n \<longleftrightarrow> 2 \<le> n \<and> n < 8" "bit (0xFC :: u8) n \<longleftrightarrow> 2 \<le> n \<and> n < 8"
    unfolding m by (auto simp: bit_push_bit_iff bit_mask_iff)
qed

lemma top_bit [simp]: "bit (0x80000000 :: u32) n \<longleftrightarrow> n = 31"
proof -
  have "(0x80000000 :: u32) = 2 ^ 31" by simp
  then show ?thesis by (simp only: bit_exp_iff) auto
qed

lemma config_addr_bits:
  assumes "dev < 32" and "func < 8" and "n < 31"
  shows "bit (config_addr bus dev func offset) n \<longleftrightarrow>
    (if 16 \<le> n then bit bus (n - 16) else if 11 \<le> n then bit dev (n - 11) else if 8 \<le> n then bit func (n - 8) else 2 \<le> n \<and> bit offset n)"
proof -
  have d: "bit dev m \<Longrightarrow> m < 5" and f: "bit func m \<Longrightarrow> m < 3" and b: "bit bus m \<Longrightarrow> m < 8" for m
    using small_bits [of dev 5 m] small_bits [of func 3 m] assms(1,2) by (auto simp: word_less_nat_alt dest: bit_imp_le_length)
  show ?thesis using assms(3) unfolding config_addr_def
    by (auto simp: byte_bits dest: d f b)
qed

lemma config_addr_inject:
  assumes "dev < 32" and "func < 8" and "dev' < 32" and "func' < 8"
  shows "config_addr bus dev func offset = config_addr bus' dev' func' offset' \<longleftrightarrow>
    bus = bus' \<and> dev = dev' \<and> func = func' \<and> offset AND 0xFC = offset' AND 0xFC"
proof
  let ?a = "config_addr bus dev func offset" and ?b = "config_addr bus' dev' func' offset'"
  assume e: "?a = ?b"
  have eq: "bit ?a n = bit ?b n" for n by (simp add: e)
  note B = config_addr_bits [OF assms(1,2)] config_addr_bits [OF assms(3,4)]
  have "bit bus m = bit bus' m" if "m < 8" for m using eq [of "16 + m"] that by (simp add: B)
  moreover have "bit dev m = bit dev' m" if "m < 8" for m
    using eq [of "11 + m"] that small_bits [of dev 5 m] small_bits [of dev' 5 m] assms by (cases "m < 5") (auto simp: B word_less_nat_alt)
  moreover have "bit func m = bit func' m" if "m < 8" for m
    using eq [of "8 + m"] that small_bits [of func 3 m] small_bits [of func' 3 m] assms by (cases "m < 3") (auto simp: B word_less_nat_alt)
  moreover have "bit (offset AND 0xFC) m = bit (offset' AND 0xFC) m" if "m < 8" for m
    using eq [of m] that by (auto simp: B bit_and_iff)
  ultimately show "bus = bus' \<and> dev = dev' \<and> func = func' \<and> offset AND 0xFC = offset' AND 0xFC"
    by (auto intro!: bit_word_eqI)
next
  assume e: "bus = bus' \<and> dev = dev' \<and> func = func' \<and> offset AND 0xFC = offset' AND 0xFC"
  have "ucast offset AND (0xFC :: u32) = ucast offset' AND 0xFC"
  proof (rule bit_word_eqI)
    fix n
    have "bit (offset AND 0xFC) n = bit (offset' AND 0xFC) n" using e by simp
    then show "bit (ucast offset AND (0xFC :: u32)) n = bit (ucast offset' AND (0xFC :: u32)) n" by (auto simp: byte_bits)
  qed
  then show "config_addr bus dev func offset = config_addr bus' dev' func' offset'" using e by (simp add: config_addr_def)
qed

text \<open>A 16 bit update leaves the other half of the register as it was read.\<close>

lemma merge_bits:
  fixes new :: u16 and dword :: u32
  assumes "n < 32"
  shows "bit ((dword AND NOT (push_bit sh 0xFFFF)) OR push_bit sh (ucast new)) n \<longleftrightarrow>
    (if sh \<le> n \<and> n < sh + 16 then bit new (n - sh) else bit dword n)"
proof -
  have m: "(0xFFFF :: u32) = mask 16" by (simp add: mask_eq_exp_minus_1)
  have "bit new i \<Longrightarrow> i < 16" for i using bit_imp_le_length [of new i] by simp
  then have "bit new (n - sh) \<Longrightarrow> n - sh < 16" by blast
  then show ?thesis using assms unfolding m by (auto simp: byte_bits bit_not_iff bit_mask_iff)
qed

lemma config_update_word_exact:
  assumes "config_update_word h bus dev func offset clr st = (cur, evs)"
  shows "\<exists>val. evs = [CfgWrite (config_addr bus dev func (offset AND NOT 0x3)) val] \<and>
    cur = config_read_word h bus dev func offset \<and>
    (\<forall>n < 32. bit val n \<longleftrightarrow>
       (let sh = unat (offset AND 0x2) * 8 in
        if sh \<le> n \<and> n < sh + 16 then bit ((cur AND NOT clr) OR st) (n - sh)
        else bit (config_read_dword h bus dev func (offset AND NOT 0x3)) n))"
proof -
  let ?sh = "unat (offset AND 0x2) * 8" and ?d = "config_read_dword h bus dev func (offset AND NOT 0x3)"
  have c: "cur = ucast (drop_bit ?sh ?d AND 0xFFFF)" and e: "evs = [CfgWrite (config_addr bus dev func (offset AND NOT 0x3))
      ((?d AND NOT (push_bit ?sh 0xFFFF)) OR push_bit ?sh (ucast ((cur AND NOT clr) OR st)))]"
    using assms unfolding config_update_word_def config_write_dword_def Let_def by blast+
  show ?thesis unfolding e by (intro exI conjI) (rule refl, simp only: c config_read_word_def Let_def, intro allI impI, unfold Let_def, erule merge_bits)
qed

section \<open>Enumeration is exact\<close>

definition present :: "hw \<Rightarrow> u8 \<Rightarrow> u8 \<Rightarrow> u8 \<Rightarrow> bool" where
  "present h bus dev func \<longleftrightarrow> ucast (config_read_dword h bus dev func 0 AND 0xFFFF) \<noteq> (0xFFFF :: u16)"

definition multifunction :: "hw \<Rightarrow> u8 \<Rightarrow> u8 \<Rightarrow> bool" where
  "multifunction h bus dev \<longleftrightarrow> drop_bit 16 (config_read_dword h bus dev 0 0x0C) AND 0x80 \<noteq> 0"

definition location :: "pci_device \<Rightarrow> u8 \<times> u8 \<times> u8" where
  "location d = (pd_bus d, pd_dev d, pd_func d)"

lemma read_ids_None: "read_ids h bus dev func = None \<longleftrightarrow> \<not> present h bus dev func"
  by (simp add: read_ids_def present_def Let_def)

lemma read_function_location: "map location (read_function h bus dev func) = (if present h bus dev func then [(bus, dev, func)] else [])"
  by (auto simp: read_function_def location_def Let_def read_ids_None [symmetric] split: option.splits)

lemma read_slot_location:
  "map location (read_slot h bus dev) =
     map (\<lambda>f. (bus, dev, of_nat f))
       (filter (\<lambda>f. present h bus dev 0 \<and> present h bus dev (of_nat f)) [0..<(if multifunction h bus dev then 8 else 1)])"
proof -
  have c: "concat (map (\<lambda>f. if P f then [g f] else []) xs) = map g (filter P xs)" for P g and xs :: "nat list"
    by (induction xs) auto
  show ?thesis
    by (simp add: read_slot_def read_ids_None multifunction_def Let_def map_concat comp_def read_function_location c)
qed

lemma distinct_concat_map:
  assumes "distinct xs" and "\<And>x. x \<in> set xs \<Longrightarrow> distinct (f x)"
    and "\<And>x y. x \<in> set xs \<Longrightarrow> y \<in> set xs \<Longrightarrow> x \<noteq> y \<Longrightarrow> set (f x) \<inter> set (f y) = {}"
  shows "distinct (concat (map f xs))"
  using assms
proof (induction xs)
  case (Cons x xs)
  have "set (f x) \<inter> set (f y) = {}" if "y \<in> set xs" for y using Cons.prems(1,3) that by auto
  then show ?case using Cons by auto
qed simp

lemma unat_of_nat_u8: "i < 256 \<Longrightarrow> unat (of_nat i :: u8) = i"
  by (simp add: unat_of_nat)

lemma small_u8: "i < 256 \<Longrightarrow> j < 256 \<Longrightarrow> (of_nat i :: u8) = of_nat j \<longleftrightarrow> i = j"
  by (metis unat_of_nat_u8)

lemma below_u8: "n \<le> 256 \<Longrightarrow> (of_nat ` {0..<n} :: u8 set) = {x. unat x < n}"
proof (intro set_eqI iffI)
  fix x :: u8
  assume "x \<in> {x. unat x < n}"
  then show "x \<in> of_nat ` {0..<n}" by (intro image_eqI [of _ _ "unat x"]) simp_all
qed (auto simp: unat_of_nat_u8)

lemma slot_locations: "set (map location (read_slot h bus dev)) =
  {(bus, dev, func) | func. present h bus dev 0 \<and> present h bus dev func \<and> unat func < (if multifunction h bus dev then 8 else 1)}"
proof -
  let ?n = "if multifunction h bus dev then 8 else 1"
  have i: "of_nat ` {f \<in> {0..<?n}. P (of_nat f)} = {func :: u8. func \<in> of_nat ` {0..<?n} \<and> P func}" for P
    by (rule set_eqI) blast
  have "set (map location (read_slot h bus dev)) =
      (\<lambda>func. (bus, dev, func)) ` of_nat ` {f \<in> {0..<?n}. present h bus dev 0 \<and> present h bus dev (of_nat f)}"
    unfolding read_slot_location set_map set_filter set_upt image_image by (rule arg_cong) blast
  also have "of_nat ` {f \<in> {0..<?n}. present h bus dev 0 \<and> present h bus dev (of_nat f)} =
      {func. func \<in> of_nat ` {0..<?n} \<and> present h bus dev 0 \<and> present h bus dev func}" by (rule i)
  also have "of_nat ` {0..<?n} = {func :: u8. unat func < ?n}" by (rule below_u8) simp
  finally show ?thesis by auto
qed

lemma slot_distinct: "distinct (map location (read_slot h bus dev))"
proof -
  have "inj_on (\<lambda>f. (bus, dev, of_nat f :: u8)) {0..<8}" by (rule inj_onI) (simp add: small_u8)
  then show ?thesis unfolding read_slot_location distinct_map
    by (auto intro: inj_on_subset)
qed

text \<open>The search for MSI-X, as a path through the capability list.\<close>

fun cap_chain :: "hw \<Rightarrow> u8 \<Rightarrow> u8 \<Rightarrow> u8 \<Rightarrow> u8 \<Rightarrow> u8 list \<Rightarrow> bool" where
  "cap_chain h bus dev func ptr [] \<longleftrightarrow> True"
| "cap_chain h bus dev func ptr (p # ps) \<longleftrightarrow>
     p = ptr \<and> 0x40 \<le> p \<and> (ps = [] \<or> config_read_byte h bus dev func p \<noteq> CAP_ID_MSIX) \<and>
     cap_chain h bus dev func (config_read_byte h bus dev func (p + 1) AND 0xFC) ps"

lemma msix_scan_Some:
  "msix_scan h bus dev func n ptr = Some c \<Longrightarrow>
     \<exists>ps. cap_chain h bus dev func ptr (ps @ [mc_ptr c]) \<and> length ps < n \<and> config_read_byte h bus dev func (mc_ptr c) = CAP_ID_MSIX"
proof (induction n arbitrary: ptr)
  case (Suc n)
  show ?case
  proof (cases "config_read_byte h bus dev func ptr = CAP_ID_MSIX")
    case True
    then show ?thesis using Suc.prems by (intro exI [of _ "[]"]) (auto simp: Let_def not_less split: if_splits)
  next
    case False
    then have "msix_scan h bus dev func n (config_read_byte h bus dev func (ptr + 1) AND 0xFC) = Some c" "0x40 \<le> ptr"
      using Suc.prems by (auto simp: Let_def not_less split: if_splits)
    from Suc.IH [OF this(1)] this(2) False obtain ps where
        "cap_chain h bus dev func (config_read_byte h bus dev func (ptr + 1) AND 0xFC) (ps @ [mc_ptr c])" "length ps < n"
        "config_read_byte h bus dev func (mc_ptr c) = CAP_ID_MSIX" by blast
    then show ?thesis using False \<open>0x40 \<le> ptr\<close> by (intro exI [of _ "ptr # ps"]) simp
  qed
qed simp

lemma msix_scan_complete:
  "cap_chain h bus dev func ptr (ps @ [p]) \<Longrightarrow> length ps < n \<Longrightarrow> config_read_byte h bus dev func p = CAP_ID_MSIX \<Longrightarrow>
     \<exists>c. msix_scan h bus dev func n ptr = Some c \<and> mc_ptr c = p"
proof (induction ps arbitrary: n ptr)
  case Nil
  then show ?case by (cases n) (auto simp: Let_def not_less)
next
  case (Cons q ps)
  then obtain m where m: "n = Suc m" by (cases n) auto
  from Cons obtain c where c: "msix_scan h bus dev func m (config_read_byte h bus dev func (q + 1) AND 0xFC) = Some c" "mc_ptr c = p"
    using m by fastforce
  have "config_read_byte h bus dev func (q + 1) AND 0xFC \<noteq> 0"
  proof
    assume "config_read_byte h bus dev func (q + 1) AND 0xFC = 0"
    then show False using c(1) by (cases m) simp_all
  qed
  then show ?case using Cons.prems m c by (auto simp: Let_def not_less)
qed

lemma enumerate_slots:
  "map location (enumerate h) = concat (map (\<lambda>bus. concat (map (\<lambda>dev. map location (read_slot h (of_nat bus) (of_nat dev))) [0..<32])) [0..<256])"
  unfolding enumerate_def map_concat map_map comp_def ..

lemma in_slot: "x \<in> set (map location (read_slot h bus dev)) \<Longrightarrow> fst x = bus \<and> fst (snd x) = dev"
  unfolding slot_locations by auto

lemma disjoint_by: "(\<And>z. z \<in> A \<Longrightarrow> f z = a) \<Longrightarrow> (\<And>z. z \<in> B \<Longrightarrow> f z = b) \<Longrightarrow> a \<noteq> b \<Longrightarrow> A \<inter> B = {}"
  by blast

lemma slots_distinct: "distinct (concat (map (\<lambda>dev. map location (read_slot h bus (of_nat dev))) [0..<32]))"
proof (rule distinct_concat_map)
  fix x y :: nat
  assume "x \<in> set [0..<32]" "y \<in> set [0..<32]" "x \<noteq> y"
  then have "(of_nat x :: u8) \<noteq> of_nat y" by (simp only: set_upt atLeastLessThan_iff) (simp add: small_u8)
  then show "set (map location (read_slot h bus (of_nat x))) \<inter> set (map location (read_slot h bus (of_nat y))) = {}"
    using in_slot by (intro disjoint_by [where f = "\<lambda>z. fst (snd z)"]) blast+
qed (rule distinct_upt slot_distinct)+

lemma in_concat_map: "x \<in> set (concat (map f xs)) \<Longrightarrow> \<exists>y \<in> set xs. x \<in> set (f y)"
  by auto

lemma bus_of:
  assumes "x \<in> set (concat (map (\<lambda>dev. map location (read_slot h bus (of_nat dev))) [0..<32]))"
  shows "fst x = bus"
proof -
  obtain dev where "x \<in> set (map location (read_slot h bus (of_nat dev)))" using in_concat_map [OF assms] by blast
  then show ?thesis by (rule in_slot [THEN conjunct1])
qed

lemma enumerate_distinct: "distinct (map location (enumerate h))"
  unfolding enumerate_slots
proof (rule distinct_concat_map)
  fix x y :: nat
  assume "x \<in> set [0..<256]" "y \<in> set [0..<256]" "x \<noteq> y"
  then have ne: "(of_nat x :: u8) \<noteq> of_nat y" by (simp only: set_upt atLeastLessThan_iff) (simp add: small_u8)
  show "set (concat (map (\<lambda>dev. map location (read_slot h (of_nat x) (of_nat dev))) [0..<32])) \<inter>
      set (concat (map (\<lambda>dev. map location (read_slot h (of_nat y) (of_nat dev))) [0..<32])) = {}"
    by (rule disjoint_by [where f = fst, OF _ _ ne]) (erule bus_of)+
qed (rule distinct_upt slots_distinct)+

lemma enumerate_locations:
  "set (map location (enumerate h)) = {(bus, dev, func). dev < 32 \<and> present h bus dev 0 \<and> present h bus dev func \<and>
     unat func < (if multifunction h bus dev then 8 else 1)}"
proof -
  have "set (map location (enumerate h)) = (\<Union>bus \<in> of_nat ` {0..<256}. \<Union>dev \<in> of_nat ` {0..<32}. set (map location (read_slot h bus dev)))"
    unfolding enumerate_slots set_concat set_map set_upt image_image by blast
  also have "of_nat ` {0..<256} = (UNIV :: u8 set)"
  proof -
    have "unat x < 256" for x :: u8 using unsigned_less [of x] by simp
    then show ?thesis using below_u8 [of 256] by simp
  qed
  also have "of_nat ` {0..<32} = {dev :: u8. dev < 32}" using below_u8 [of 32] by (simp add: word_less_nat_alt)
  also have "(\<Union>bus. \<Union>dev \<in> {dev. dev < 32}. set (map location (read_slot h bus dev))) = {(bus, dev, func). dev < 32 \<and> present h bus dev 0 \<and>
      present h bus dev func \<and> unat func < (if multifunction h bus dev then 8 else 1)}"
    unfolding slot_locations by auto
  finally show ?thesis .
qed

section \<open>Properties\<close>


end
