(* ===== verification/Device.thy ===== *)
theory Device
  imports Pci Exec
begin

text \<open>
  Granting devices to driver domains, \<open>kernel/src/device.rs\<close>, with the part of \<open>kernel/src/arch/apic.rs\<close>
  it needs. A grant prepares MSI-X, allocates DMA memory and a description page, maps both and the
  register window into the driver's domain and gives it the capabilities. The record \<open>sys\<close> puts the
  kernel state together with the device tables, the console, the PCI table and the events sent to the
  hardware. Log messages of these functions are left out.
\<close>

section \<open>State\<close>

record device_binding =
  db_domain :: u64
  db_bus :: u8
  db_dev :: u8
  db_func :: u8
  db_bar :: u64
  db_cfg :: u64

record msix_pending =
  mp_domain :: u64
  mp_bus :: u8
  mp_dev :: u8
  mp_func :: u8
  mp_cap :: u8

record dev_state =
  dv_binds :: "device_binding list"
  dv_msi_next :: u32
  dv_msix :: "msix_pending list"
  dv_apic_base :: u64
  dv_apic_id :: u32

record sys =
  s_kern :: kernel_state
  s_dev :: dev_state
  s_con :: console
  s_pci :: pci_table
  s_io :: "io_event list"

definition dev_start :: dev_state where
  "dev_start = \<lparr>dv_binds = [], dv_msi_next = ucast MSI_VECTOR_BASE, dv_msix = [], dv_apic_base = 0, dv_apic_id = 0\<rparr>"

definition emit :: "io_event list \<Rightarrow> sys \<Rightarrow> sys" where
  "emit evs s = s\<lparr>s_io := s_io s @ evs\<rparr>"

definition PAGE :: u64 where
  "PAGE = 4096"

definition DEVICE_CFG_VADDR :: u64 where
  "DEVICE_CFG_VADDR = USER_SPACE_BASE + 0x810000"

definition DEVICE_BAR_VADDR :: u64 where
  "DEVICE_BAR_VADDR = USER_SPACE_BASE + 0x820000"

definition DEVICE_DMA_VADDR :: u64 where
  "DEVICE_DMA_VADDR = USER_SPACE_BASE + 0x830000"

definition DEVICE_MSIX_VADDR :: u64 where
  "DEVICE_MSIX_VADDR = USER_SPACE_BASE + 0x840000"

definition DEVICE_MULTI_CFG_VADDR :: u64 where
  "DEVICE_MULTI_CFG_VADDR = USER_SPACE_BASE + 0x600000"

definition DEVICE_MULTI_BAR_VADDR :: u64 where
  "DEVICE_MULTI_BAR_VADDR = USER_SPACE_BASE + 0x610000"

definition DEVICE_MULTI_DMA_VADDR :: u64 where
  "DEVICE_MULTI_DMA_VADDR = USER_SPACE_BASE + 0x650000"

definition DEVICE_MULTI_BAR_STRIDE :: u64 where
  "DEVICE_MULTI_BAR_STRIDE = 0x4000"

definition DEVICE_MULTI_DMA_STRIDE :: u64 where
  "DEVICE_MULTI_DMA_STRIDE = 0x10000"

definition DEVICE_MULTI_SLOTS :: u64 where
  "DEVICE_MULTI_SLOTS = 16"

definition DEVICE_GRANT_MAGIC :: u64 where
  "DEVICE_GRANT_MAGIC = 0x004445564F532131"

record device_grant =
  dg_magic :: u64
  dg_bar_paddr :: u64
  dg_bar_vaddr :: u64
  dg_bar_bytes :: u64
  dg_dma_paddr :: u64
  dg_dma_vaddr :: u64
  dg_dma_bytes :: u64
  dg_msix_vector_base :: u32
  dg_msix_vector_count :: u32
  dg_msix_table_offset :: u32
  dg_msix_msg_addr :: u32
  dg_page_size :: u32
  dg_msix_table_vaddr :: u64

definition u32_bytes :: "u32 \<Rightarrow> u8 list" where
  "u32_bytes w = le_bytes 4 (unat w)"

definition device_grant_bytes :: "device_grant \<Rightarrow> u8 list" where
  "device_grant_bytes g =
     concat (map u64_bytes [dg_magic g, dg_bar_paddr g, dg_bar_vaddr g, dg_bar_bytes g, dg_dma_paddr g, dg_dma_vaddr g, dg_dma_bytes g]) @
     concat (map u32_bytes [dg_msix_vector_base g, dg_msix_vector_count g, dg_msix_table_offset g, dg_msix_msg_addr g, dg_page_size g, 0]) @
     u64_bytes (dg_msix_table_vaddr g)"

record grant_request =
  gr_domain :: u64
  gr_bus :: u8
  gr_dev :: u8
  gr_func :: u8
  gr_bar_paddr :: u64
  gr_bar_pages :: u64
  gr_dma_pages :: u64
  gr_msix_vectors :: u32

section \<open>The local APIC\<close>

definition MSR_APIC_BASE :: u32 where
  "MSR_APIC_BASE = 0x1B"

definition REG_ID :: u64 where
  "REG_ID = 0x20"

definition REG_TPR :: u64 where
  "REG_TPR = 0x80"

definition REG_EOI :: u64 where
  "REG_EOI = 0xB0"

definition REG_SVR :: u64 where
  "REG_SVR = 0xF0"

definition REG_LVT0 :: u64 where
  "REG_LVT0 = 0x350"

definition APIC_BASE_ENABLE :: u64 where
  "APIC_BASE_ENABLE = push_bit 11 1"

definition SVR_SW_ENABLE :: u32 where
  "SVR_SW_ENABLE = push_bit 8 1"

definition SPURIOUS_VECTOR :: u32 where
  "SPURIOUS_VECTOR = 0xFF"

definition LVT0_EXTINT :: u32 where
  "LVT0_EXTINT = 0x700"

definition LVT_MASKED :: u32 where
  "LVT_MASKED = push_bit 16 1"

definition MSI_ADDR_BASE :: u32 where
  "MSI_ADDR_BASE = 0xFEE00000"

definition apic_init :: "hw \<Rightarrow> sys \<Rightarrow> u32 option \<times> sys" where
  "apic_init h s =
     (let val = hw_apic_base h; base = val AND 0x000FFFFFFFFFF000
      in if base = 0 then (None, s)
         else (let svr = hw_lapic h (base + REG_SVR);
                   lvt0 = hw_lapic h (base + REG_LVT0);
                   apic_id = drop_bit 24 (hw_lapic h (base + REG_ID));
                   evs = (if val AND APIC_BASE_ENABLE = 0 then [MsrWrite MSR_APIC_BASE (val OR APIC_BASE_ENABLE)] else []) @
                         [LapicWrite (base + REG_SVR) ((svr AND NOT 0xFF) OR SVR_SW_ENABLE OR SPURIOUS_VECTOR),
                          LapicWrite (base + REG_TPR) 0] @
                         (if lvt0 AND (LVT0_EXTINT OR LVT_MASKED) \<noteq> LVT0_EXTINT then [LapicWrite (base + REG_LVT0) LVT0_EXTINT] else [])
               in (Some apic_id, emit evs (s\<lparr>s_dev := (s_dev s)\<lparr>dv_apic_base := base, dv_apic_id := apic_id\<rparr>\<rparr>))))"

definition msi_address :: "dev_state \<Rightarrow> u32" where
  "msi_address dv = MSI_ADDR_BASE OR push_bit 12 (dv_apic_id dv)"

definition apic_eoi :: "sys \<Rightarrow> sys" where
  "apic_eoi s = emit [LapicWrite (dv_apic_base (s_dev s) + REG_EOI) 0] s"

section \<open>MSI-X\<close>

record msix_setup =
  ms_vector :: u32
  ms_count :: u32
  ms_table_offset :: u32
  ms_msg_addr :: u32
  ms_table_vaddr :: u64

definition MSIX_DISABLED :: msix_setup where
  "MSIX_DISABLED = \<lparr>ms_vector = 0, ms_count = 0, ms_table_offset = 0, ms_msg_addr = 0, ms_table_vaddr = 0\<rparr>"

definition alloc_msi_vectors :: "u32 \<Rightarrow> dev_state \<Rightarrow> u32 option \<times> dev_state" where
  "alloc_msi_vectors n dv =
     (if n = 0 then (None, dv)
      else (let fin = dv_msi_next dv + n
            in if ucast MSI_VECTOR_BASE + ucast MSI_VECTOR_COUNT < fin then (None, dv)
               else (Some (dv_msi_next dv), dv\<lparr>dv_msi_next := fin\<rparr>)))"

definition map_run :: "(u64 \<Rightarrow> u64 \<Rightarrow> mem \<Rightarrow> mem res) \<Rightarrow> u64 \<Rightarrow> u64 \<Rightarrow> nat \<Rightarrow> mem \<Rightarrow> mem res" where
  "map_run f va pa n m = fold (\<lambda>i r. bind_res r (f (va + of_nat i * PAGE) (pa + of_nat i * PAGE))) [0..<n] (Inr m)"

definition lift_mem :: "(mem \<Rightarrow> mem res) \<Rightarrow> sys \<Rightarrow> sys res" where
  "lift_mem f s = bind_res (f (k_mem (s_kern s))) (\<lambda>m. Inr (s\<lparr>s_kern := (s_kern s)\<lparr>k_mem := m\<rparr>\<rparr>))"

definition grant_caps :: "u64 \<Rightarrow> capability list \<Rightarrow> sys \<Rightarrow> sys res" where
  "grant_caps d caps s = bind_res (grant_all d caps (k_caps (s_kern s))) (\<lambda>cs. Inr (s\<lparr>s_kern := (s_kern s)\<lparr>k_caps := cs\<rparr>\<rparr>))"

text \<open>Where the MSI-X table is visible to the driver; \<open>None\<close> when it cannot be used.\<close>

definition map_msix_table :: "mapper \<Rightarrow> hw \<Rightarrow> grant_request \<Rightarrow> msix_cap \<Rightarrow> sys \<Rightarrow> (u64 option \<times> sys) res" where
  "map_msix_table mp h req cap s =
     (let table_bytes = ucast (mc_table_offset cap) + ucast (gr_msix_vectors req) * 16
      in if mc_table_bir cap = 0
         then Inr (if gr_bar_pages req * PAGE < table_bytes then None else Some DEVICE_BAR_VADDR, s)
         else (case read_bar h (gr_bus req) (gr_dev req) (gr_func req) (mc_table_bir cap) of
                 None \<Rightarrow> Inr (None, s)
               | Some msix_bar \<Rightarrow>
                   bind_res (lift_mem (map_run (map_mmio mp (k_doms (s_kern s)) (gr_domain req)) DEVICE_MSIX_VADDR msix_bar
                                         (unat (table_bytes div PAGE) + (if table_bytes mod PAGE = 0 then 0 else 1))) s) (\<lambda>s'.
                     Inr (Some DEVICE_MSIX_VADDR, s'))))"

definition setup_msix :: "mapper \<Rightarrow> hw \<Rightarrow> grant_request \<Rightarrow> sys \<Rightarrow> (msix_setup \<times> sys) res" where
  "setup_msix mp h req s =
     (let want = gr_msix_vectors req in
      if want = 0 then Inr (MSIX_DISABLED, s)
      else case find_msix h (gr_bus req) (gr_dev req) (gr_func req) of
        None \<Rightarrow> Inr (MSIX_DISABLED, s)
      | Some cap \<Rightarrow>
          if mc_table_size cap < ucast want then Inr (MSIX_DISABLED, s)
          else bind_res (map_msix_table mp h req cap s) (\<lambda>(tv, s1).
            case tv of
              None \<Rightarrow> Inr (MSIX_DISABLED, s1)
            | Some table_vaddr \<Rightarrow>
                (case apic_init h s1 of (apic, s2) \<Rightarrow>
                   if apic = None then Inr (MSIX_DISABLED, s2)
                   else case alloc_msi_vectors want (s_dev s2) of
                     (None, _) \<Rightarrow> Inr (MSIX_DISABLED, s2)
                   | (Some vector, dv) \<Rightarrow>
                       (let s3 = emit (disable_intx h (gr_bus req) (gr_dev req) (gr_func req))
                                   (s2\<lparr>s_dev := dv\<lparr>dv_msix := dv_msix dv @
                                       [\<lparr>mp_domain = gr_domain req, mp_bus = gr_bus req, mp_dev = gr_dev req, mp_func = gr_func req,
                                         mp_cap = mc_ptr cap\<rparr>]\<rparr>\<rparr>)
                        in bind_res (grant_caps (gr_domain req) (map (\<lambda>i. Irq (ucast (vector + of_nat i))) [0..<unat want]) s3) (\<lambda>s4.
                             Inr (\<lparr>ms_vector = vector, ms_count = want, ms_table_offset = mc_table_offset cap,
                                   ms_msg_addr = msi_address (s_dev s4), ms_table_vaddr = table_vaddr\<rparr>, s4))))))"

definition enable_msix :: "hw \<Rightarrow> sys \<Rightarrow> (bool \<times> sys) res" where
  "enable_msix h s =
     bind_res (current_domain (k_sched (s_kern s))) (\<lambda>me.
       Inr (case find_index (\<lambda>p. mp_domain p = me) (dv_msix (s_dev s)) of
              None \<Rightarrow> (False, s)
            | Some idx \<Rightarrow>
                (let p = dv_msix (s_dev s) ! idx
                 in (True, emit (pci_enable_msix h (mp_bus p) (mp_dev p) (mp_func p) (mp_cap p))
                       (s\<lparr>s_dev := (s_dev s)\<lparr>dv_msix := take idx (dv_msix (s_dev s)) @ drop (Suc idx) (dv_msix (s_dev s))\<rparr>\<rparr>)))))"

section \<open>Bindings\<close>

definition dev_bind :: "device_binding \<Rightarrow> dev_state \<Rightarrow> dev_state" where
  "dev_bind b dv =
     dv\<lparr>dv_binds := (case find_index (\<lambda>e. db_domain e = db_domain b) (dv_binds dv) of
                       Some i \<Rightarrow> (dv_binds dv)[i := b]
                     | None \<Rightarrow> dv_binds dv @ [b])\<rparr>"

definition dev_bind_push :: "device_binding \<Rightarrow> dev_state \<Rightarrow> dev_state" where
  "dev_bind_push b dv = dv\<lparr>dv_binds := dv_binds dv @ [b]\<rparr>"

definition dev_of :: "u64 \<Rightarrow> dev_state \<Rightarrow> device_binding option" where
  "dev_of d dv = find (\<lambda>e. db_domain e = d) (dv_binds dv)"

definition dev_config_read :: "hw \<Rightarrow> u32 \<Rightarrow> sys \<Rightarrow> u32 option res" where
  "dev_config_read h offset s =
     bind_res (current_domain (k_sched (s_kern s))) (\<lambda>me.
       Inr (case dev_of me (s_dev s) of
              None \<Rightarrow> None
            | Some e \<Rightarrow> Some (config_read_dword h (db_bus e) (db_dev e) (db_func e) (ucast offset))))"

section \<open>Granting\<close>

definition grant_at :: "mapper \<Rightarrow> hw \<Rightarrow> grant_request \<Rightarrow> u64 \<Rightarrow> u64 \<Rightarrow> u64 \<Rightarrow> bool \<Rightarrow> sys \<Rightarrow> (bool \<times> sys) res" where
  "grant_at mp h req cfg_vaddr bar_vaddr dma_vaddr multi s =
     (let bar_paddr = gr_bar_paddr req AND NOT (PAGE - 1);
          dma_pages = max (gr_dma_pages req) 1;
          d = gr_domain req
      in bind_res (setup_msix mp h req s) (\<lambda>(msix, s1).
         case allocate_frames (unat dma_pages) (frames (k_mem (s_kern s1))) of
           None \<Rightarrow> Inr (False, s1)
         | Some (dma_paddr, fr1) \<Rightarrow>
             (let k1 = (s_kern s1)\<lparr>k_mem := (k_mem (s_kern s1))\<lparr>frames := fr1\<rparr>,
                                   k_phys := write_bytes dma_paddr (replicate (unat (dma_pages * PAGE)) 0) (k_phys (s_kern s1))\<rparr>
              in case allocate_frame fr1 of
                   None \<Rightarrow> Inr (False, s1\<lparr>s_kern := k1\<rparr>)
                 | Some (cfg_paddr, fr2) \<Rightarrow>
                     (let desc = \<lparr>dg_magic = DEVICE_GRANT_MAGIC, dg_bar_paddr = bar_paddr, dg_bar_vaddr = bar_vaddr,
                                  dg_bar_bytes = gr_bar_pages req * PAGE, dg_dma_paddr = dma_paddr, dg_dma_vaddr = dma_vaddr,
                                  dg_dma_bytes = dma_pages * PAGE, dg_msix_vector_base = ms_vector msix, dg_msix_vector_count = ms_count msix,
                                  dg_msix_table_offset = ms_table_offset msix, dg_msix_msg_addr = ms_msg_addr msix,
                                  dg_page_size = ucast PAGE, dg_msix_table_vaddr = ms_table_vaddr msix\<rparr>;
                          k2 = k1\<lparr>k_mem := (k_mem k1)\<lparr>frames := fr2\<rparr>, k_phys := write_bytes cfg_paddr (device_grant_bytes desc) (k_phys k1)\<rparr>;
                          b = \<lparr>db_domain = d, db_bus = gr_bus req, db_dev = gr_dev req, db_func = gr_func req, db_bar = bar_paddr,
                               db_cfg = cfg_paddr\<rparr>;
                          s2 = s1\<lparr>s_kern := k2, s_dev := (if multi then dev_bind_push b (s_dev s1) else dev_bind b (s_dev s1))\<rparr>;
                          doms = k_doms k2
                      in bind_res (lift_mem (map_user_page mp doms d cfg_vaddr cfg_paddr ReadWrite) s2) (\<lambda>s3.
                         bind_res (lift_mem (map_run (map_mmio mp doms d) bar_vaddr bar_paddr (unat (gr_bar_pages req))) s3) (\<lambda>s4.
                         bind_res (lift_mem (map_run (\<lambda>va pa. map_user_page mp doms d va pa ReadWrite) dma_vaddr dma_paddr (unat dma_pages)) s4) (\<lambda>s5.
                         bind_res (grant_caps d [Mmio bar_paddr] s5) (\<lambda>s6. Inr (True, s6)))))))))"

definition dev_grant :: "mapper \<Rightarrow> hw \<Rightarrow> grant_request \<Rightarrow> sys \<Rightarrow> (bool \<times> sys) res" where
  "dev_grant mp h req = grant_at mp h req DEVICE_CFG_VADDR DEVICE_BAR_VADDR DEVICE_DMA_VADDR False"

definition grant_slot :: "mapper \<Rightarrow> hw \<Rightarrow> grant_request \<Rightarrow> u32 \<Rightarrow> sys \<Rightarrow> (bool \<times> sys) res" where
  "grant_slot mp h req slot =
     (let i = ucast slot
      in grant_at mp h req (DEVICE_MULTI_CFG_VADDR + i * PAGE) (DEVICE_MULTI_BAR_VADDR + i * DEVICE_MULTI_BAR_STRIDE)
           (DEVICE_MULTI_DMA_VADDR + i * DEVICE_MULTI_DMA_STRIDE) True)"

definition map_zero_cfg :: "mapper \<Rightarrow> u64 \<Rightarrow> u64 \<Rightarrow> sys \<Rightarrow> sys res" where
  "map_zero_cfg mp d vaddr s =
     (let k = s_kern s in
      case allocate_frame (frames (k_mem k)) of
        None \<Rightarrow> Inr s
      | Some (p, fr) \<Rightarrow>
          bind_res (map_user_page mp (k_doms k) d vaddr p ReadWrite ((k_mem k)\<lparr>frames := fr\<rparr>)) (\<lambda>m.
            Inr (s\<lparr>s_kern := k\<lparr>k_mem := m, k_phys := zero_frame p (k_phys k)\<rparr>\<rparr>)))"

definition grant_empty :: "mapper \<Rightarrow> u64 \<Rightarrow> sys \<Rightarrow> sys res" where
  "grant_empty mp d = map_zero_cfg mp d DEVICE_CFG_VADDR"

definition grant_empty_multi_from :: "mapper \<Rightarrow> u64 \<Rightarrow> u64 \<Rightarrow> sys \<Rightarrow> sys res" where
  "grant_empty_multi_from mp d first s =
     fold (\<lambda>i r. bind_res r (map_zero_cfg mp d (DEVICE_MULTI_CFG_VADDR + of_nat i * PAGE))) [unat first..<unat DEVICE_MULTI_SLOTS] (Inr s)"

definition grant_empty_multi :: "mapper \<Rightarrow> u64 \<Rightarrow> sys \<Rightarrow> sys res" where
  "grant_empty_multi mp d = grant_empty_multi_from mp d 0"

section \<open>System calls on devices\<close>

definition DEVICE_SELF :: u64 where
  "DEVICE_SELF = U64_MAX"

definition pci_addr :: "u8 \<Rightarrow> u8 \<Rightarrow> u8 \<Rightarrow> u64" where
  "pci_addr bus dev func = push_bit 16 (ucast bus) OR push_bit 8 (ucast dev) OR ucast func"

definition split_pci_addr :: "u64 \<Rightarrow> (u8 \<times> u8 \<times> u8) option" where
  "split_pci_addr a =
     (if drop_bit 24 a \<noteq> 0 then None
      else (let bus = ucast (drop_bit 16 a AND 0xFF); dev = ucast (drop_bit 8 a AND 0xFF); func = ucast (a AND 0xFF)
            in if 31 < dev \<or> 7 < func then None else Some (bus, dev, func)))"

definition selects :: "u64 \<Rightarrow> u8 \<Rightarrow> u8 \<Rightarrow> u8 \<Rightarrow> bool" where
  "selects a1 bus dev func \<longleftrightarrow> a1 = DEVICE_SELF \<or> split_pci_addr a1 = Some (bus, dev, func)"

definition pack_info :: "u16 \<Rightarrow> u16 \<Rightarrow> u32 \<Rightarrow> u64" where
  "pack_info vendor device class_code = push_bit 48 (ucast vendor) OR push_bit 32 (ucast device) OR (ucast class_code AND 0x00FFFFFF)"

definition dev_syscall_info :: "hw \<Rightarrow> u64 \<Rightarrow> sys \<Rightarrow> u64 res" where
  "dev_syscall_info h a1 s =
     bind_res (current_domain (k_sched (s_kern s))) (\<lambda>me.
       Inr (case dev_of me (s_dev s) of
              None \<Rightarrow> 0
            | Some e \<Rightarrow>
                if \<not> selects a1 (db_bus e) (db_dev e) (db_func e) then 0
                else (let ids = config_read_dword h (db_bus e) (db_dev e) (db_func e) 0
                      in if ids AND 0xFFFF = 0xFFFF then 0
                         else pack_info (ucast (ids AND 0xFFFF)) (ucast (drop_bit 16 ids))
                                (config_read_dword h (db_bus e) (db_dev e) (db_func e) 0x08))))"

definition dev_syscall_grant :: "u64 \<Rightarrow> sys \<Rightarrow> u64 res" where
  "dev_syscall_grant a1 s =
     bind_res (current_domain (k_sched (s_kern s))) (\<lambda>me.
       case dev_of me (s_dev s) of
         None \<Rightarrow> Inr 0
       | Some e \<Rightarrow>
           if \<not> selects a1 (db_bus e) (db_dev e) (db_func e) then Inr 0
           else bind_res (cap_has me (Mmio (db_bar e)) (k_caps (s_kern s))) (\<lambda>ok.
             if \<not> ok then Inr 0
             else if bytes_u64 (read_bytes (k_phys (s_kern s)) (db_cfg e) 8) \<noteq> DEVICE_GRANT_MAGIC then Inr 0
             else Inr DEVICE_CFG_VADDR))"

section \<open>Facts on the loops\<close>

lemma fold_bind_inv:
  assumes "fold (\<lambda>x r. bind_res r (f x)) xs (Inr s) = Inr s'" and "P s"
    and "\<And>x s s'. x \<in> set xs \<Longrightarrow> f x s = Inr s' \<Longrightarrow> P s \<Longrightarrow> P s'"
  shows "P s'"
  using assms
proof (induction xs arbitrary: s)
  case (Cons x xs)
  have stuck: "fold (\<lambda>x r. bind_res r (f x)) ys (Inl p) = Inl p" for ys p by (induction ys) simp_all
  obtain t where t: "f x s = Inr t" using Cons.prems(1) stuck by (cases "f x s") auto
  show ?case
  proof (rule Cons.IH [of t])
    show "fold (\<lambda>x r. bind_res r (f x)) xs (Inr t) = Inr s'" using Cons.prems(1) t by simp
    show "P t" using Cons.prems(3) [of x s t] t Cons.prems(2) by simp
  qed (use Cons.prems(3) in auto)
qed simp

lemma map_mmio_Inr:
  assumes "map_mmio mp doms d v p m = Inr m'"
  shows "\<exists>pml4 fl. map_to mp pml4 (page_of v) (page_of p) fl m = Some m'"
  using assms
  by (auto simp: map_mmio_def bind_res_Inr_iff VirtAddr_new_def PhysAddr_new_def split: if_splits option.splits)

text \<open>Memory changes of a mapping: frames are only taken, never freed.\<close>

definition shrinks :: "mem \<Rightarrow> mem \<Rightarrow> bool" where
  "shrinks m m' \<longleftrightarrow> frames_inv (frames m') \<and> free_set (frames m') \<subseteq> free_set (frames m)"

lemma shrinks_trans: "shrinks m m' \<Longrightarrow> shrinks m' m'' \<Longrightarrow> shrinks m m''"
  by (auto simp: shrinks_def)

lemma frame_free_at: "i < MAX_MANAGED_FRAMES \<Longrightarrow> frame_is_free fr (of_nat (i * FRAME_SIZE)) \<longleftrightarrow> i \<in> free_set fr"
  using frame_addr_unat [of i] by (simp add: frame_is_free_def FRAME_SIZE_def)

lemma map_to_shrinks:
  assumes "page_mapper (map_to mp) (unmap mp)" and "frames_inv (frames m)" and "map_to mp root v f fl m = Some m'"
  shows "shrinks m m'"
proof -
  note I = page_mapper.map_inv [OF assms]
  have "i \<in> free_set (frames m)" if "i \<in> free_set (frames m')" for i
  proof -
    have "i < MAX_MANAGED_FRAMES" using that by (simp add: free_set_def)
    then show ?thesis using I(2) [of "of_nat (i * FRAME_SIZE)"] that frame_free_at by blast
  qed
  then show ?thesis using I(1) by (auto simp: shrinks_def)
qed

lemma map_mmio_shrinks:
  assumes "page_mapper (map_to mp) (unmap mp)" and "frames_inv (frames m)" and "map_mmio mp doms d v p m = Inr m'"
  shows "shrinks m m'"
  using map_mmio_Inr [OF assms(3)] map_to_shrinks [OF assms(1,2)] by blast

lemma map_user_page_shrinks:
  assumes "page_mapper (map_to mp) (unmap mp)" and "frames_inv (frames m)" and "map_user_page mp doms d v p perm m = Inr m'"
  shows "shrinks m m'"
  using map_user_page_Inr [OF assms(3)] map_to_shrinks [OF assms(1,2)] by metis

lemma map_run_shrinks:
  assumes "map_run f va pa n m = Inr m'" and "frames_inv (frames m)"
    and "\<And>v p m m'. frames_inv (frames m) \<Longrightarrow> f v p m = Inr m' \<Longrightarrow> shrinks m m'"
  shows "shrinks m m'"
proof (rule fold_bind_inv [where P = "shrinks m", OF assms(1) [unfolded map_run_def]])
  show "shrinks m m" using assms(2) by (simp add: shrinks_def)
  fix x t t' assume a: "f (va + of_nat x * PAGE) (pa + of_nat x * PAGE) t = Inr t'" and s: "shrinks m t"
  from s have "frames_inv (frames t)" by (simp add: shrinks_def)
  from shrinks_trans [OF s assms(3) [OF this a]] show "shrinks m t'" .
qed

lemma lift_mem_Inr:
  "lift_mem f s = Inr s' \<longleftrightarrow> (\<exists>m. f (k_mem (s_kern s)) = Inr m \<and> s' = s\<lparr>s_kern := (s_kern s)\<lparr>k_mem := m\<rparr>\<rparr>)"
  by (auto simp: lift_mem_def bind_res_Inr_iff)

lemma grant_all_held:
  assumes "grant_all d cs s = Inr s'"
  shows "(\<forall>e. e \<noteq> d \<longrightarrow> held s' e = held s e) \<and> held s d \<subseteq> held s' d \<and> held s' d \<subseteq> held s d \<union> set cs"
proof (rule fold_bind_inv [OF assms [unfolded grant_all_def]])
  fix c t t'
  assume c: "c \<in> set cs" and g: "bind_res (cap_grant d c t) (\<lambda>(_, s'). Inr s') = Inr t'"
    and t: "(\<forall>e. e \<noteq> d \<longrightarrow> held t e = held s e) \<and> held s d \<subseteq> held t d \<and> held t d \<subseteq> held s d \<union> set cs"
  from g obtain r where r: "cap_grant d c t = Inr (r, t')" by (auto simp: bind_res_Inr_iff)
  then have l: "unat d < length (cap_table t)" by (auto simp: cap_grant_def bind_res_Inr_iff index_res_Inr_iff)
  show "(\<forall>e. e \<noteq> d \<longrightarrow> held t' e = held s e) \<and> held s d \<subseteq> held t' d \<and> held t' d \<subseteq> held s d \<union> set cs"
  proof (cases "insert_first c (cap_table t ! unat d)")
    case None
    then show ?thesis using r l t by (simp add: cap_grant_def)
  next
    case (Some a)
    then obtain i row where i: "insert_first c (cap_table t ! unat d) = Some (i, row)" by (cases a) auto
    then have "t' = t\<lparr>cap_table := (cap_table t)[unat d := row]\<rparr>" using r l by (simp add: cap_grant_def)
    then show ?thesis using held_insert [OF i l] t c by auto
  qed
qed simp

section \<open>MSI-X set-up\<close>

definition msi_inv :: "dev_state \<Rightarrow> bool" where
  "msi_inv dv \<longleftrightarrow> 0x50 \<le> unat (dv_msi_next dv) \<and> unat (dv_msi_next dv) \<le> 0x60"

lemma alloc_msi_Some:
  assumes "alloc_msi_vectors n dv = (Some v, dv')" and "msi_inv dv" and "unat n < 2 ^ 31"
  shows "v = dv_msi_next dv" and "unat (dv_msi_next dv') = unat v + unat n" and "msi_inv dv'"
    and "dv_binds dv' = dv_binds dv" and "0 < unat n"
proof -
  let ?f = "dv_msi_next dv + n"
  from assms(1) have n: "n \<noteq> 0" and le: "\<not> 0x60 < ?f" and v: "v = dv_msi_next dv" and dv': "dv' = dv\<lparr>dv_msi_next := ?f\<rparr>"
    by (auto simp: alloc_msi_vectors_def Let_def MSI_VECTOR_BASE_def MSI_VECTOR_COUNT_def split: if_splits)
  have b: "0x50 \<le> unat (dv_msi_next dv)" "unat (dv_msi_next dv) \<le> 0x60" using assms(2) by (simp_all add: msi_inv_def)
  have u: "unat ?f = unat (dv_msi_next dv) + unat n" using b assms(3) by (simp add: unat_add_lem [symmetric])
  show "v = dv_msi_next dv" by (rule v)
  show "unat (dv_msi_next dv') = unat v + unat n" using u by (simp add: dv' v)
  show "msi_inv dv'" using u b le by (simp add: msi_inv_def dv' word_less_nat_alt)
  show "dv_binds dv' = dv_binds dv" by (simp add: dv')
  show "0 < unat n" using n by (simp add: unat_gt_0)
qed

definition irq_segment :: "dev_state \<Rightarrow> dev_state \<Rightarrow> capability set" where
  "irq_segment dv dv' = {Irq (of_nat v) | v. unat (dv_msi_next dv) \<le> v \<and> v < unat (dv_msi_next dv')}"

text \<open>What setting up MSI-X may change: page tables, the device tables, events, and interrupt capabilities of one domain.\<close>

definition msix_effect :: "u64 \<Rightarrow> sys \<Rightarrow> sys \<Rightarrow> bool" where
  "msix_effect d s s' \<longleftrightarrow>
     shrinks (k_mem (s_kern s)) (k_mem (s_kern s')) \<and> k_phys (s_kern s') = k_phys (s_kern s) \<and> k_doms (s_kern s') = k_doms (s_kern s) \<and>
     msi_inv (s_dev s') \<and> unat (dv_msi_next (s_dev s)) \<le> unat (dv_msi_next (s_dev s')) \<and> dv_binds (s_dev s') = dv_binds (s_dev s) \<and>
     (\<forall>e. e \<noteq> d \<longrightarrow> held (k_caps (s_kern s')) e = held (k_caps (s_kern s)) e) \<and>
     held (k_caps (s_kern s')) d \<subseteq> held (k_caps (s_kern s)) d \<union> irq_segment (s_dev s) (s_dev s')"

lemma msix_effect_refl: "frames_inv (frames (k_mem (s_kern s))) \<Longrightarrow> msi_inv (s_dev s) \<Longrightarrow> msix_effect d s s"
  by (simp add: msix_effect_def shrinks_def)

lemma map_msix_table_effect:
  assumes "page_mapper (map_to mp) (unmap mp)" and "map_msix_table mp h req cap s = Inr (tv, s')"
    and "frames_inv (frames (k_mem (s_kern s)))"
  shows "\<exists>m. s' = s\<lparr>s_kern := (s_kern s)\<lparr>k_mem := m\<rparr>\<rparr> \<and> shrinks (k_mem (s_kern s)) m"
proof (cases "mc_table_bir cap = 0 \<or> read_bar h (gr_bus req) (gr_dev req) (gr_func req) (mc_table_bir cap) = None")
  case True
  then have "s' = s" using assms(2) by (auto simp: map_msix_table_def Let_def split: if_splits)
  then show ?thesis using assms(3) by (intro exI [of _ "k_mem (s_kern s)"]) (simp add: shrinks_def)
next
  case False
  then obtain va bar n where "lift_mem (map_run (map_mmio mp (k_doms (s_kern s)) (gr_domain req)) va bar n) s = Inr s'"
    using assms(2) by (auto simp: map_msix_table_def Let_def bind_res_Inr_iff)
  then obtain m where m: "map_run (map_mmio mp (k_doms (s_kern s)) (gr_domain req)) va bar n (k_mem (s_kern s)) = Inr m"
      and s': "s' = s\<lparr>s_kern := (s_kern s)\<lparr>k_mem := m\<rparr>\<rparr>"
    by (auto simp: lift_mem_Inr)
  have "shrinks (k_mem (s_kern s)) m" by (rule map_run_shrinks [OF m assms(3)]) (rule map_mmio_shrinks [OF assms(1)])
  with s' show ?thesis by blast
qed

lemma apic_init_effect:
  "s_kern (snd (apic_init h s)) = s_kern s" "dv_msi_next (s_dev (snd (apic_init h s))) = dv_msi_next (s_dev s)"
  "dv_binds (s_dev (snd (apic_init h s))) = dv_binds (s_dev s)"
  by (simp_all add: apic_init_def emit_def Let_def)

lemma setup_msix_effect:
  assumes "page_mapper (map_to mp) (unmap mp)" and "frames_inv (frames (k_mem (s_kern s)))" and "msi_inv (s_dev s)"
    and "unat (gr_msix_vectors req) < 2 ^ 31" and "setup_msix mp h req s = Inr (ms, s')"
  shows "msix_effect (gr_domain req) s s'"
proof (cases "s' = s")
  case True
  then show ?thesis using assms(2,3) by (simp add: msix_effect_refl)
next
  case False
  let ?w = "gr_msix_vectors req"
  from False assms(5) obtain cap where cap: "find_msix h (gr_bus req) (gr_dev req) (gr_func req) = Some cap"
      and ne: "?w \<noteq> 0" and sz: "\<not> mc_table_size cap < ucast ?w"
    by (auto simp: setup_msix_def Let_def split: if_splits option.splits)
  from assms(5) cap ne sz obtain tv s1 where t: "map_msix_table mp h req cap s = Inr (tv, s1)"
    by (auto simp: setup_msix_def Let_def bind_res_Inr_iff)
  from map_msix_table_effect [OF assms(1) t assms(2)] obtain m where s1: "s1 = s\<lparr>s_kern := (s_kern s)\<lparr>k_mem := m\<rparr>\<rparr>"
      and m: "shrinks (k_mem (s_kern s)) m" by blast
  have e1: "msix_effect (gr_domain req) s s1" using m assms(3) by (simp add: s1 msix_effect_def)
  obtain apic s2 where a: "apic_init h s1 = (apic, s2)" by (cases "apic_init h s1")
  then have s2: "s_kern s2 = s_kern s1" "dv_msi_next (s_dev s2) = dv_msi_next (s_dev s)" "dv_binds (s_dev s2) = dv_binds (s_dev s)"
    using apic_init_effect [of h s1] by (simp_all add: s1)
  have n1: "dv_msi_next (s_dev s1) = dv_msi_next (s_dev s)" by (simp add: s1)
  have e2: "msix_effect (gr_domain req) s s2" using e1 assms(3) s2 n1 by (simp add: msix_effect_def msi_inv_def irq_segment_def)
  obtain v dv where al: "alloc_msi_vectors ?w (s_dev s2) = (v, dv)" by (cases "alloc_msi_vectors ?w (s_dev s2)")
  show ?thesis
  proof (cases "tv = None \<or> apic = None \<or> v = None")
    case True
    then have "s' = s1 \<or> s' = s2" using assms(5) cap ne sz t a al by (auto simp: setup_msix_def Let_def split: option.splits if_splits)
    then show ?thesis using e1 e2 by blast
  next
    case False
    then obtain vec where vec: "v = Some vec" by auto
    have i2: "msi_inv (s_dev s2)" using e2 by (simp add: msix_effect_def)
    note A = alloc_msi_Some [OF al [unfolded vec] i2 assms(4)]
    from False assms(5) cap ne sz t a al vec obtain s3 where
        g: "grant_caps (gr_domain req) (map (\<lambda>i. Irq (ucast (vec + of_nat i))) [0..<unat ?w]) s3 = Inr s'"
        and s3: "s_kern s3 = s_kern s2" "dv_msi_next (s_dev s3) = dv_msi_next dv" "dv_binds (s_dev s3) = dv_binds dv"
      by (auto simp: setup_msix_def Let_def bind_res_Inr_iff emit_def)
    from g obtain cs where cs: "grant_all (gr_domain req) (map (\<lambda>i. Irq (ucast (vec + of_nat i))) [0..<unat ?w]) (k_caps (s_kern s3)) = Inr cs"
        and s': "s' = s3\<lparr>s_kern := (s_kern s3)\<lparr>k_caps := cs\<rparr>\<rparr>"
      by (auto simp: grant_caps_def bind_res_Inr_iff)
    have seg: "Irq (ucast (vec + of_nat i)) \<in> irq_segment (s_dev s) (s_dev s')" if i: "i < unat ?w" for i
    proof -
      have lim: "unat vec + i \<le> 0x60" using A(2,3) i by (simp add: msi_inv_def)
      have "unat (of_nat i :: u32) = i" using i assms(4) by (simp add: unat_of_nat)
      then have "unat (vec + of_nat i) = unat vec + i" using lim by (simp add: unat_word_ariths)
      moreover have "(ucast (vec + of_nat i) :: u8) = of_nat (unat (vec + of_nat i))" by (rule of_nat_unat [symmetric])
      ultimately have "(ucast (vec + of_nat i) :: u8) = of_nat (unat vec + i)" by (simp only:)
      moreover have "unat (dv_msi_next (s_dev s)) \<le> unat vec + i \<and> unat vec + i < unat (dv_msi_next (s_dev s'))"
        using A(1,2) i s2(2) s3(2) by (simp add: s')
      ultimately show ?thesis unfolding irq_segment_def by blast
    qed
    have "irq_segment (s_dev s) (s_dev s2) = {}" using s2(2) by (auto simp: irq_segment_def)
    then show ?thesis
      using grant_all_held [OF cs] e2 s2 s3 A seg by (auto simp: msix_effect_def s' msi_inv_def)
  qed
qed

section \<open>Granting\<close>

text \<open>The steps of \<open>grant_at\<close> after MSI-X, on success.\<close>

lemma grant_at_success:
  assumes "grant_at mp h req cv bv dv multi s = Inr (True, s')"
  obtains ms s1 dma fr1 cfg fr2 g where "setup_msix mp h req s = Inr (ms, s1)"
    and "allocate_frames (unat (max (gr_dma_pages req) 1)) (frames (k_mem (s_kern s1))) = Some (dma, fr1)"
    and "allocate_frame fr1 = Some (cfg, fr2)"
    and "dg_dma_paddr g = dma" and "dg_bar_paddr g = gr_bar_paddr req AND NOT (PAGE - 1)" and "dg_magic g = DEVICE_GRANT_MAGIC"
    and "k_phys (s_kern s') = write_bytes cfg (device_grant_bytes g)
           (write_bytes dma (replicate (unat (max (gr_dma_pages req) 1 * PAGE)) 0) (k_phys (s_kern s1)))"
    and "s_dev s' = (let b = \<lparr>db_domain = gr_domain req, db_bus = gr_bus req, db_dev = gr_dev req, db_func = gr_func req,
             db_bar = gr_bar_paddr req AND NOT (PAGE - 1), db_cfg = cfg\<rparr>
           in if multi then dev_bind_push b (s_dev s1) else dev_bind b (s_dev s1))"
    and "grant_all (gr_domain req) [Mmio (gr_bar_paddr req AND NOT (PAGE - 1))] (k_caps (s_kern s1)) = Inr (k_caps (s_kern s'))"
proof -
  from assms obtain ms s1 where S: "setup_msix mp h req s = Inr (ms, s1)"
    by (auto simp: grant_at_def Let_def bind_res_Inr_iff)
  let ?n = "max (gr_dma_pages req) 1" and ?bar = "gr_bar_paddr req AND NOT (PAGE - 1)"
  from assms S obtain dma fr1 where A: "allocate_frames (unat ?n) (frames (k_mem (s_kern s1))) = Some (dma, fr1)"
    by (cases "allocate_frames (unat ?n) (frames (k_mem (s_kern s1)))") (auto simp: grant_at_def Let_def)
  from assms S A obtain cfg fr2 where C: "allocate_frame fr1 = Some (cfg, fr2)"
    by (cases "allocate_frame fr1") (auto simp: grant_at_def Let_def)
  let ?g = "\<lparr>dg_magic = DEVICE_GRANT_MAGIC, dg_bar_paddr = ?bar, dg_bar_vaddr = bv, dg_bar_bytes = gr_bar_pages req * PAGE,
     dg_dma_paddr = dma, dg_dma_vaddr = dv, dg_dma_bytes = ?n * PAGE, dg_msix_vector_base = ms_vector ms, dg_msix_vector_count = ms_count ms,
     dg_msix_table_offset = ms_table_offset ms, dg_msix_msg_addr = ms_msg_addr ms, dg_page_size = ucast PAGE,
     dg_msix_table_vaddr = ms_table_vaddr ms\<rparr>"
  show thesis
  proof (rule that [OF S A C, of ?g])
    show "k_phys (s_kern s') = write_bytes cfg (device_grant_bytes ?g) (write_bytes dma (replicate (unat (?n * PAGE)) 0) (k_phys (s_kern s1)))"
      using assms S A C by (auto simp: grant_at_def Let_def bind_res_Inr_iff lift_mem_Inr grant_caps_def)
    show "grant_all (gr_domain req) [Mmio ?bar] (k_caps (s_kern s1)) = Inr (k_caps (s_kern s'))"
      using assms S A C by (auto simp: grant_at_def Let_def bind_res_Inr_iff lift_mem_Inr grant_caps_def)
    show "s_dev s' = (let b = \<lparr>db_domain = gr_domain req, db_bus = gr_bus req, db_dev = gr_dev req, db_func = gr_func req, db_bar = ?bar,
        db_cfg = cfg\<rparr> in if multi then dev_bind_push b (s_dev s1) else dev_bind b (s_dev s1))"
      using assms S A C by (auto simp: grant_at_def Let_def bind_res_Inr_iff lift_mem_Inr grant_caps_def)
  qed simp_all
qed

lemma grant_at_failure:
  assumes "grant_at mp h req cv bv dv multi s = Inr (False, s')"
  obtains ms s1 where "setup_msix mp h req s = Inr (ms, s1)" and "k_caps (s_kern s') = k_caps (s_kern s1)" and "s_dev s' = s_dev s1"
proof -
  from assms obtain ms s1 where S: "setup_msix mp h req s = Inr (ms, s1)"
    by (auto simp: grant_at_def Let_def bind_res_Inr_iff)
  show thesis
    by (rule that [OF S]) (use assms S in \<open>auto simp: grant_at_def Let_def bind_res_Inr_iff split: option.splits\<close>)
qed

lemma dev_bind_next: "dv_msi_next (dev_bind b dv) = dv_msi_next dv" "dv_msi_next (dev_bind_push b dv) = dv_msi_next dv"
  by (simp_all add: dev_bind_def dev_bind_push_def)

lemma length_device_grant_bytes [simp]: "length (device_grant_bytes g) = 88"
  by (simp add: device_grant_bytes_def u32_bytes_def)

lemma find_append_absent: "find P xs = None \<Longrightarrow> find P (xs @ [y]) = (if P y then Some y else None)"
  by (induction xs) (auto split: if_splits)

lemma dev_of_bind:
  "dev_of d (dev_bind b dv) = (if d = db_domain b then Some b else dev_of d dv)"
proof (cases "find_index (\<lambda>e. db_domain e = db_domain b) (dv_binds dv)")
  case None
  then have a: "\<forall>e \<in> set (dv_binds dv). db_domain e \<noteq> db_domain b" by (simp add: find_index_None_iff)
  have "find (\<lambda>e. db_domain e = d) (xs @ [b]) = (if d = db_domain b then Some b else find (\<lambda>e. db_domain e = d) xs)"
    if "\<forall>e \<in> set xs. db_domain e \<noteq> db_domain b" for xs
    using that by (induction xs) auto
  from this [OF a] show ?thesis using None by (simp add: dev_of_def dev_bind_def)
next
  case (Some i)
  have "find (\<lambda>e. db_domain e = d) (xs[i := b]) = (if d = db_domain b then Some b else find (\<lambda>e. db_domain e = d) xs)"
    if "i < length xs" and "db_domain (xs ! i) = db_domain b" and "\<forall>j < i. db_domain (xs ! j) \<noteq> db_domain b" for xs i
    using that
  proof (induction xs arbitrary: i)
    case (Cons x xs)
    show ?case
    proof (cases i)
      case 0
      then show ?thesis using Cons.prems by auto
    next
      case (Suc j)
      have "db_domain x \<noteq> db_domain b" using Cons.prems Suc by fastforce
      moreover have "find (\<lambda>e. db_domain e = d) (xs[j := b]) = (if d = db_domain b then Some b else find (\<lambda>e. db_domain e = d) xs)"
        by (rule Cons.IH) (use Cons.prems Suc in \<open>auto dest: spec [of _ "Suc _"]\<close>)
      ultimately show ?thesis using Suc by auto
    qed
  qed simp
  from this [of i "dv_binds dv"] find_index_SomeD [OF Some] show ?thesis using Some by (simp add: dev_of_def dev_bind_def)
qed

lemma dma_run_bytes:
  assumes "frames_inv fr" and "allocate_frames (unat n) fr = Some (dma, fr1)"
  obtains i where "{i..<i + unat n} \<subseteq> free_set fr" and "dma = of_nat (i * FRAME_SIZE)" and "unat dma = i * FRAME_SIZE"
    and "free_set fr1 = free_set fr - {i..<i + unat n}" and "frames_inv fr1" and "unat (n * PAGE) = unat n * FRAME_SIZE"
    and "(i + unat n) * FRAME_SIZE < 2 ^ 64"
proof -
  obtain i where i: "0 < unat n" "{i..<i + unat n} \<subseteq> free_set fr" "dma = of_nat (i * FRAME_SIZE)"
      "free_set fr1 = free_set fr - {i..<i + unat n}" "frames_inv fr1"
    by (rule allocate_frames_Some [OF assms])
  then have m: "i < MAX_MANAGED_FRAMES" "i + unat n - 1 < MAX_MANAGED_FRAMES" by (auto simp: free_set_def subset_iff)
  show thesis
  proof (rule that [OF i(2,3) _ i(4,5)])
    show "unat dma = i * FRAME_SIZE" unfolding i(3) using m(1) by (rule frame_addr_unat)
    show "(i + unat n) * FRAME_SIZE < 2 ^ 64" using m(2) i(1) by (simp add: managed_limit FRAME_SIZE_def)
    then show "unat (n * PAGE) = unat n * FRAME_SIZE" by (simp add: PAGE_def FRAME_SIZE_def unat_word_ariths)
  qed
qed

lemma frame_offset:
  fixes a p :: u64
  assumes "unat p = i * FRAME_SIZE" and "(i + n) * FRAME_SIZE < 2 ^ 64"
  shows "unat (a - p) < n * FRAME_SIZE \<longleftrightarrow> unat a div FRAME_SIZE \<in> {i..<i + n}"
proof (cases "unat p \<le> unat a")
  case True
  then have "unat (a - p) = unat a - i * FRAME_SIZE" using assms(1) by (simp add: unat_sub_if_size word_le_nat_alt)
  then show ?thesis using True assms(1)
    by (auto simp: FRAME_SIZE_def less_eq_div_iff_mult_less_eq div_less_iff_less_mult algebra_simps)
next
  case False
  then have "unat (a - p) = unat a + 2 ^ 64 - i * FRAME_SIZE" using assms(1) by (simp add: unat_sub_if_size word_size)
  moreover have "unat a div FRAME_SIZE < i" using False assms(1) by (simp add: div_less_iff_less_mult FRAME_SIZE_def)
  ultimately show ?thesis using assms(2) by (auto simp: algebra_simps)
qed

text \<open>The bytes after zeroing a run of frames and writing a description into another frame.\<close>

lemma grant_bytes:
  fixes dma cfg :: u64
  assumes "unat dma = i * FRAME_SIZE" and "(i + n) * FRAME_SIZE < 2 ^ 64" and "unat cfg = j * FRAME_SIZE" and "(j + 1) * FRAME_SIZE < 2 ^ 64"
    and "j \<notin> {i..<i + n}" and "length bs \<le> FRAME_SIZE"
  shows "unat a div FRAME_SIZE \<in> {i..<i + n} \<Longrightarrow> write_bytes cfg bs (write_bytes dma (replicate (n * FRAME_SIZE) 0) ph) a = 0"
    and "unat a div FRAME_SIZE \<notin> insert j {i..<i + n} \<Longrightarrow> write_bytes cfg bs (write_bytes dma (replicate (n * FRAME_SIZE) 0) ph) a = ph a"
proof -
  note D = frame_offset [OF assms(1,2), of a] and C = frame_offset [OF assms(3,4), of a]
  have c: "length bs \<le> unat (a - cfg)" if "unat a div FRAME_SIZE \<noteq> j" using C that assms(6) by auto
  show "unat a div FRAME_SIZE \<in> {i..<i + n} \<Longrightarrow> write_bytes cfg bs (write_bytes dma (replicate (n * FRAME_SIZE) 0) ph) a = 0"
    using c D assms(5) by (subst write_bytes_out) (auto simp: write_bytes_def)
  show "unat a div FRAME_SIZE \<notin> insert j {i..<i + n} \<Longrightarrow> write_bytes cfg bs (write_bytes dma (replicate (n * FRAME_SIZE) 0) ph) a = ph a"
    using c D by (subst write_bytes_out) (auto simp: write_bytes_def)
qed

lemma grant_memory:
  assumes "frames_inv fr" and "allocate_frames (unat n) fr = Some (dma, fr1)" and "allocate_frame fr1 = Some (cfg, fr2)"
    and "ph' = write_bytes cfg (device_grant_bytes g) (write_bytes dma (replicate (unat (n * PAGE)) 0) ph)"
  obtains i j where "{i..<i + unat n} \<subseteq> free_set fr" and "j \<in> free_set fr - {i..<i + unat n}"
    and "dma = of_nat (i * FRAME_SIZE)" and "cfg = of_nat (j * FRAME_SIZE)"
    and "\<forall>a. unat a div FRAME_SIZE \<in> {i..<i + unat n} \<longrightarrow> ph' a = 0" and "read_bytes ph' cfg 88 = device_grant_bytes g"
    and "\<forall>a. unat a div FRAME_SIZE \<notin> insert j {i..<i + unat n} \<longrightarrow> ph' a = ph a"
proof -
  obtain i where i: "{i..<i + unat n} \<subseteq> free_set fr" "dma = of_nat (i * FRAME_SIZE)" "unat dma = i * FRAME_SIZE"
      "free_set fr1 = free_set fr - {i..<i + unat n}" "frames_inv fr1" "unat (n * PAGE) = unat n * FRAME_SIZE"
      "(i + unat n) * FRAME_SIZE < 2 ^ 64"
    by (rule dma_run_bytes [OF assms(1,2)])
  obtain j where j: "j \<in> free_set fr1" "cfg = of_nat (j * FRAME_SIZE)" "unat cfg = j * FRAME_SIZE"
    by (rule allocate_frame_Some [OF i(5) assms(3)])
  have jm: "(j + 1) * FRAME_SIZE < 2 ^ 64" using j(1) by (simp add: free_set_def managed_limit FRAME_SIZE_def)
  have nd: "j \<notin> {i..<i + unat n}" using j(1) i(4) by blast
  note B = grant_bytes [OF i(3,7) j(3) jm nd, of "device_grant_bytes g" _ ph]
  show thesis
  proof (rule that [of i j])
    show "read_bytes ph' cfg 88 = device_grant_bytes g"
      unfolding assms(4) using read_write_bytes [of "device_grant_bytes g" cfg] by simp
    show "\<forall>a. unat a div FRAME_SIZE \<in> {i..<i + unat n} \<longrightarrow> ph' a = 0"
      and "\<forall>a. unat a div FRAME_SIZE \<notin> insert j {i..<i + unat n} \<longrightarrow> ph' a = ph a"
      unfolding assms(4) i(6) using B by (auto simp: FRAME_SIZE_def)
    show "j \<in> free_set fr - {i..<i + unat n}" using j(1) i(4) by blast
  qed (fact i(1,2) j(2))+
qed


definition w_sys :: "nat list \<Rightarrow> sys" where
  "w_sys fs = \<lparr>s_kern = w_kernel 0x1000 2 fs (w_sched False), s_dev = dev_start, s_con = console_start, s_pci = pci_table_start, s_io = []\<rparr>"

definition w_hw :: hw where
  "w_hw = \<lparr>hw_wp = True, hw_in8 = (\<lambda>_. 0), hw_in16 = (\<lambda>_. 0), hw_cfg = (\<lambda>_. 0xFFFFFFFF), hw_apic_base = 0xFEE00000, hw_lapic = (\<lambda>_. 0)\<rparr>"

definition w_request :: grant_request where
  "w_request = \<lparr>gr_domain = 1, gr_bus = 0, gr_dev = 4, gr_func = 0, gr_bar_paddr = 0xFEB01000, gr_bar_pages = 0, gr_dma_pages = 1, gr_msix_vectors = 0\<rparr>"

lemma w_map_two:
  assumes "drop_bit 52 p = 0" and "drop_bit 52 q = 0"
  shows "\<exists>m1 m2. map_user_page ref_mapper (k_doms (w_kernel 0x1000 2 fs sc)) 1 w_page p ReadWrite \<lparr>frames = fr, ptabs = w_tables\<rparr> = Inr m1 \<and>
    map_user_page ref_mapper (k_doms (w_kernel 0x1000 2 fs sc)) 1 (USER_SPACE_BASE + 0x2000) q ReadWrite m1 = Inr m2"
proof -
  let ?v = "USER_SPACE_BASE + 0x2000" and ?doms = "k_doms (w_kernel 0x1000 2 fs sc)"
  have i: "p4_index ?v = 1" "p3_index ?v = 0" "p2_index ?v = 0" "p1_index ?v = 2" by (simp_all add: index_div USER_SPACE_BASE_def)
  have d: "pml4_of ?doms 1 = Inr 0x1000" by (simp add: pml4_of_def w_kernel_def numeral_2_eq_2)
  have v: "page_of w_page = w_page" "page_of ?v = ?v" "canonical w_page" "canonical ?v"
    by (simp_all add: page_of_def canonical_def w_page_def USER_SPACE_BASE_def)
  note ev = map_user_page_def VirtAddr_new_def PhysAddr_new_def ref_mapper_def ref_map_to_def next_table_def w_tables_def is_unused_def
    unused_pte_def set_entry_def
  let ?m1 = "the (ref_map_to 0x1000 w_page (page_of p) (flags_for ReadWrite) \<lparr>frames = fr, ptabs = w_tables\<rparr>)"
  have "map_user_page ref_mapper ?doms 1 w_page p ReadWrite \<lparr>frames = fr, ptabs = w_tables\<rparr> = Inr ?m1"
    using assms(1) by (simp add: ev d v w_page_index)
  moreover have "\<exists>m2. map_user_page ref_mapper ?doms 1 ?v q ReadWrite ?m1 = Inr m2"
    using assms(2) by (simp add: ev d v w_page_index i)
  ultimately show ?thesis by blast
qed

lemma allocate_frames_succeeds:
  assumes "0 < n" and "{i..<i + n} \<subseteq> free_set fr" and "i + n \<le> MAX_MANAGED_FRAMES"
  shows "allocate_frames n fr \<noteq> None"
  using alloc_run_spec [OF scan_inv_start [OF assms(1)], of "bitmap fr"] assms
  by (auto simp: allocate_frames_def run_free_set split: option.splits)

lemma frame_addr_low: "unat (p :: u64) = i * FRAME_SIZE \<Longrightarrow> i < MAX_MANAGED_FRAMES \<Longrightarrow> drop_bit 52 p = 0"
proof -
  assume "unat p = i * FRAME_SIZE" and "i < MAX_MANAGED_FRAMES"
  then have "unat (drop_bit 52 p) = 0" by (simp add: drop_bit_eq_div unat_div managed_limit FRAME_SIZE_def)
  then show "drop_bit 52 p = 0" by (simp add: unat_eq_0)
qed


section \<open>System calls reach the own device only\<close>

lemma pci_addr_bits:
  "bit (pci_addr b d f) n \<longleftrightarrow> (if n < 8 then bit f n else if n < 16 then bit d (n - 8) else n < 24 \<and> bit b (n - 16))"
proof -
  have l: "bit (x :: u8) m \<Longrightarrow> m < 8" for x m using bit_imp_le_length [of x m] by simp
  show ?thesis by (auto simp: pci_addr_def byte_bits dest: l)
qed

lemma low_byte: "(0xFF :: u64) = mask 8"
  by (simp add: mask_eq_exp_minus_1)

lemma split_pci_addr_iff: "split_pci_addr a = Some (b, d, f) \<longleftrightarrow> a = pci_addr b d f \<and> d \<le> 31 \<and> f \<le> 7"
proof
  assume s: "split_pci_addr a = Some (b, d, f)"
  then have top: "drop_bit 24 a = 0" and p: "b = ucast (drop_bit 16 a AND 0xFF)" "d = ucast (drop_bit 8 a AND 0xFF)" "f = ucast (a AND 0xFF)"
      and lim: "d \<le> 31" "f \<le> 7"
    by (auto simp: split_pci_addr_def Let_def not_less split: if_splits)
  have hi: "bit a n \<Longrightarrow> n < 24" for n
    using arg_cong [OF top, of "\<lambda>w. bit w (n - 24)"] by (cases "24 \<le> n") (simp_all add: bit_drop_bit_eq)
  have "a = pci_addr b d f"
    by (rule bit_word_eqI) (auto simp: pci_addr_bits p low_byte byte_bits bit_mask_iff bit_drop_bit_eq dest: hi)
  with lim show "a = pci_addr b d f \<and> d \<le> 31 \<and> f \<le> 7" by blast
next
  assume a: "a = pci_addr b d f \<and> d \<le> 31 \<and> f \<le> 7"
  have t: "drop_bit 24 (pci_addr b d f) = 0"
    by (rule bit_word_eqI) (simp add: bit_drop_bit_eq pci_addr_bits)
  have x: "ucast (drop_bit 16 (pci_addr b d f) AND 0xFF) = b" "ucast (drop_bit 8 (pci_addr b d f) AND 0xFF) = d"
      "ucast (pci_addr b d f AND 0xFF) = f"
    by (rule bit_word_eqI, simp add: low_byte byte_bits bit_mask_iff bit_drop_bit_eq pci_addr_bits)+
  show "split_pci_addr a = Some (b, d, f)" using a t by (simp add: split_pci_addr_def Let_def x not_less)
qed

lemma enable_msix_events:
  "\<exists>val. pci_enable_msix h b d f cap = [CfgWrite (config_addr b d f ((cap + 2) AND NOT 0x3)) val]"
  using config_update_word_exact [OF surjective_pairing, of h b d f "cap + 2" "0x4000" "0x8000"] by (auto simp: pci_enable_msix_def)

lemma enable_msix_cases:
  assumes "current_domain (k_sched (s_kern s)) = Inr me"
  obtains (none) "\<forall>p \<in> set (dv_msix (s_dev s)). mp_domain p \<noteq> me" and "enable_msix h s = Inr (False, s)"
  | (own) pre p post val s' where "dv_msix (s_dev s) = pre @ p # post" and "mp_domain p = me" and "enable_msix h s = Inr (True, s')"
      and "s_kern s' = s_kern s" and "dv_msix (s_dev s') = pre @ post"
      and "s_io s' = s_io s @ [CfgWrite (config_addr (mp_bus p) (mp_dev p) (mp_func p) ((mp_cap p + 2) AND NOT 0x3)) val]"
proof (cases "find_index (\<lambda>p. mp_domain p = me) (dv_msix (s_dev s))")
  case None
  from None have "\<forall>p \<in> set (dv_msix (s_dev s)). mp_domain p \<noteq> me" by (simp add: find_index_None_iff)
  moreover have "enable_msix h s = Inr (False, s)" by (simp add: enable_msix_def assms None)
  ultimately show thesis by (rule none)
next
  case (Some i)
  let ?xs = "dv_msix (s_dev s)" and ?p = "dv_msix (s_dev s) ! i"
  note I = find_index_SomeD(1,2) [OF Some]
  obtain val where v: "pci_enable_msix h (mp_bus ?p) (mp_dev ?p) (mp_func ?p) (mp_cap ?p) =
      [CfgWrite (config_addr (mp_bus ?p) (mp_dev ?p) (mp_func ?p) ((mp_cap ?p + 2) AND NOT 0x3)) val]"
    using enable_msix_events by blast
  show thesis
  proof (rule own [of "take i ?xs" ?p "drop (Suc i) ?xs" "snd (projr (enable_msix h s))"])
    show "?xs = take i ?xs @ ?p # drop (Suc i) ?xs" using I(1) by (rule id_take_nth_drop)
  qed (use I v Some in \<open>simp_all add: enable_msix_def assms emit_def Let_def\<close>)
qed

text \<open>
  C37: a driver reaches its own device only. For the running domain, a query, a claim or a configuration
  read answers nothing without a binding; the answers depend on the configuration space of the bound
  function alone; an address other than \<open>DEVICE_SELF\<close> is honoured exactly when it encodes the bound
  function; and turning MSI-X on writes one configuration register of a function prepared for this
  domain, once, leaving what was prepared for other domains.
\<close>

theorem device_access_confined:
  assumes "current_domain (k_sched (s_kern s)) = Inr me"
  shows "(dev_of me (s_dev s) = None \<longrightarrow>
      dev_syscall_info h a1 s = Inr 0 \<and> dev_syscall_grant a1 s = Inr 0 \<and> dev_config_read h off s = Inr None) \<and>
    (\<forall>e. dev_of me (s_dev s) = Some e \<longrightarrow>
      db_domain e = me \<and>
      ((\<forall>o'. config_read_dword h (db_bus e) (db_dev e) (db_func e) o' = config_read_dword h' (db_bus e) (db_dev e) (db_func e) o') \<longrightarrow>
         dev_syscall_info h a1 s = dev_syscall_info h' a1 s \<and> dev_config_read h off s = dev_config_read h' off s) \<and>
      (a1 \<noteq> DEVICE_SELF \<and> \<not> (a1 = pci_addr (db_bus e) (db_dev e) (db_func e) \<and> db_dev e \<le> 31 \<and> db_func e \<le> 7) \<longrightarrow>
         dev_syscall_info h a1 s = Inr 0 \<and> dev_syscall_grant a1 s = Inr 0)) \<and>
    (case enable_msix h s of
       Inl _ \<Rightarrow> False
     | Inr (ok, s') \<Rightarrow>
         ok = (\<exists>p \<in> set (dv_msix (s_dev s)). mp_domain p = me) \<and> s_kern s' = s_kern s \<and>
         (\<not> ok \<longrightarrow> s' = s) \<and>
         (ok \<longrightarrow> (\<exists>p \<in> set (dv_msix (s_dev s)). \<exists>val. mp_domain p = me \<and>
            s_io s' = s_io s @ [CfgWrite (config_addr (mp_bus p) (mp_dev p) (mp_func p) ((mp_cap p + 2) AND NOT 0x3)) val]) \<and>
            length (dv_msix (s_dev s)) = Suc (length (dv_msix (s_dev s')))) \<and>
         filter (\<lambda>p. mp_domain p \<noteq> me) (dv_msix (s_dev s')) = filter (\<lambda>p. mp_domain p \<noteq> me) (dv_msix (s_dev s)))"
proof -
  have bound: "db_domain e = me" if "dev_of me (s_dev s) = Some e" for e
    using that by (auto simp: dev_of_def find_Some_iff)
  have sel: "\<not> selects a1 b d f" if "a1 \<noteq> DEVICE_SELF" "\<not> (a1 = pci_addr b d f \<and> d \<le> 31 \<and> f \<le> 7)" for b d f
    using that by (simp add: selects_def split_pci_addr_iff)
  have msix: "case enable_msix h s of Inl _ \<Rightarrow> False | Inr (ok, s') \<Rightarrow>
         ok = (\<exists>p \<in> set (dv_msix (s_dev s)). mp_domain p = me) \<and> s_kern s' = s_kern s \<and> (\<not> ok \<longrightarrow> s' = s) \<and>
         (ok \<longrightarrow> (\<exists>p \<in> set (dv_msix (s_dev s)). \<exists>val. mp_domain p = me \<and>
            s_io s' = s_io s @ [CfgWrite (config_addr (mp_bus p) (mp_dev p) (mp_func p) ((mp_cap p + 2) AND NOT 0x3)) val]) \<and>
            length (dv_msix (s_dev s)) = Suc (length (dv_msix (s_dev s')))) \<and>
         filter (\<lambda>p. mp_domain p \<noteq> me) (dv_msix (s_dev s')) = filter (\<lambda>p. mp_domain p \<noteq> me) (dv_msix (s_dev s))"
    by (rule enable_msix_cases [OF assms, of h]) auto
  show ?thesis using msix bound sel
    by (auto simp: dev_syscall_info_def dev_syscall_grant_def dev_config_read_def assms Let_def)
qed

definition w_bound :: sys where
  "w_bound = (w_sys [])\<lparr>s_dev := dev_start\<lparr>dv_binds := [\<lparr>db_domain = 0, db_bus = 0, db_dev = 4, db_func = 0, db_bar = 0xFEB01000, db_cfg = 0x7000\<rparr>]\<rparr>\<rparr>"

theorem device_access_confined_witness:
  "dev_syscall_info w_hw (pci_addr 0 5 0) w_bound = Inr 0 \<and> dev_syscall_grant (pci_addr 0 5 0) w_bound = Inr 0 \<and>
   enable_msix w_hw w_bound = Inr (False, w_bound)"
proof -
  have c: "current_domain (k_sched (s_kern w_bound)) = Inr 0" by (simp add: w_bound_def w_sys_def current_domain_task w_kernel_def)
  have e: "dev_of 0 (s_dev w_bound) = Some \<lparr>db_domain = 0, db_bus = 0, db_dev = 4, db_func = 0, db_bar = 0xFEB01000, db_cfg = 0x7000\<rparr>"
    by (simp add: w_bound_def dev_of_def)
  have n: "pci_addr 0 5 0 \<noteq> DEVICE_SELF" "pci_addr 0 5 0 \<noteq> pci_addr 0 4 0" by (simp_all add: pci_addr_def DEVICE_SELF_def)
  have x: "dv_msix (s_dev w_bound) = []" by (simp add: w_bound_def dev_start_def)
  from device_access_confined [OF c, of w_hw "pci_addr 0 5 0" 0 w_hw] e n x show ?thesis by (auto split: sum.splits)
qed

end
