(* ===== verification/Acpi.thy ===== *)
theory Acpi
  imports Usermem
begin

text \<open>
  The boot information (\<open>kernel/src/bootinfo.rs\<close>) and the ACPI tables (\<open>kernel/src/arch/acpi.rs\<close>): the
  walk from the RSDP over XSDT or RSDT to a table, the parser of the DMAR table, power-off and reboot.
  Tables are byte lists; indexing beyond the end is the panic \<open>IndexOutOfBounds\<close>, as in Rust. Tables
  found through \<open>table_at\<close> are read from physical memory below the identity mapping; the DSDT is read
  through the page tables, because \<open>dsdt_s5\<close> does not check its address.
\<close>

section \<open>Boot information\<close>

definition BOOT_MAGIC :: u32 where
  "BOOT_MAGIC = 0x4D4F5249"

definition BOOT_VERSION :: u32 where
  "BOOT_VERSION = 5"

record service_module =
  sm_domain :: u64
  sm_addr :: u64
  sm_len :: u64

definition boot_get :: "boot_info \<Rightarrow> boot_info res" where
  "boot_get info = (if bi_magic info \<noteq> BOOT_MAGIC then Inl Halt else Inr info)"

definition rsdp_addr :: "boot_info \<Rightarrow> u64" where
  "rsdp_addr info = (if BOOT_VERSION \<le> bi_version info then bi_rsdp_addr info else 0)"

definition boot_disk :: "boot_info \<Rightarrow> (u8 \<times> u8) option" where
  "boot_disk info =
     (if BOOT_VERSION \<le> bi_version info \<and> bi_boot_disk_valid info \<noteq> 0
      then Some (ucast (bi_boot_disk_dev info), ucast (bi_boot_disk_func info)) else None)"

definition module_at :: "phys \<Rightarrow> u64 \<Rightarrow> service_module" where
  "module_at ph a =
     \<lparr>sm_domain = bytes_u64 (read_bytes ph a 8), sm_addr = bytes_u64 (read_bytes ph (a + 8) 8), sm_len = bytes_u64 (read_bytes ph (a + 16) 8)\<rparr>"

definition service_modules :: "phys \<Rightarrow> boot_info \<Rightarrow> service_module list option" where
  "service_modules ph info =
     (if bi_svc_addr info = 0 \<or> bi_svc_count info = 0 then None
      else if bi_svc_entry_size info \<noteq> 24 then None
      else Some (map (\<lambda>i. module_at ph (bi_svc_addr info + of_nat i * 24)) [0..<unat (bi_svc_count info)]))"

section \<open>Little-endian reads and checksums\<close>

definition rd_nat :: "nat \<Rightarrow> u8 list \<Rightarrow> nat \<Rightarrow> nat res" where
  "rd_nat n b off = (if off + n \<le> length b then Inr (le_nat (take n (drop off b))) else Inl IndexOutOfBounds)"

definition rd16 :: "u8 list \<Rightarrow> nat \<Rightarrow> u16 res" where
  "rd16 b off = bind_res (rd_nat 2 b off) (\<lambda>n. Inr (of_nat n))"

definition rd32 :: "u8 list \<Rightarrow> nat \<Rightarrow> u32 res" where
  "rd32 b off = bind_res (rd_nat 4 b off) (\<lambda>n. Inr (of_nat n))"

definition rd64 :: "u8 list \<Rightarrow> nat \<Rightarrow> u64 res" where
  "rd64 b off = bind_res (rd_nat 8 b off) (\<lambda>n. Inr (of_nat n))"

definition checksum_ok :: "u8 list \<Rightarrow> bool" where
  "checksum_ok bytes \<longleftrightarrow> fold (\<lambda>b acc. acc + b) bytes 0 = 0"

definition starts_with :: "u8 list \<Rightarrow> u8 list \<Rightarrow> bool" where
  "starts_with sig b \<longleftrightarrow> take (length sig) b = sig"

definition ACPI_HEADER_LEN :: nat where
  "ACPI_HEADER_LEN = 36"

definition DMAR_STRUCTS_OFF :: nat where
  "DMAR_STRUCTS_OFF = 48"

section \<open>DMAR\<close>

record Drhd =
  dr_segment :: u16
  dr_include_all :: bool
  dr_reg_base :: u64
  dr_scope_count :: u16

record DmarSummary =
  ds_found :: bool
  ds_table_len :: u32
  ds_checksum_ok :: bool
  ds_haw :: u8
  ds_drhd_count :: u32
  ds_rmrr_count :: u32
  ds_first_drhd :: Drhd

definition drhd_default :: Drhd where
  "drhd_default = \<lparr>dr_segment = 0, dr_include_all = False, dr_reg_base = 0, dr_scope_count = 0\<rparr>"

definition dmar_default :: DmarSummary where
  "dmar_default = \<lparr>ds_found = False, ds_table_len = 0, ds_checksum_ok = False, ds_haw = 0, ds_drhd_count = 0, ds_rmrr_count = 0,
     ds_first_drhd = drhd_default\<rparr>"

definition dmar_struct :: "u8 list \<Rightarrow> nat \<Rightarrow> u16 \<Rightarrow> nat \<Rightarrow> DmarSummary \<Rightarrow> DmarSummary res" where
  "dmar_struct t off ty slen s =
     (if ty = 0 then
        (if 16 \<le> slen then
           bind_res (rd16 t (off + 6)) (\<lambda>segment.
           bind_res (index_res t (off + 4)) (\<lambda>fl.
           bind_res (rd64 t (off + 8)) (\<lambda>base.
             let drhd = \<lparr>dr_segment = segment, dr_include_all = fl AND 1 \<noteq> 0, dr_reg_base = base, dr_scope_count = of_nat ((slen - 16) div 8)\<rparr>
             in Inr (s\<lparr>ds_first_drhd := (if ds_drhd_count s = 0 then drhd else ds_first_drhd s), ds_drhd_count := ds_drhd_count s + 1\<rparr>))))
         else Inr s)
      else if ty = 1 then Inr (s\<lparr>ds_rmrr_count := ds_rmrr_count s + 1\<rparr>)
      else Inr s)"

function dmar_scan :: "u8 list \<Rightarrow> nat \<Rightarrow> DmarSummary \<Rightarrow> DmarSummary res" where
  "dmar_scan t off s =
     (if off + 4 \<le> length t then
        bind_res (rd16 t off) (\<lambda>ty.
        bind_res (rd16 t (off + 2)) (\<lambda>sl.
          let slen = unat sl in
          if slen < 4 \<or> length t < off + slen then Inr s
          else bind_res (dmar_struct t off ty slen s) (\<lambda>s'. dmar_scan t (off + slen) s')))
      else Inr s)"
  by pat_completeness auto
termination
  by (relation "measure (\<lambda>(t, off, s). length t - off)") auto

declare dmar_scan.simps [simp del]

definition SIG_DMAR :: "u8 list" where
  "SIG_DMAR = [0x44, 0x4D, 0x41, 0x52]"

definition parse_dmar :: "u8 list \<Rightarrow> DmarSummary res" where
  "parse_dmar bytes =
     (if length bytes < DMAR_STRUCTS_OFF \<or> \<not> starts_with SIG_DMAR bytes then Inr dmar_default
      else bind_res (rd32 bytes 4) (\<lambda>l.
        let len = unat l in
        if len < DMAR_STRUCTS_OFF \<or> length bytes < len then Inr dmar_default
        else (let t = take len bytes in
              bind_res (index_res t 36) (\<lambda>haw.
                dmar_scan t DMAR_STRUCTS_OFF
                  (dmar_default\<lparr>ds_found := True, ds_table_len := of_nat len, ds_checksum_ok := checksum_ok t, ds_haw := haw\<rparr>)))))"

section \<open>Finding a table\<close>

definition table_at :: "phys \<Rightarrow> u64 \<Rightarrow> u8 list \<Rightarrow> u8 list option res" where
  "table_at ph paddr sig =
     (if paddr = 0 \<or> \<not> is_identity_mapped paddr (of_nat ACPI_HEADER_LEN) then Inr None
      else (let hdr = read_bytes ph paddr ACPI_HEADER_LEN in
        if \<not> starts_with sig hdr then Inr None
        else bind_res (rd32 hdr 4) (\<lambda>l.
          let len = ucast l in
          if len < of_nat ACPI_HEADER_LEN \<or> \<not> is_identity_mapped paddr len then Inr None
          else Inr (Some (read_bytes ph paddr (unat (len :: u64)))))))"

definition SIG_RSDP :: "u8 list" where
  "SIG_RSDP = [0x52, 0x53, 0x44, 0x20, 0x50, 0x54, 0x52, 0x20]"

definition SIG_XSDT :: "u8 list" where
  "SIG_XSDT = [0x58, 0x53, 0x44, 0x54]"

definition SIG_RSDT :: "u8 list" where
  "SIG_RSDT = [0x52, 0x53, 0x44, 0x54]"

definition SIG_FACP :: "u8 list" where
  "SIG_FACP = [0x46, 0x41, 0x43, 0x50]"

definition SIG_DSDT :: "u8 list" where
  "SIG_DSDT = [0x44, 0x53, 0x44, 0x54]"

definition SIG_S5 :: "u8 list" where
  "SIG_S5 = [0x5F, 0x53, 0x35, 0x5F]"

definition xsdt_or_rsdt :: "phys \<Rightarrow> u64 \<Rightarrow> (u64 \<times> bool) option res" where
  "xsdt_or_rsdt ph rsdp =
     (if rsdp = 0 \<or> \<not> is_identity_mapped rsdp 20 then Inr None
      else (let h = read_bytes ph rsdp 20 in
        if \<not> starts_with SIG_RSDP h \<or> \<not> checksum_ok h then Inr None
        else bind_res (index_res h 15) (\<lambda>revision.
             bind_res (if 2 \<le> revision \<and> is_identity_mapped rsdp (of_nat ACPI_HEADER_LEN)
                       then rd64 (read_bytes ph rsdp ACPI_HEADER_LEN) 24 else Inr 0) (\<lambda>xsdt.
               if xsdt \<noteq> 0 then Inr (Some (xsdt, True))
               else bind_res (rd32 h 16) (\<lambda>rsdt.
                 Inr (if rsdt = 0 then None else Some (ucast rsdt, False)))))))"

fun scan_entries :: "phys \<Rightarrow> u8 list \<Rightarrow> u8 list \<Rightarrow> bool \<Rightarrow> nat list \<Rightarrow> u8 list option res" where
  "scan_entries ph sig table is_xsdt [] = Inr None"
| "scan_entries ph sig table is_xsdt (i # is) =
     (let off = ACPI_HEADER_LEN + i * (if is_xsdt then 8 else 4) in
      bind_res (if is_xsdt then rd64 table off else bind_res (rd32 table off) (\<lambda>p. Inr (ucast p))) (\<lambda>paddr.
        if paddr = 0 then scan_entries ph sig table is_xsdt is
        else bind_res (table_at ph paddr sig) (\<lambda>t.
          case t of Some b \<Rightarrow> Inr (Some b) | None \<Rightarrow> scan_entries ph sig table is_xsdt is)))"

definition find_table :: "phys \<Rightarrow> u64 \<Rightarrow> u8 list \<Rightarrow> u8 list option res" where
  "find_table ph rsdp sig =
     bind_res (xsdt_or_rsdt ph rsdp) (\<lambda>r.
       case r of
         None \<Rightarrow> Inr None
       | Some (root, is_xsdt) \<Rightarrow>
           bind_res (table_at ph root (if is_xsdt then SIG_XSDT else SIG_RSDT)) (\<lambda>t.
             case t of
               None \<Rightarrow> Inr None
             | Some table \<Rightarrow>
                 scan_entries ph sig table is_xsdt [0..<(length table - ACPI_HEADER_LEN) div (if is_xsdt then 8 else 4)]))"

definition find_dmar :: "phys \<Rightarrow> u64 \<Rightarrow> u8 list option res" where
  "find_dmar ph rsdp = find_table ph rsdp SIG_DMAR"

definition probe_dmar :: "phys \<Rightarrow> boot_info \<Rightarrow> DmarSummary res" where
  "probe_dmar ph info =
     bind_res (boot_get info) (\<lambda>i.
     bind_res (find_dmar ph (rsdp_addr i)) (\<lambda>t. case t of Some bytes \<Rightarrow> parse_dmar bytes | None \<Rightarrow> Inr dmar_default))"

section \<open>Power-off and reboot\<close>

definition fadt_pm1 :: "phys \<Rightarrow> u64 \<Rightarrow> (u16 \<times> u16) res" where
  "fadt_pm1 ph rsdp =
     bind_res (find_table ph rsdp SIG_FACP) (\<lambda>r.
       case r of
         None \<Rightarrow> Inr (0, 0)
       | Some t \<Rightarrow>
           if length t < 0x48 then Inr (0, 0)
           else bind_res (rd32 t 0x40) (\<lambda>a. bind_res (rd32 t 0x44) (\<lambda>b. Inr (ucast a, ucast b))))"

definition dsdt_addr :: "u8 list \<Rightarrow> u64 res" where
  "dsdt_addr fadt =
     (if 0x90 \<le> length fadt
      then bind_res (rd64 fadt 0x8C) (\<lambda>x. if x \<noteq> 0 then Inr x else bind_res (rd32 fadt 0x28) (\<lambda>y. Inr (ucast y)))
      else bind_res (rd32 fadt 0x28) (\<lambda>y. Inr (ucast y)))"

text \<open>One match of the name: \<open>None\<close> means the search goes on, \<open>Some r\<close> that \<open>r\<close> is the result.\<close>

definition s5_int :: "u8 list \<Rightarrow> nat \<Rightarrow> u8 option" where
  "s5_int bytes j =
     (let n = length bytes; b = bytes ! j in
      map_option (\<lambda>v. v AND 0x7)
        (if b = 0x0A \<and> j + 1 < n \<or> b = 0x0B \<and> j + 2 < n \<or> b = 0x0C \<and> j + 4 < n then Some (bytes ! (j + 1))
         else if b = 0 then Some 0 else if b = 1 then Some 1 else None))"

definition s5_at :: "u8 list \<Rightarrow> nat \<Rightarrow> u8 option option" where
  "s5_at bytes i =
     (let n = length bytes; j = i + 4 in
      if j < n \<and> bytes ! j = 0x12 then
        (if j + 1 < n then
           (let lead = bytes ! (j + 1);
                j2 = j + 1 + 1 + unat (drop_bit 6 lead);
                j3 = (if j2 < n then j2 + 1 else j2)
            in if j3 < n then Some (s5_int bytes j3) else None)
         else None)
      else None)"

function s5_scan :: "u8 list \<Rightarrow> nat \<Rightarrow> u8 option" where
  "s5_scan bytes i =
     (if i + 4 \<le> length bytes then
        (if take 4 (drop i bytes) = SIG_S5
         then (case s5_at bytes i of Some r \<Rightarrow> r | None \<Rightarrow> s5_scan bytes (i + 1))
         else s5_scan bytes (i + 1))
      else None)"
  by pat_completeness auto
termination
  by (relation "measure (\<lambda>(bytes, i). length bytes - i)") auto

declare s5_scan.simps [simp del]

definition dsdt_s5 :: "hw \<Rightarrow> kernel_state \<Rightarrow> u64 \<Rightarrow> u8 option res" where
  "dsdt_s5 h k rsdp =
     bind_res (find_table (k_phys k) rsdp SIG_FACP) (\<lambda>r.
       case r of
         None \<Rightarrow> Inr None
       | Some fadt \<Rightarrow>
           bind_res (dsdt_addr fadt) (\<lambda>a.
             if a = 0 then Inr None
             else bind_res (kread h k a 4) (\<lambda>sig.
               if sig \<noteq> SIG_DSDT then Inr None
               else bind_res (kread h k a 8) (\<lambda>hd8.
                    bind_res (rd32 hd8 4) (\<lambda>l.
                      let len = min (unat l) 0x40000 in
                      if len < 8 then Inr None
                      else bind_res (kread h k a len) (\<lambda>bytes. Inr (s5_scan bytes 0)))))))"

definition pm1_write :: "hw \<Rightarrow> u16 \<Rightarrow> u16 \<Rightarrow> io_event" where
  "pm1_write h port slp = Out16 port ((hw_in16 h port AND NOT (push_bit 10 7)) OR slp)"

definition poweroff :: "hw \<Rightarrow> boot_info \<Rightarrow> kernel_state \<Rightarrow> io_event list res" where
  "poweroff h info k =
     bind_res (boot_get info) (\<lambda>i.
     bind_res (fadt_pm1 (k_phys k) (rsdp_addr i)) (\<lambda>(pm1a, pm1b).
     bind_res (dsdt_s5 h k (rsdp_addr i)) (\<lambda>s.
       let s5 = (case s of Some v \<Rightarrow> v | None \<Rightarrow> 5);
           slp_s5 = push_bit 10 (ucast s5) OR push_bit 13 1
       in Inr ((if pm1a \<noteq> 0
                then pm1_write h pm1a slp_s5 # (if pm1b \<noteq> 0 then [pm1_write h pm1b slp_s5] else [])
                else [pm1_write h 0x604 slp_s5]) @ [PowerOff]))))"

definition reboot :: "io_event list" where
  "reboot = [Out8 0x64 0xFE, Out8 0xCF9 0x02, Out8 0xCF9 0x06, Reboot]"

section \<open>No table panics the kernel\<close>

lemma rd_in: "off + 2 \<le> length b \<Longrightarrow> \<exists>v. rd16 b off = Inr v" "off + 4 \<le> length b \<Longrightarrow> \<exists>v. rd32 b off = Inr v"
  "off + 8 \<le> length b \<Longrightarrow> \<exists>v. rd64 b off = Inr v"
  by (simp_all add: rd16_def rd32_def rd64_def rd_nat_def)

lemma dmar_struct_total:
  assumes "off + slen \<le> length t"
  shows "\<exists>s'. dmar_struct t off ty slen s = Inr s'"
proof (cases "ty = 0 \<and> 16 \<le> slen")
  case True
  then have l: "off + 6 + 2 \<le> length t" "off + 4 < length t" "off + 8 + 8 \<le> length t" using assms by simp_all
  from rd_in(1) [OF l(1)] rd_in(3) [OF l(3)] index_res_in [OF l(2)] show ?thesis using True
    by (auto simp: dmar_struct_def Let_def)
qed (auto simp: dmar_struct_def)

lemma dmar_scan_total: "\<exists>s'. dmar_scan t off s = Inr s'"
proof (induction t off s rule: dmar_scan.induct)
  case (1 t off s)
  show ?case
  proof (cases "off + 4 \<le> length t")
    case True
    then obtain ty sl where r: "rd16 t off = Inr ty" "rd16 t (off + 2) = Inr sl"
      using rd_in(1) [of off t] rd_in(1) [of "off + 2" t] by auto
    show ?thesis
    proof (cases "unat sl < 4 \<or> length t < off + unat sl")
      case True
      then show ?thesis using r \<open>off + 4 \<le> length t\<close> by (subst dmar_scan.simps) (simp add: Let_def)
    next
      case False
      then obtain s1 where s1: "dmar_struct t off ty (unat sl) s = Inr s1"
        using dmar_struct_total [of off "unat sl" t ty s] by auto
      from 1 [OF \<open>off + 4 \<le> length t\<close> refl False, of s1] obtain s' where "dmar_scan t (off + unat sl) s1 = Inr s'" by blast
      then show ?thesis using r s1 False \<open>off + 4 \<le> length t\<close> by (subst dmar_scan.simps) (simp add: Let_def)
    qed
  next
    case False
    then show ?thesis by (subst dmar_scan.simps) simp
  qed
qed

lemma parse_dmar_total: "\<exists>s. parse_dmar bytes = Inr s"
proof (cases "length bytes < DMAR_STRUCTS_OFF \<or> \<not> starts_with SIG_DMAR bytes")
  case False
  then have "4 + 4 \<le> length bytes" by (simp add: DMAR_STRUCTS_OFF_def)
  from rd_in(2) [OF this] obtain l where l: "rd32 bytes 4 = Inr l" by blast
  show ?thesis
  proof (cases "unat l < DMAR_STRUCTS_OFF \<or> length bytes < unat l")
    case True
    then show ?thesis using False l by (simp add: parse_dmar_def)
  next
    case t: False
    then have "36 < length (take (unat l) bytes)" by (simp add: DMAR_STRUCTS_OFF_def)
    from index_res_in [OF this] show ?thesis using False l t dmar_scan_total by (simp add: parse_dmar_def Let_def)
  qed
qed (simp add: parse_dmar_def)

lemma table_at_total:
  "\<exists>t. table_at ph paddr sig = Inr t \<and>
     (\<forall>b. t = Some b \<longrightarrow> b = read_bytes ph paddr (length b) \<and> ACPI_HEADER_LEN \<le> length b \<and> is_identity_mapped paddr (of_nat (length b)))"
proof -
  let ?hdr = "read_bytes ph paddr ACPI_HEADER_LEN"
  from rd_in(2) [of 4 ?hdr] obtain l where l: "rd32 ?hdr 4 = Inr l" by (auto simp: ACPI_HEADER_LEN_def)
  have "36 \<le> unat (ucast l :: u64)" if "\<not> (ucast l :: u64) < 36" using that by (simp add: word_less_nat_alt)
  then show ?thesis using l by (auto simp: table_at_def Let_def ACPI_HEADER_LEN_def)
qed

lemma xsdt_or_rsdt_total: "\<exists>r. xsdt_or_rsdt ph rsdp = Inr r"
proof -
  let ?h = "read_bytes ph rsdp 20" and ?h36 = "read_bytes ph rsdp ACPI_HEADER_LEN"
  obtain rev where a: "index_res ?h 15 = Inr rev" using index_res_in [of 15 ?h] by simp
  obtain r where b: "rd32 ?h 16 = Inr r" using rd_in(2) [of 16 ?h] by auto
  obtain x where c: "rd64 ?h36 24 = Inr x" using rd_in(3) [of 24 ?h36] by (auto simp: ACPI_HEADER_LEN_def)
  show ?thesis using a b c by (simp add: xsdt_or_rsdt_def Let_def)
qed

definition firmware_table :: "phys \<Rightarrow> u8 list \<Rightarrow> u8 list \<Rightarrow> bool" where
  "firmware_table ph sig b \<longleftrightarrow> (\<exists>p. p \<noteq> 0 \<and> is_identity_mapped p (of_nat (length b)) \<and> b = read_bytes ph p (length b) \<and>
     ACPI_HEADER_LEN \<le> length b \<and> starts_with sig b)"

lemma starts_with_header:
  assumes "starts_with sig (read_bytes ph p n)" and "n \<le> m" and "length sig \<le> n"
  shows "starts_with sig (read_bytes ph p m)"
proof -
  have "take n (read_bytes ph p m) = read_bytes ph p n" using assms(2) by (simp add: read_bytes_def take_map)
  then show ?thesis using assms(1,3) by (metis starts_with_def take_take min.absorb2 min.commute)
qed

lemma table_at_firmware:
  assumes "table_at ph paddr sig = Inr (Some b)" and "length sig \<le> ACPI_HEADER_LEN"
  shows "firmware_table ph sig b"
proof -
  have b: "b = read_bytes ph paddr (length b)" "ACPI_HEADER_LEN \<le> length b" "is_identity_mapped paddr (of_nat (length b))"
    using table_at_total [of ph paddr sig] assms(1) by auto
  have s: "starts_with sig (read_bytes ph paddr ACPI_HEADER_LEN)" and n: "paddr \<noteq> 0"
    using assms(1) by (auto simp: table_at_def Let_def split: if_splits)
  have "starts_with sig b" using starts_with_header [OF s b(2) assms(2)] b(1) by simp
  then show ?thesis using b n by (auto simp: firmware_table_def)
qed

lemma scan_entries_total:
  assumes "\<forall>i \<in> set is. i < (length table - ACPI_HEADER_LEN) div (if x then 8 else 4)" and "length sig \<le> ACPI_HEADER_LEN"
  shows "\<exists>r. scan_entries ph sig table x is = Inr r \<and> (\<forall>b. r = Some b \<longrightarrow> firmware_table ph sig b)"
  using assms(1)
proof (induction "is")
  case (Cons i "is")
  let ?ent = "if x then 8 else 4 :: nat" and ?off = "ACPI_HEADER_LEN + i * (if x then 8 else 4)"
  have "Suc i \<le> (length table - ACPI_HEADER_LEN) div ?ent" using Cons.prems by simp
  then have "Suc i * ?ent \<le> length table - ACPI_HEADER_LEN" by (simp add: less_eq_div_iff_mult_less_eq split: if_splits)
  moreover have "0 < Suc i * ?ent" by simp
  ultimately have off: "?off + ?ent \<le> length table" by (simp split: if_splits)
  obtain p where p: "(if x then rd64 table ?off else bind_res (rd32 table ?off) (\<lambda>p. Inr (ucast p))) = Inr p"
    using off rd_in(2) [of ?off table] rd_in(3) [of ?off table] by (cases x) auto
  obtain t where t: "table_at ph p sig = Inr t" using table_at_total [of ph p sig] by blast
  have "firmware_table ph sig b" if "t = Some b" for b using table_at_firmware [OF _ assms(2)] t that by simp
  moreover have IH: "\<exists>r. scan_entries ph sig table x is = Inr r \<and> (\<forall>b. r = Some b \<longrightarrow> firmware_table ph sig b)"
    by (rule Cons.IH) (use Cons.prems in simp)
  ultimately show ?case using p t by (cases t) (auto simp: Let_def)
qed simp

lemma find_table_total:
  assumes "length sig \<le> ACPI_HEADER_LEN"
  shows "\<exists>r. find_table ph rsdp sig = Inr r \<and> (\<forall>b. r = Some b \<longrightarrow> firmware_table ph sig b)"
proof -
  obtain r where r: "xsdt_or_rsdt ph rsdp = Inr r" using xsdt_or_rsdt_total by blast
  show ?thesis
  proof (cases r)
    case (Some a)
    then obtain root x where a: "r = Some (root, x)" by (cases a) auto
    obtain t where t: "table_at ph root (if x then SIG_XSDT else SIG_RSDT) = Inr t" using table_at_total by blast
    show ?thesis
    proof (cases t)
      case (Some table)
      have "\<exists>q. scan_entries ph sig table x [0..<(length table - ACPI_HEADER_LEN) div (if x then 8 else 4)] = Inr q \<and>
          (\<forall>b. q = Some b \<longrightarrow> firmware_table ph sig b)"
        by (rule scan_entries_total [OF _ assms]) simp
      then show ?thesis using r a t Some by (simp add: find_table_def)
    qed (use r a t in \<open>simp add: find_table_def\<close>)
  qed (use r in \<open>simp add: find_table_def\<close>)
qed

lemma fadt_pm1_total: "\<exists>p. fadt_pm1 ph rsdp = Inr p"
proof -
  obtain r where r: "find_table ph rsdp SIG_FACP = Inr r" using find_table_total [of SIG_FACP ph rsdp] by (auto simp: SIG_FACP_def ACPI_HEADER_LEN_def)
  show ?thesis
  proof (cases r)
    case (Some t)
    show ?thesis
    proof (cases "length t < 0x48")
      case False
      then obtain a b where "rd32 t 0x40 = Inr a" "rd32 t 0x44 = Inr b" using rd_in(2) [of "0x40" t] rd_in(2) [of "0x44" t] by auto
      then show ?thesis using r Some False by (simp add: fadt_pm1_def)
    qed (use r Some in \<open>simp add: fadt_pm1_def\<close>)
  qed (use r in \<open>simp add: fadt_pm1_def\<close>)
qed



section \<open>The DMAR parser reads what firmware writes\<close>

datatype remap =
    Drhd_entry u8 u16 u64 "u8 list"
  | Rmrr_entry "u8 list"
  | Other_entry u16 "u8 list"

fun remap_type :: "remap \<Rightarrow> u16" where
  "remap_type (Drhd_entry _ _ _ _) = 0"
| "remap_type (Rmrr_entry _) = 1"
| "remap_type (Other_entry ty _) = ty"

fun remap_body :: "remap \<Rightarrow> u8 list" where
  "remap_body (Drhd_entry fl segm base scopes) = [fl, 0] @ le_bytes 2 (unat segm) @ le_bytes 8 (unat base) @ scopes"
| "remap_body (Rmrr_entry body) = body"
| "remap_body (Other_entry _ body) = body"

definition remap_bytes :: "remap \<Rightarrow> u8 list" where
  "remap_bytes r = le_bytes 2 (unat (remap_type r)) @ le_bytes 2 (4 + length (remap_body r)) @ remap_body r"

definition remap_ok :: "remap \<Rightarrow> bool" where
  "remap_ok r \<longleftrightarrow> 4 + length (remap_body r) < 2 ^ 16 \<and> (case r of Other_entry ty _ \<Rightarrow> 1 < ty | _ \<Rightarrow> True)"

definition dmar_bytes :: "u8 list \<Rightarrow> u8 \<Rightarrow> u8 list \<Rightarrow> remap list \<Rightarrow> u8 list" where
  "dmar_bytes hdr haw res rs =
     SIG_DMAR @ le_bytes 4 (48 + length (concat (map remap_bytes rs))) @ hdr @ [haw] @ res @ concat (map remap_bytes rs)"

fun remap_drhd :: "remap \<Rightarrow> Drhd list" where
  "remap_drhd (Drhd_entry fl segm base scopes) =
     [\<lparr>dr_segment = segm, dr_include_all = fl AND 1 \<noteq> 0, dr_reg_base = base, dr_scope_count = of_nat (length scopes div 8)\<rparr>]"
| "remap_drhd _ = []"

definition is_rmrr :: "remap \<Rightarrow> bool" where
  "is_rmrr r \<longleftrightarrow> remap_type r = 1"

definition remap_step :: "remap \<Rightarrow> DmarSummary \<Rightarrow> DmarSummary" where
  "remap_step r s =
     (case remap_drhd r of
        d # _ \<Rightarrow> s\<lparr>ds_first_drhd := (if ds_drhd_count s = 0 then d else ds_first_drhd s), ds_drhd_count := ds_drhd_count s + 1\<rparr>
      | [] \<Rightarrow> if is_rmrr r then s\<lparr>ds_rmrr_count := ds_rmrr_count s + 1\<rparr> else s)"

lemma unat_mod_self: "unat w mod 65536 = unat w" "unat v mod 18446744073709551616 = unat v" for w :: u16 and v :: u64
proof -
  have "unat w < 65536" using unsigned_less [of w] by simp
  then show "unat w mod 65536 = unat w" by simp
  have "unat v < 18446744073709551616" using unsigned_less [of v] by simp
  then show "unat v mod 18446744073709551616 = unat v" by simp
qed

lemma rd_at:
  assumes "t = a @ le_bytes k n @ b" and "length a = off"
  shows "rd_nat k t off = Inr (n mod 256 ^ k)"
  using assms by (auto simp: rd_nat_def le_nat_bytes)

lemma length_remap_bytes: "length (remap_bytes r) = 4 + length (remap_body r)"
  by (simp add: remap_bytes_def)

lemma dmar_struct_step:
  assumes "t = pre @ remap_bytes r @ post" and "remap_ok r"
  shows "dmar_struct t (length pre) (remap_type r) (length (remap_bytes r)) s = Inr (remap_step r s)"
proof (cases r)
  case (Drhd_entry fl segm base scopes)
  let ?l = "4 + length (remap_body r)"
  have "t = (pre @ le_bytes 2 0 @ le_bytes 2 ?l @ [fl, 0]) @ le_bytes 2 (unat segm) @ (le_bytes 8 (unat base) @ scopes @ post)"
    using assms(1) Drhd_entry by (simp add: remap_bytes_def)
  from rd_at [OF this] have a: "rd16 t (length pre + 6) = Inr segm"
    by (simp add: rd16_def unat_mod_self)
  have "t = (pre @ le_bytes 2 0 @ le_bytes 2 ?l @ [fl, 0] @ le_bytes 2 (unat segm)) @ le_bytes 8 (unat base) @ (scopes @ post)"
    using assms(1) Drhd_entry by (simp add: remap_bytes_def)
  from rd_at [OF this] have b: "rd64 t (length pre + 8) = Inr base"
    by (simp add: rd64_def unat_mod_self)
  have "t = (pre @ le_bytes 2 0 @ le_bytes 2 ?l) @ fl # (0 # le_bytes 2 (unat segm) @ le_bytes 8 (unat base) @ scopes @ post)"
    using assms(1) Drhd_entry by (simp add: remap_bytes_def)
  then have "t ! (length pre + 4) = fl" "length pre + 4 < length t" by (simp_all add: nth_append)
  then have c: "index_res t (length pre + 4) = Inr fl" using index_res_in [of "length pre + 4" t] by simp
  show ?thesis using a b c Drhd_entry by (simp add: dmar_struct_def remap_step_def length_remap_bytes Let_def)
next
  case (Rmrr_entry body)
  then show ?thesis by (simp add: dmar_struct_def remap_step_def is_rmrr_def)
next
  case (Other_entry ty body)
  then have "ty \<noteq> 0" "ty \<noteq> 1" using assms(2) by (auto simp: remap_ok_def)
  then show ?thesis using Other_entry by (simp add: dmar_struct_def remap_step_def is_rmrr_def)
qed

lemma dmar_scan_step:
  assumes "t = pre @ remap_bytes r @ post" and "remap_ok r"
  shows "dmar_scan t (length pre) s = dmar_scan t (length pre + length (remap_bytes r)) (remap_step r s)"
proof -
  have "t = pre @ le_bytes 2 (unat (remap_type r)) @ (le_bytes 2 (4 + length (remap_body r)) @ remap_body r @ post)"
    using assms(1) by (simp add: remap_bytes_def)
  from rd_at [OF this refl] have ty: "rd16 t (length pre) = Inr (remap_type r)"
    by (simp add: rd16_def unat_mod_self)
  have "t = (pre @ le_bytes 2 (unat (remap_type r))) @ le_bytes 2 (4 + length (remap_body r)) @ (remap_body r @ post)"
    using assms(1) by (simp add: remap_bytes_def)
  from rd_at [OF this] have sl: "rd16 t (length pre + 2) = Inr (of_nat (4 + length (remap_body r)))"
    using assms(2) by (simp add: rd16_def remap_ok_def)
  have u: "unat (of_nat (4 + length (remap_body r)) :: u16) = length (remap_bytes r)"
    using assms(2) by (simp add: unat_of_nat length_remap_bytes remap_ok_def del: of_nat_add)
  have len: "length pre + length (remap_bytes r) \<le> length t" "4 \<le> length (remap_bytes r)" using assms(1) by (simp_all add: length_remap_bytes)
  then show ?thesis
    by (subst dmar_scan.simps) (simp add: ty sl u dmar_struct_step [OF assms] Let_def del: of_nat_add add_2_eq_Suc')
qed

lemma dmar_scan_all:
  assumes "t = pre @ concat (map remap_bytes rs)" and "\<forall>r \<in> set rs. remap_ok r"
  shows "dmar_scan t (length pre) s = Inr (fold remap_step rs s)"
  using assms
proof (induction rs arbitrary: pre s)
  case Nil
  then show ?case by (subst dmar_scan.simps) simp
next
  case (Cons r rs)
  have t: "t = pre @ remap_bytes r @ concat (map remap_bytes rs)" using Cons.prems(1) by simp
  have "dmar_scan t (length (pre @ remap_bytes r)) (remap_step r s) = Inr (fold remap_step rs (remap_step r s))"
    by (rule Cons.IH) (use Cons.prems in simp_all)
  then show ?case using dmar_scan_step [OF t, of s] Cons.prems(2) by simp
qed

lemma fold_remap_step:
  assumes "length rs + unat (ds_drhd_count s) < 2 ^ 32"
  shows "fold remap_step rs s = s\<lparr>ds_drhd_count := ds_drhd_count s + of_nat (length (concat (map remap_drhd rs))),
     ds_rmrr_count := ds_rmrr_count s + of_nat (length (filter is_rmrr rs)),
     ds_first_drhd := (if ds_drhd_count s = 0 \<and> concat (map remap_drhd rs) \<noteq> [] then hd (concat (map remap_drhd rs)) else ds_first_drhd s)\<rparr>"
  using assms
proof (induction rs arbitrary: s)
  case Nil
  then show ?case by simp
next
  case (Cons r rs)
  show ?case
  proof (cases r)
    case (Drhd_entry fl segm base scopes)
    let ?d = "\<lparr>dr_segment = segm, dr_include_all = fl AND 1 \<noteq> 0, dr_reg_base = base, dr_scope_count = of_nat (length scopes div 8)\<rparr>"
    let ?s = "s\<lparr>ds_first_drhd := (if ds_drhd_count s = 0 then ?d else ds_first_drhd s), ds_drhd_count := ds_drhd_count s + 1\<rparr>"
    have st: "remap_step r s = ?s" by (simp add: remap_step_def Drhd_entry)
    have n: "unat (ds_drhd_count s + 1) = unat (ds_drhd_count s) + 1" using Cons.prems by (simp add: unat_word_ariths)
    then have nz: "ds_drhd_count s + 1 \<noteq> 0" by (metis add_is_0 one_neq_zero unat_0)
    have "length rs + unat (ds_drhd_count ?s) < 2 ^ 32" using Cons.prems n by simp
    note IH = Cons.IH [OF this]
    have c: "concat (map remap_drhd (r # rs)) = ?d # concat (map remap_drhd rs)" "filter is_rmrr (r # rs) = filter is_rmrr rs"
      by (simp_all add: Drhd_entry is_rmrr_def)
    show ?thesis unfolding fold.simps comp_def st IH c using nz by simp
  next
    case (Rmrr_entry body)
    let ?s = "s\<lparr>ds_rmrr_count := ds_rmrr_count s + 1\<rparr>"
    have st: "remap_step r s = ?s" by (simp add: remap_step_def Rmrr_entry is_rmrr_def)
    have "length rs + unat (ds_drhd_count ?s) < 2 ^ 32" using Cons.prems by simp
    note IH = Cons.IH [OF this]
    have c: "concat (map remap_drhd (r # rs)) = concat (map remap_drhd rs)" "filter is_rmrr (r # rs) = r # filter is_rmrr rs"
      by (simp_all add: Rmrr_entry is_rmrr_def)
    show ?thesis unfolding fold.simps comp_def st IH c by (auto simp: add.assoc)
  next
    case (Other_entry ty body)
    show ?thesis
    proof (cases "ty = 1")
      case True
      then have "remap_step r s = s\<lparr>ds_rmrr_count := ds_rmrr_count s + 1\<rparr>" by (simp add: remap_step_def Other_entry is_rmrr_def)
      moreover have "concat (map remap_drhd (r # rs)) = concat (map remap_drhd rs)" "filter is_rmrr (r # rs) = r # filter is_rmrr rs"
        using True by (simp_all add: Other_entry is_rmrr_def)
      moreover have "length rs + unat (ds_drhd_count (s\<lparr>ds_rmrr_count := ds_rmrr_count s + 1\<rparr>)) < 2 ^ 32" using Cons.prems by simp
      note IH = Cons.IH [OF this]
      ultimately show ?thesis unfolding fold.simps comp_def by (simp only: IH) (auto simp: add.assoc)
    next
      case False
      then have st: "remap_step r s = s" by (simp add: remap_step_def Other_entry is_rmrr_def)
      have c: "concat (map remap_drhd (r # rs)) = concat (map remap_drhd rs)" "filter is_rmrr (r # rs) = filter is_rmrr rs"
        using False by (simp_all add: Other_entry is_rmrr_def)
      have "length rs + unat (ds_drhd_count s) < 2 ^ 32" using Cons.prems by simp
      from Cons.IH [OF this] show ?thesis unfolding fold.simps comp_def st c .
    qed
  qed
qed

text \<open>
  C39: round trip of the DMAR table. A table written by firmware with any remapping structures, its
  declared length correct, is read back exactly: the host address width, the number of remapping units,
  the number of reserved regions and the first unit with its segment, flag, register base and scope count.
\<close>

theorem dmar_roundtrip:
  assumes "length hdr = 28" and "length res = 11" and "\<forall>r \<in> set rs. remap_ok r"
    and "48 + length (concat (map remap_bytes rs)) < 2 ^ 32"
  shows "parse_dmar (dmar_bytes hdr haw res rs) = Inr \<lparr>ds_found = True, ds_table_len = of_nat (length (dmar_bytes hdr haw res rs)),
      ds_checksum_ok = checksum_ok (dmar_bytes hdr haw res rs), ds_haw = haw,
      ds_drhd_count = of_nat (length (concat (map remap_drhd rs))), ds_rmrr_count = of_nat (length (filter is_rmrr rs)),
      ds_first_drhd = (case concat (map remap_drhd rs) of d # _ \<Rightarrow> d | [] \<Rightarrow> drhd_default)\<rparr>"
proof -
  let ?b = "dmar_bytes hdr haw res rs" and ?body = "concat (map remap_bytes rs)"
  let ?pre = "SIG_DMAR @ le_bytes 4 (48 + length ?body) @ hdr @ [haw] @ res"
  have b: "?b = ?pre @ ?body" by (simp add: dmar_bytes_def)
  have pre: "length ?pre = 48" using assms(1,2) by (simp add: SIG_DMAR_def)
  have len: "length ?b = 48 + length ?body" unfolding b length_append [of ?pre] pre by (rule refl)
  have "?b = SIG_DMAR @ le_bytes 4 (48 + length ?body) @ (hdr @ [haw] @ res @ ?body)" by (simp add: dmar_bytes_def)
  from rd_at [OF this, of 4] have r: "rd32 ?b 4 = Inr (of_nat (length ?b))" using assms(4) by (simp add: rd32_def len SIG_DMAR_def del: of_nat_add)
  have u: "unat (of_nat (length ?b) :: u32) = length ?b" using assms(4) by (simp add: unat_of_nat len del: of_nat_add)
  have "?b = (SIG_DMAR @ le_bytes 4 (48 + length ?body) @ hdr) @ haw # (res @ ?body)" by (simp add: dmar_bytes_def)
  then have h: "index_res ?b 36 = Inr haw"
    using assms(1) len by (subst index_res_in) (simp_all add: nth_append SIG_DMAR_def)
  have sig: "starts_with SIG_DMAR ?b" by (simp add: starts_with_def dmar_bytes_def)
  have n: "length rs \<le> length ?body" by (induction rs) (auto simp: length_remap_bytes)
  let ?s = "dmar_default\<lparr>ds_found := True, ds_table_len := of_nat (length ?b), ds_checksum_ok := checksum_ok ?b, ds_haw := haw\<rparr>"
  have "dmar_scan ?b 48 ?s = Inr (fold remap_step rs ?s)" using dmar_scan_all [OF b assms(3)] unfolding pre .
  moreover have "length rs + unat (ds_drhd_count ?s) < 2 ^ 32" using n assms(4) by (simp add: dmar_default_def)
  note F = fold_remap_step [OF this]
  have "(if ds_drhd_count ?s = 0 \<and> concat (map remap_drhd rs) \<noteq> [] then hd (concat (map remap_drhd rs)) else ds_first_drhd ?s) =
      (case concat (map remap_drhd rs) of d # _ \<Rightarrow> d | [] \<Rightarrow> drhd_default)"
    by (cases "concat (map remap_drhd rs)") (simp_all add: dmar_default_def del: concat_eq_Nil_conv)
  note F = F [unfolded this]
  ultimately show ?thesis using r u h sig len unfolding F
    by (simp add: parse_dmar_def DMAR_STRUCTS_OFF_def Let_def dmar_default_def)
qed

definition w_remaps :: "remap list" where
  "w_remaps = [Drhd_entry 1 0 0xFED90000 (replicate 8 0), Rmrr_entry (replicate 12 0)]"

theorem dmar_roundtrip_witness:
  "\<exists>s. parse_dmar (dmar_bytes (replicate 28 0) 0x2F (replicate 11 0) w_remaps) = Inr s \<and>
     ds_haw s = 0x2F \<and> ds_drhd_count s = 1 \<and> ds_rmrr_count s = 1 \<and> dr_reg_base (ds_first_drhd s) = 0xFED90000"
proof -
  have ok: "\<forall>r \<in> set w_remaps. remap_ok r" "48 + length (concat (map remap_bytes w_remaps)) < 2 ^ 32"
    by (simp_all add: w_remaps_def remap_ok_def length_remap_bytes)
  from dmar_roundtrip [OF _ _ ok, of "replicate 28 0" "replicate 11 0" "0x2F"] show ?thesis
    by (simp add: w_remaps_def is_rmrr_def)
qed

end
