(* ===== verification/Syscall.thy ===== *)
theory Syscall
  imports Device Acpi
begin

text \<open>
  The system calls, \<open>kernel/src/syscall.rs\<close>, with \<open>kernel/src/version.rs\<close>. There is one definition per
  arm of \<open>syscall_dispatch\<close>, on the state \<open>sys\<close>. A result \<open>Inr (Some v, s)\<close> is a return to the caller
  with \<open>v\<close>; \<open>Inr (None, s)\<close> means that the calling task does not continue now: it sleeps until it is
  woken, then runs the \<open>resume\<close> part of the call, or it has ended, or the machine has stopped; \<open>Inl\<close> is
  a panic. Reads and writes of user buffers go through the page tables of the running task (\<open>kread\<close>,
  \<open>kwrite\<close>). The build configuration, which the build puts into the binary, is the record \<open>build\<close>.
  Messages the kernel logs about its own decisions are left out.
\<close>

section \<open>Numbers\<close>

definition SYS_YIELD :: u64 where
  "SYS_YIELD = 0"

definition SYS_SLEEP :: u64 where
  "SYS_SLEEP = 1"

definition SYS_SEND :: u64 where
  "SYS_SEND = 2"

definition SYS_RECV :: u64 where
  "SYS_RECV = 3"

definition SYS_PUTS :: u64 where
  "SYS_PUTS = 4"

definition SYS_EXIT :: u64 where
  "SYS_EXIT = 5"

definition SYS_ALLOC_PAGE :: u64 where
  "SYS_ALLOC_PAGE = 6"

definition SYS_SHARE_PAGE :: u64 where
  "SYS_SHARE_PAGE = 7"

definition SYS_UNMAP :: u64 where
  "SYS_UNMAP = 8"

definition SYS_MAP_ANON :: u64 where
  "SYS_MAP_ANON = 9"

definition SYS_PAGE_FAULT_REPLY :: u64 where
  "SYS_PAGE_FAULT_REPLY = 10"

definition SYS_CALL :: u64 where
  "SYS_CALL = 12"

definition SYS_REPLY :: u64 where
  "SYS_REPLY = 13"

definition SYS_REGISTER_IRQ :: u64 where
  "SYS_REGISTER_IRQ = 14"

definition SYS_MAP_MMIO :: u64 where
  "SYS_MAP_MMIO = 21"

definition SYS_PORT_IN8 :: u64 where
  "SYS_PORT_IN8 = 22"

definition SYS_PORT_IN16 :: u64 where
  "SYS_PORT_IN16 = 23"

definition SYS_PORT_OUT8 :: u64 where
  "SYS_PORT_OUT8 = 24"

definition SYS_PORT_OUT16 :: u64 where
  "SYS_PORT_OUT16 = 25"

definition SYS_VIRT_TO_PHYS :: u64 where
  "SYS_VIRT_TO_PHYS = 26"

definition SYS_CLEAR :: u64 where
  "SYS_CLEAR = 28"

definition SYS_CAP_ISSUE :: u64 where
  "SYS_CAP_ISSUE = 29"

definition SYS_CAP_LOOKUP :: u64 where
  "SYS_CAP_LOOKUP = 30"

definition SYS_CAP_DROP :: u64 where
  "SYS_CAP_DROP = 31"

definition SYS_HANDLE_SEND :: u64 where
  "SYS_HANDLE_SEND = 32"

definition SYS_CAP_SEND :: u64 where
  "SYS_CAP_SEND = 33"

definition SYS_IRQ_POLL :: u64 where
  "SYS_IRQ_POLL = 34"

definition SYS_MSIX_ENABLE :: u64 where
  "SYS_MSIX_ENABLE = 35"

definition SYS_IRQ_WAIT :: u64 where
  "SYS_IRQ_WAIT = 36"

definition SYS_SPAWN_ELF :: u64 where
  "SYS_SPAWN_ELF = 37"

definition SYS_DOMAIN_DESTROY :: u64 where
  "SYS_DOMAIN_DESTROY = 38"

definition SYS_DOMAIN_COUNT :: u64 where
  "SYS_DOMAIN_COUNT = 39"

definition SYS_FRAME_FREE :: u64 where
  "SYS_FRAME_FREE = 40"

definition SYS_SPAWN_ELF_AT :: u64 where
  "SYS_SPAWN_ELF_AT = 41"

definition SYS_DOMAIN_ALIVE :: u64 where
  "SYS_DOMAIN_ALIVE = 42"

definition SYS_SPAWN_ELF_MODULE :: u64 where
  "SYS_SPAWN_ELF_MODULE = 43"

definition SYS_FB_INFO :: u64 where
  "SYS_FB_INFO = 44"

definition SYS_FB_MAP :: u64 where
  "SYS_FB_MAP = 45"

definition SYS_FB_TAKEOVER :: u64 where
  "SYS_FB_TAKEOVER = 46"

definition SYS_CONSOLE_READY :: u64 where
  "SYS_CONSOLE_READY = 47"

definition SYS_KEY_PUSH :: u64 where
  "SYS_KEY_PUSH = 48"

definition SYS_KEY_READ :: u64 where
  "SYS_KEY_READ = 49"

definition SYS_DEVICE_CONFIG_READ :: u64 where
  "SYS_DEVICE_CONFIG_READ = 50"

definition SYS_UNAME :: u64 where
  "SYS_UNAME = 51"

definition SYS_DEVICE_INFO :: u64 where
  "SYS_DEVICE_INFO = 52"

definition SYS_DEVICE_GRANT :: u64 where
  "SYS_DEVICE_GRANT = 53"

definition SYS_CAP_AUDIT :: u64 where
  "SYS_CAP_AUDIT = 54"

definition SYS_TRY_RECV :: u64 where
  "SYS_TRY_RECV = 55"

definition SYS_NET_BIND :: u64 where
  "SYS_NET_BIND = 56"

definition SYS_NET_OWNER :: u64 where
  "SYS_NET_OWNER = 57"

definition SYS_LOG_TOTAL :: u64 where
  "SYS_LOG_TOTAL = 58"

definition SYS_LOG_READ :: u64 where
  "SYS_LOG_READ = 59"

definition SYS_PCI_INFO :: u64 where
  "SYS_PCI_INFO = 60"

definition SYS_POWEROFF :: u64 where
  "SYS_POWEROFF = 61"

definition SYS_REBOOT :: u64 where
  "SYS_REBOOT = 62"

definition SYS_KEY_TRY_READ :: u64 where
  "SYS_KEY_TRY_READ = 63"

definition SYS_CONSOLE_SCROLL :: u64 where
  "SYS_CONSOLE_SCROLL = 64"

definition SYS_LOG_OLDEST :: u64 where
  "SYS_LOG_OLDEST = 65"

section \<open>Results\<close>

type_synonym answer = "(u64 option \<times> sys) res"

definition ret :: "u64 \<Rightarrow> sys \<Rightarrow> answer" where
  "ret v s = Inr (Some v, s)"

definition suspend :: "sys \<Rightarrow> answer" where
  "suspend s = Inr (None, s)"

definition of_flag :: "bool \<Rightarrow> u64" where
  "of_flag b = (if b then 1 else 0)"

definition with_kern :: "sys \<Rightarrow> kernel_state \<Rightarrow> sys" where
  "with_kern s k = s\<lparr>s_kern := k\<rparr>"

definition me_of :: "sys \<Rightarrow> u64 res" where
  "me_of s = current_domain (k_sched (s_kern s))"

definition has_cap :: "u64 \<Rightarrow> capability \<Rightarrow> sys \<Rightarrow> bool res" where
  "has_cap d c s = cap_has d c (k_caps (s_kern s))"

text \<open>Look up the caller and go on only if it holds the capability; otherwise return \<open>fail\<close>.\<close>

definition gated :: "capability \<Rightarrow> u64 \<Rightarrow> (u64 \<Rightarrow> sys \<Rightarrow> answer) \<Rightarrow> sys \<Rightarrow> answer" where
  "gated c fail f s =
     bind_res (me_of s) (\<lambda>me. bind_res (has_cap me c s) (\<lambda>ok. if ok then f me s else ret fail s))"

section \<open>Build configuration and version\<close>

record build =
  b_nogui :: bool
  b_install :: bool
  b_safe :: bool
  b_build :: "u8 list"

definition ascii :: "string \<Rightarrow> u8 list" where
  "ascii cs = map (\<lambda>c. of_nat (of_char c)) cs"

definition SYSTEM_NAME :: "u8 list" where
  "SYSTEM_NAME = ascii ''MorionOS''"

definition VERSION :: "u8 list" where
  "VERSION = ascii ''0.4.0''"

definition MACHINE :: "u8 list" where
  "MACHINE = ascii ''x86_64''"

definition VARIANT :: "build \<Rightarrow> u8 list" where
  "VARIANT b =
     ascii (case (b_nogui b, b_install b, b_safe b) of
        (False, False, False) \<Rightarrow> ''''
      | (False, False, True) \<Rightarrow> ''-safe''
      | (True, False, False) \<Rightarrow> ''-nogui''
      | (True, False, True) \<Rightarrow> ''-nogui-safe''
      | (False, True, False) \<Rightarrow> ''-install''
      | (False, True, True) \<Rightarrow> ''-install-safe''
      | (True, True, False) \<Rightarrow> ''-nogui-install''
      | (True, True, True) \<Rightarrow> ''-nogui-install-safe'')"

definition UNAME_MAX :: nat where
  "UNAME_MAX = 96"

text \<open>\<open>push\<close>: append to a buffer of \<open>UNAME_MAX\<close> bytes, or fail.\<close>

definition uname_push :: "u8 list \<Rightarrow> u8 list option \<Rightarrow> u8 list option" where
  "uname_push bs acc = (case acc of None \<Rightarrow> None | Some buf \<Rightarrow> if UNAME_MAX < length buf + length bs then None else Some (buf @ bs))"

definition uname_text :: "build \<Rightarrow> u64 \<Rightarrow> u8 list option" where
  "uname_text b a3 =
     (if a3 = 0 then fold uname_push [SYSTEM_NAME, ascii '' '', VERSION, VARIANT b, ascii '' '', MACHINE] (Some [])
      else if a3 = 1 then fold uname_push [VERSION, VARIANT b] (Some [])
      else if a3 = 2 then uname_push (b_build b) (Some [])
      else None)"

definition uname_handle :: "hw \<Rightarrow> build \<Rightarrow> u64 \<Rightarrow> u64 \<Rightarrow> u64 \<Rightarrow> sys \<Rightarrow> answer" where
  "uname_handle h b a1 a2 a3 s =
     (case uname_text b a3 of
        None \<Rightarrow> ret 0 s
      | Some buf \<Rightarrow>
          if UNAME_MAX < length buf + 1 then ret 0 s
          else (let n = of_nat (length buf); tot = of_nat (length buf + 1) in
                if a1 = 0 \<or> a2 < tot then ret 0 s
                else if \<not> is_user_address a1 \<or> \<not> is_user_address (a1 + tot - 1) then ret 0 s
                else bind_res (kwrite h a1 (buf @ [0]) (s_kern s)) (\<lambda>k. ret n (with_kern s k))))"

section \<open>Helpers\<close>

definition MAX_ELF_LEN :: u64 where
  "MAX_ELF_LEN = 1024 * 1024"

definition read_user_payload :: "hw \<Rightarrow> u64 \<Rightarrow> sys \<Rightarrow> u8 list res" where
  "read_user_payload h ptr s =
     (if ptr = 0 \<or> \<not> is_user_address ptr then Inr (replicate PAYLOAD_LEN 0) else kread h (s_kern s) ptr PAYLOAD_LEN)"

definition message_bytes :: "message \<Rightarrow> u8 list" where
  "message_bytes m = u64_bytes (m_from m) @ u64_bytes (m_to m) @ u64_bytes (m_tag m) @ m_payload m"

fun pages_mapped :: "domains \<Rightarrow> u64 \<Rightarrow> mem \<Rightarrow> u64 list \<Rightarrow> bool res" where
  "pages_mapped doms d m [] = Inr True"
| "pages_mapped doms d m (p # ps) =
     bind_res (resolve_user_page doms d p m) (\<lambda>r. if r = None then Inr False else pages_mapped doms d m ps)"

definition user_elf_image :: "hw \<Rightarrow> u64 \<Rightarrow> u64 \<Rightarrow> sys \<Rightarrow> u8 list option res" where
  "user_elf_image h ptr len s =
     (if \<not> is_user_address ptr \<or> \<not> (64 \<le> len \<and> len \<le> MAX_ELF_LEN) then Inr None
      else case checked_add ptr len of
        None \<Rightarrow> Inr None
      | Some fin \<Rightarrow>
          if \<not> is_user_address (fin - 1) then Inr None
          else bind_res (me_of s) (\<lambda>frm.
               bind_res (pages_mapped (k_doms (s_kern s)) frm (k_mem (s_kern s)) (page_range (ptr AND NOT 0xFFF) fin)) (\<lambda>ok.
                 if \<not> ok then Inr None
                 else bind_res (kread h (s_kern s) ptr (unat len)) (\<lambda>bs. Inr (Some bs)))))"

definition boot_module_image :: "boot_info \<Rightarrow> u64 \<Rightarrow> sys \<Rightarrow> u8 list option res" where
  "boot_module_image info d s =
     bind_res (boot_get info) (\<lambda>i.
       Inr (case service_modules (k_phys (s_kern s)) i of
              None \<Rightarrow> None
            | Some ms \<Rightarrow>
                (case find (\<lambda>m. sm_domain m = d) ms of
                   None \<Rightarrow> None
                 | Some m \<Rightarrow>
                     if sm_len m = 0 \<or> \<not> is_identity_mapped (sm_addr m) (sm_len m) then None
                     else Some (read_bytes (k_phys (s_kern s)) (sm_addr m) (unat (sm_len m))))))"

definition restart_in_place :: "mapper \<Rightarrow> u64 \<Rightarrow> u64 \<Rightarrow> u8 list \<Rightarrow> sys \<Rightarrow> answer" where
  "restart_in_place mp kst target img s =
     (let k = s_kern s in
      if parse img = None then ret U64_MAX s
      else if \<not> is_alive (k_doms k) target \<or> live_tasks target (k_sched k) \<noteq> 0 then ret U64_MAX s
      else (let k1 = snd (domain_reset target k);
                k2 = k1\<lparr>k_boxes := ipc_remove_domain target (k_boxes k1), k_sched := snd (reap_terminated target (k_sched k1))\<rparr>
            in bind_res (spawn_elf_at mp kst target img k2) (\<lambda>(ok, k3). ret (if ok then target else U64_MAX) (with_kern s k3))))"

fun irq_mask_from :: "u8 list \<Rightarrow> u64 \<Rightarrow> u64 \<Rightarrow> sys \<Rightarrow> bool res" where
  "irq_mask_from [] d msk s = Inr True"
| "irq_mask_from (i # is) d msk s =
     (if msk AND push_bit (unat i) 1 = 0 then irq_mask_from is d msk s
      else (let vector = MSI_VECTOR_BASE + i in
            bind_res (has_cap d (Irq vector) s) (\<lambda>ok.
              if \<not> ok \<or> \<not> is_registered_by vector d (k_irqs (s_kern s)) then Inr False else irq_mask_from is d msk s)))"

definition irq_mask_ok :: "u64 \<Rightarrow> u64 \<Rightarrow> sys \<Rightarrow> bool res" where
  "irq_mask_ok d msk s = irq_mask_from (map of_nat [0..<unat MSI_VECTOR_COUNT]) d msk s"

definition opt_vector :: "u8 option \<Rightarrow> u64" where
  "opt_vector v = (case v of None \<Rightarrow> 0 | Some x \<Rightarrow> ucast x)"

section \<open>Scheduling and messages\<close>

definition on_sched :: "(sched \<Rightarrow> sched res) \<Rightarrow> sys \<Rightarrow> sys res" where
  "on_sched f s = bind_res (lift_sched f (s_kern s)) (\<lambda>k. Inr (with_kern s k))"

definition sys_yield :: "sys \<Rightarrow> answer" where
  "sys_yield s = bind_res (on_sched yield_now s) (ret 0)"

definition sys_sleep :: "u64 \<Rightarrow> sys \<Rightarrow> answer" where
  "sys_sleep a1 s = bind_res (on_sched (sched_sleep a1) s) (ret 0)"

definition with_ipc :: "sys \<Rightarrow> mailboxes \<Rightarrow> sched \<Rightarrow> sys" where
  "with_ipc s b sc = with_kern s ((s_kern s)\<lparr>k_boxes := b, k_sched := sc\<rparr>)"

definition sys_send :: "hw \<Rightarrow> u64 \<Rightarrow> u64 \<Rightarrow> u64 \<Rightarrow> sys \<Rightarrow> answer" where
  "sys_send h a1 a2 a3 s =
     (let k = s_kern s in
      bind_res (read_user_payload h a3 s) (\<lambda>payload.
      bind_res (ipc_send a1 a2 payload (k_caps k) (k_boxes k) (k_sched k)) (\<lambda>(ok, b, sc). ret (of_flag ok) (with_ipc s b sc))))"

definition write_message :: "hw \<Rightarrow> u64 \<Rightarrow> message \<Rightarrow> sys \<Rightarrow> sys res" where
  "write_message h a1 msg s =
     (if a1 \<noteq> 0 then bind_res (kwrite h a1 (message_bytes msg) (s_kern s)) (\<lambda>k. Inr (with_kern s k)) else Inr s)"

definition sys_recv :: "hw \<Rightarrow> u64 \<Rightarrow> sys \<Rightarrow> answer" where
  "sys_recv h a1 s =
     bind_res (ipc_receive (k_boxes (s_kern s)) (k_sched (s_kern s))) (\<lambda>(m, b, sc).
       case m of
         None \<Rightarrow> suspend (with_ipc s b sc)
       | Some msg \<Rightarrow> bind_res (write_message h a1 msg (with_ipc s b sc)) (ret (m_tag msg)))"

definition sys_call :: "hw \<Rightarrow> u64 \<Rightarrow> u64 \<Rightarrow> u64 \<Rightarrow> sys \<Rightarrow> answer" where
  "sys_call h a1 a2 a3 s =
     (let k = s_kern s in
      bind_res (read_user_payload h a3 s) (\<lambda>payload.
      bind_res (ipc_call a1 a2 payload (k_caps k) (k_boxes k) (k_sched k)) (\<lambda>(m, b, sc).
        case m of None \<Rightarrow> suspend (with_ipc s b sc) | Some msg \<Rightarrow> ret (m_tag msg) (with_ipc s b sc))))"

definition sys_call_resume :: "u64 \<Rightarrow> sys \<Rightarrow> answer" where
  "sys_call_resume a1 s =
     bind_res (ipc_call_resume a1 (k_boxes (s_kern s)) (k_sched (s_kern s))) (\<lambda>(m, b, sc).
       case m of None \<Rightarrow> suspend (with_ipc s b sc) | Some msg \<Rightarrow> ret (m_tag msg) (with_ipc s b sc))"

definition sys_reply :: "u64 \<Rightarrow> sys \<Rightarrow> answer" where
  "sys_reply a1 s =
     bind_res (ipc_reply a1 [] (k_boxes (s_kern s)) (k_sched (s_kern s))) (\<lambda>(ok, b, sc). ret (of_flag ok) (with_ipc s b sc))"

definition sys_try_recv :: "hw \<Rightarrow> u64 \<Rightarrow> sys \<Rightarrow> answer" where
  "sys_try_recv h a1 s =
     bind_res (ipc_try_receive (k_boxes (s_kern s)) (k_sched (s_kern s))) (\<lambda>(m, b, sc).
       case m of
         None \<Rightarrow> ret U64_MAX (with_ipc s b sc)
       | Some msg \<Rightarrow> bind_res (write_message h a1 msg (with_ipc s b sc)) (ret (m_tag msg)))"

definition sys_exit :: "sys \<Rightarrow> answer" where
  "sys_exit s = bind_res (exit_current (s_kern s)) (\<lambda>k. suspend (with_kern s k))"

section \<open>Memory\<close>

definition with_mem :: "sys \<Rightarrow> mem \<Rightarrow> sys" where
  "with_mem s m = with_kern s ((s_kern s)\<lparr>k_mem := m\<rparr>)"

definition map_counted :: "mapper \<Rightarrow> u64 \<Rightarrow> u64 \<Rightarrow> u64 \<Rightarrow> sys \<Rightarrow> answer" where
  "map_counted mp d v p s =
     bind_res (map_user_page mp (k_doms (s_kern s)) d v p ReadWrite (k_mem (s_kern s))) (\<lambda>m.
       ret 1 (with_mem s (m\<lparr>frames := inc_ref p (frames m)\<rparr>)))"

definition sys_alloc_page :: "mapper \<Rightarrow> u64 \<Rightarrow> sys \<Rightarrow> answer" where
  "sys_alloc_page mp a1 s =
     (if \<not> is_user_address a1 then ret 0 s
      else case allocate_frame (frames (k_mem (s_kern s))) of
        None \<Rightarrow> ret 0 s
      | Some (p, fr) \<Rightarrow>
          bind_res (me_of s) (\<lambda>me. map_counted mp me a1 p (with_mem s ((k_mem (s_kern s))\<lparr>frames := fr\<rparr>))))"

text \<open>Drop one reference and free the frame with the last one.\<close>

definition drop_ref :: "u64 \<Rightarrow> mem \<Rightarrow> mem" where
  "drop_ref p m =
     (case dec_ref p (frames m) of (was_last, fr) \<Rightarrow> m\<lparr>frames := (if was_last then free_frame p fr else fr)\<rparr>)"

definition sys_share_page :: "mapper \<Rightarrow> u64 \<Rightarrow> u64 \<Rightarrow> sys \<Rightarrow> answer" where
  "sys_share_page mp a1 a2 =
     gated (MapInto a2) 0 (\<lambda>frm s.
       let doms = k_doms (s_kern s); m = k_mem (s_kern s) in
       if \<not> is_user_address a1 then ret 0 s
       else bind_res (resolve_user_page doms frm a1 m) (\<lambda>r.
         case r of
           None \<Rightarrow> ret 0 s
         | Some paddr \<Rightarrow>
             bind_res (resolve_user_page doms a2 a1 m) (\<lambda>old.
               case old of
                 None \<Rightarrow> map_counted mp a2 a1 paddr s
               | Some o' \<Rightarrow>
                   if o' = paddr then ret 1 s
                   else bind_res (unmap_user_page mp doms a2 a1 m) (\<lambda>(u, m').
                     map_counted mp a2 a1 paddr (with_mem s (case u of None \<Rightarrow> m' | Some f \<Rightarrow> drop_ref f m'))))))"

definition sys_unmap :: "mapper \<Rightarrow> u64 \<Rightarrow> sys \<Rightarrow> answer" where
  "sys_unmap mp a1 s =
     bind_res (me_of s) (\<lambda>me.
     bind_res (unmap_user_page mp (k_doms (s_kern s)) me a1 (k_mem (s_kern s))) (\<lambda>(u, m).
       case u of None \<Rightarrow> ret 0 (with_mem s m) | Some p \<Rightarrow> ret 1 (with_mem s (drop_ref p m))))"

definition sys_map_anon :: "mapper \<Rightarrow> u64 \<Rightarrow> u64 \<Rightarrow> sys \<Rightarrow> answer" where
  "sys_map_anon mp a1 a2 =
     gated (MapInto a1) 0 (\<lambda>frm s.
       if \<not> is_user_address a2 then ret 0 s
       else case allocate_frame (frames (k_mem (s_kern s))) of
         None \<Rightarrow> ret 0 s
       | Some (p, fr) \<Rightarrow>
           map_counted mp a1 a2 p
             (with_kern s ((s_kern s)\<lparr>k_mem := (k_mem (s_kern s))\<lparr>frames := fr\<rparr>, k_phys := zero_frame p (k_phys (s_kern s))\<rparr>)))"

definition sys_page_fault_reply :: "sys \<Rightarrow> answer" where
  "sys_page_fault_reply s =
     bind_res (current_reply_target (k_sched (s_kern s))) (\<lambda>target.
       if target \<noteq> U64_MAX then ret 1 (with_kern s ((s_kern s)\<lparr>k_sched := wake_one target (k_sched (s_kern s))\<rparr>)) else ret 0 s)"

definition sys_map_mmio :: "mapper \<Rightarrow> u64 \<Rightarrow> u64 \<Rightarrow> sys \<Rightarrow> answer" where
  "sys_map_mmio mp a1 a2 =
     gated (Mmio (a1 AND NOT 0xFFF)) 0 (\<lambda>me s.
       if is_user_address a2
       then bind_res (map_mmio mp (k_doms (s_kern s)) me a2 (a1 AND NOT 0xFFF) (k_mem (s_kern s))) (\<lambda>m. ret 1 (with_mem s m))
       else ret 0 s)"

definition sys_virt_to_phys :: "u64 \<Rightarrow> sys \<Rightarrow> answer" where
  "sys_virt_to_phys a1 s =
     bind_res (me_of s) (\<lambda>me.
       if is_user_address a1
       then bind_res (resolve_user_page (k_doms (s_kern s)) me a1 (k_mem (s_kern s))) (\<lambda>r. ret (case r of None \<Rightarrow> 0 | Some p \<Rightarrow> p) s)
       else ret 0 s)"

section \<open>Interrupts and devices\<close>

definition with_irqs :: "sys \<Rightarrow> irq_state \<Rightarrow> sys" where
  "with_irqs s q = with_kern s ((s_kern s)\<lparr>k_irqs := q\<rparr>)"

definition sys_register_irq :: "u64 \<Rightarrow> sys \<Rightarrow> answer" where
  "sys_register_irq a1 =
     (let irq = ucast a1 in
      gated (Irq irq) 0 (\<lambda>me s.
        if irq < 16 then bind_res (irq_register irq me (k_irqs (s_kern s))) (\<lambda>q. ret 1 (with_irqs s q))
        else if 32 \<le> irq then ret 1 (with_irqs s (register_vector irq me (k_irqs (s_kern s))))
        else ret 0 s))"

definition sys_irq_poll :: "u64 \<Rightarrow> sys \<Rightarrow> answer" where
  "sys_irq_poll a1 s =
     bind_res (me_of s) (\<lambda>me.
       if a1 = 0 then ret 0 s
       else bind_res (irq_mask_ok me a1 s) (\<lambda>ok.
         if \<not> ok then ret 0 s
         else case take_pending_any a1 me (k_irqs (s_kern s)) of (v, q) \<Rightarrow> ret (opt_vector v) (with_irqs s q)))"

definition sys_irq_wait :: "u64 \<Rightarrow> u64 \<Rightarrow> sys \<Rightarrow> answer" where
  "sys_irq_wait a1 a2 s =
     bind_res (me_of s) (\<lambda>me.
       if a1 = 0 then ret 0 s
       else bind_res (irq_mask_ok me a1 s) (\<lambda>ok.
         if \<not> ok then ret 0 s
         else case take_pending_any a1 me (k_irqs (s_kern s)) of
           (Some v, q) \<Rightarrow> ret (ucast v) (with_irqs s q)
         | (None, q) \<Rightarrow>
             (case set_any_mask me a1 q of (set_ok, q') \<Rightarrow>
                if \<not> set_ok then ret 0 (with_irqs s q')
                else bind_res (on_sched (block_current_timeout_ms (irq_wait_token me) a2) (with_irqs s q')) suspend)))"

definition sys_irq_wait_resume :: "u64 \<Rightarrow> sys \<Rightarrow> answer" where
  "sys_irq_wait_resume a1 s =
     bind_res (me_of s) (\<lambda>me.
       case take_pending_any a1 me (clear_any_mask me (k_irqs (s_kern s))) of (v, q) \<Rightarrow> ret (opt_vector v) (with_irqs s q))"

definition sys_msix_enable :: "hw \<Rightarrow> sys \<Rightarrow> answer" where
  "sys_msix_enable h s = bind_res (enable_msix h s) (\<lambda>(ok, s'). ret (of_flag ok) s')"

definition sys_device_config_read :: "hw \<Rightarrow> u64 \<Rightarrow> sys \<Rightarrow> answer" where
  "sys_device_config_read h a1 s =
     bind_res (dev_config_read h (ucast a1) s) (\<lambda>r. ret (case r of None \<Rightarrow> U64_MAX | Some v \<Rightarrow> ucast v) s)"

definition port_gate :: "u64 \<Rightarrow> (u16 \<Rightarrow> sys \<Rightarrow> answer) \<Rightarrow> sys \<Rightarrow> answer" where
  "port_gate a1 f s =
     bind_res (me_of s) (\<lambda>me. if has_port me (ucast a1) (k_caps (s_kern s)) then f (ucast a1) s else ret U64_MAX s)"

definition sys_port_in8 :: "hw \<Rightarrow> u64 \<Rightarrow> sys \<Rightarrow> answer" where
  "sys_port_in8 h a1 = port_gate a1 (\<lambda>port. ret (ucast (hw_in8 h port)))"

definition sys_port_in16 :: "hw \<Rightarrow> u64 \<Rightarrow> sys \<Rightarrow> answer" where
  "sys_port_in16 h a1 = port_gate a1 (\<lambda>port. ret (ucast (hw_in16 h port)))"

definition sys_port_out8 :: "u64 \<Rightarrow> u64 \<Rightarrow> sys \<Rightarrow> answer" where
  "sys_port_out8 a1 a2 = port_gate a1 (\<lambda>port s. ret 0 (emit [Out8 port (ucast a2)] s))"

definition sys_port_out16 :: "u64 \<Rightarrow> u64 \<Rightarrow> sys \<Rightarrow> answer" where
  "sys_port_out16 a1 a2 = port_gate a1 (\<lambda>port s. ret 0 (emit [Out16 port (ucast a2)] s))"

definition sys_device_info :: "hw \<Rightarrow> u64 \<Rightarrow> sys \<Rightarrow> answer" where
  "sys_device_info h a1 s = bind_res (dev_syscall_info h a1 s) (\<lambda>v. ret v s)"

definition sys_device_grant :: "u64 \<Rightarrow> sys \<Rightarrow> answer" where
  "sys_device_grant a1 s = bind_res (dev_syscall_grant a1 s) (\<lambda>v. ret v s)"

definition sys_pci_info :: "hw \<Rightarrow> u64 \<Rightarrow> u64 \<Rightarrow> sys \<Rightarrow> answer" where
  "sys_pci_info h a1 a2 s = bind_res (pci_syscall_info h a1 a2 (s_pci s) (s_kern s)) (\<lambda>(v, k). ret v (with_kern s k))"

section \<open>Capabilities and handles\<close>

definition with_caps :: "sys \<Rightarrow> cap_state \<Rightarrow> sys" where
  "with_caps s cs = with_kern s ((s_kern s)\<lparr>k_caps := cs\<rparr>)"

definition sys_cap_issue :: "u64 \<Rightarrow> sys \<Rightarrow> answer" where
  "sys_cap_issue a1 s = bind_res (me_of s) (\<lambda>me. case handle_issue me a1 (k_caps (s_kern s)) of (v, cs) \<Rightarrow> ret v (with_caps s cs))"

definition sys_cap_lookup :: "u64 \<Rightarrow> sys \<Rightarrow> answer" where
  "sys_cap_lookup a1 s =
     bind_res (me_of s) (\<lambda>me. ret (case handle_lookup me a1 (k_caps (s_kern s)) of None \<Rightarrow> U64_MAX | Some v \<Rightarrow> v) s)"

definition sys_cap_drop :: "u64 \<Rightarrow> sys \<Rightarrow> answer" where
  "sys_cap_drop a1 s = bind_res (me_of s) (\<lambda>me. case handle_drop me a1 (k_caps (s_kern s)) of (ok, cs) \<Rightarrow> ret (of_flag ok) (with_caps s cs))"

definition sys_handle_send :: "u64 \<Rightarrow> u64 \<Rightarrow> sys \<Rightarrow> answer" where
  "sys_handle_send a1 a2 =
     gated (SendTo a1) U64_MAX (\<lambda>me s. case handle_move me a1 a2 (k_caps (s_kern s)) of (v, cs) \<Rightarrow> ret v (with_caps s cs))"

definition sys_cap_send :: "u64 \<Rightarrow> u64 \<Rightarrow> u64 \<Rightarrow> sys \<Rightarrow> answer" where
  "sys_cap_send a1 a2 a3 =
     gated (SendTo a1) 0 (\<lambda>me s.
       case decode a2 a3 of
         None \<Rightarrow> ret 0 s
       | Some cap \<Rightarrow> (case cap_delegate me a1 cap (k_caps (s_kern s)) of (ok, cs) \<Rightarrow> ret (of_flag ok) (with_caps s cs)))"

definition sys_cap_audit :: "u64 \<Rightarrow> u64 \<Rightarrow> sys \<Rightarrow> answer" where
  "sys_cap_audit a1 a2 =
     gated Spawn 0 (\<lambda>me s.
       ret (case audit_slot a1 a2 (k_caps (s_kern s)) of
              None \<Rightarrow> U64_MAX | Some None \<Rightarrow> 0 | Some (Some cap) \<Rightarrow> pack_audit cap) s)"

section \<open>Processes\<close>

definition sys_spawn_elf :: "mapper \<Rightarrow> hw \<Rightarrow> u64 \<Rightarrow> u64 \<Rightarrow> u64 \<Rightarrow> sys \<Rightarrow> answer" where
  "sys_spawn_elf mp h kst a1 a2 =
     gated Spawn U64_MAX (\<lambda>frm s.
       bind_res (user_elf_image h a1 a2 s) (\<lambda>r.
         case r of
           None \<Rightarrow> ret U64_MAX s
         | Some img \<Rightarrow>
             bind_res (spawn_elf mp kst img frm (s_kern s)) (\<lambda>(d, k).
               ret (case d of None \<Rightarrow> U64_MAX | Some d \<Rightarrow> d) (with_kern s k))))"

definition sys_spawn_elf_at :: "mapper \<Rightarrow> hw \<Rightarrow> u64 \<Rightarrow> u64 \<Rightarrow> u64 \<Rightarrow> u64 \<Rightarrow> sys \<Rightarrow> answer" where
  "sys_spawn_elf_at mp h kst a1 a2 a3 =
     gated Spawn U64_MAX (\<lambda>frm s.
       bind_res (user_elf_image h a2 a3 s) (\<lambda>r.
         case r of None \<Rightarrow> ret U64_MAX s | Some img \<Rightarrow> restart_in_place mp kst a1 img s))"

definition sys_spawn_elf_module :: "mapper \<Rightarrow> boot_info \<Rightarrow> u64 \<Rightarrow> u64 \<Rightarrow> sys \<Rightarrow> answer" where
  "sys_spawn_elf_module mp info kst a1 =
     gated Spawn U64_MAX (\<lambda>frm s.
       bind_res (boot_module_image info a1 s) (\<lambda>r.
         case r of None \<Rightarrow> ret U64_MAX s | Some img \<Rightarrow> restart_in_place mp kst a1 img s))"

definition sys_domain_alive :: "u64 \<Rightarrow> sys \<Rightarrow> answer" where
  "sys_domain_alive a1 s = ret (of_flag (is_alive (k_doms (s_kern s)) a1 \<and> 0 < live_tasks a1 (k_sched (s_kern s)))) s"

definition sys_domain_destroy :: "u64 \<Rightarrow> sys \<Rightarrow> answer" where
  "sys_domain_destroy a1 =
     gated Spawn 0 (\<lambda>frm s.
       if pager_of (k_pagers (s_kern s)) a1 \<noteq> Some frm then ret 0 s
       else case domain_destroy a1 (s_kern s) of (ok, k) \<Rightarrow> ret (of_flag ok) (with_kern s k))"

definition sys_domain_count :: "sys \<Rightarrow> answer" where
  "sys_domain_count s = ret (of_nat (alive_count (k_doms (s_kern s)))) s"

definition sys_frame_free :: "sys \<Rightarrow> answer" where
  "sys_frame_free s = ret (of_nat (free_frames (frames (k_mem (s_kern s))))) s"

section \<open>Console, display, keys, log, power\<close>

definition with_con :: "sys \<Rightarrow> console \<Rightarrow> sys" where
  "with_con s c = s\<lparr>s_con := c\<rparr>"

definition sys_puts :: "hw \<Rightarrow> u64 \<Rightarrow> u64 \<Rightarrow> sys \<Rightarrow> answer" where
  "sys_puts h a1 a2 s =
     bind_res (kread h (s_kern s) a1 (unat a2)) (\<lambda>bs.
       case utf8_chars bs 0 of
         None \<Rightarrow> Inl Undefined
       | Some cps \<Rightarrow>
           (case con_print cps (s_con s, k_log (s_kern s)) of
              (c, lg) \<Rightarrow> ret 0 (with_con (with_kern s ((s_kern s)\<lparr>k_log := lg\<rparr>)) c)))"

definition sys_clear :: "sys \<Rightarrow> answer" where
  "sys_clear s = ret 1 (with_con s (clear_screen (s_con s)))"

definition fb_info_bytes :: "console \<Rightarrow> u8 list" where
  "fb_info_bytes c =
     (case v_geom c of (w, hh, st, bpp) \<Rightarrow> u64_bytes (v_base c) @ u32_bytes w @ u32_bytes hh @ u32_bytes st @ u32_bytes bpp)"

definition sys_fb_info :: "hw \<Rightarrow> u64 \<Rightarrow> sys \<Rightarrow> answer" where
  "sys_fb_info h a1 =
     gated Fb 0 (\<lambda>me s.
       if a1 = 0 \<or> \<not> is_user_address a1 \<or> \<not> is_user_address (a1 + 24 - 1) then ret 0 s
       else bind_res (kwrite h a1 (fb_info_bytes (s_con s)) (s_kern s)) (\<lambda>k. ret 1 (with_kern s k)))"

fun none_mapped :: "domains \<Rightarrow> u64 \<Rightarrow> mem \<Rightarrow> u64 list \<Rightarrow> bool res" where
  "none_mapped doms d m [] = Inr True"
| "none_mapped doms d m (p # ps) =
     bind_res (resolve_user_page doms d p m) (\<lambda>r. if r \<noteq> None then Inr False else none_mapped doms d m ps)"

definition sys_fb_map :: "mapper \<Rightarrow> u64 \<Rightarrow> sys \<Rightarrow> answer" where
  "sys_fb_map mp a1 =
     gated Fb 0 (\<lambda>me s.
       let base = v_base (s_con s); bytes = v_bytes (s_con s); doms = k_doms (s_kern s) in
       if base = 0 \<or> bytes = 0 \<or> a1 AND 0xFFF \<noteq> 0 then ret 0 s
       else case checked_add a1 bytes of
         None \<Rightarrow> ret 0 s
       | Some fin \<Rightarrow>
           if \<not> is_user_address a1 \<or> \<not> is_user_address (fin - 1) then ret 0 s
           else (let pages = unat (div_ceil bytes 4096) in
                 bind_res (none_mapped doms me (k_mem (s_kern s)) (map (\<lambda>i. a1 + of_nat i * 4096) [0..<pages])) (\<lambda>ok.
                   if \<not> ok then ret 0 s
                   else bind_res (lift_mem (map_run (map_mmio mp doms me) a1 base pages) s) (ret 1))))"

definition sys_fb_takeover :: "sys \<Rightarrow> answer" where
  "sys_fb_takeover = gated Fb 0 (\<lambda>me s. ret 1 (with_con s (take_over (s_con s))))"

definition sys_console_ready :: "sys \<Rightarrow> answer" where
  "sys_console_ready s = ret (of_flag (taken_over (s_con s))) s"

definition key_push :: "u8 \<Rightarrow> kernel_state \<Rightarrow> kernel_state" where
  "key_push c k = k\<lparr>k_keys := snd (kq_push c (k_keys k)), k_sched := wake_one KEY_WAIT (k_sched k)\<rparr>"

definition sys_key_push :: "u64 \<Rightarrow> sys \<Rightarrow> answer" where
  "sys_key_push a1 s = ret 1 (with_kern (with_con s (scroll_to_bottom (s_con s))) (key_push (ucast a1) (s_kern s)))"

definition sys_key_read :: "sys \<Rightarrow> answer" where
  "sys_key_read s =
     (case kq_pop (k_keys (s_kern s)) of
        (Some c, q) \<Rightarrow> ret (ucast c) (with_kern s ((s_kern s)\<lparr>k_keys := q\<rparr>))
      | (None, q) \<Rightarrow> bind_res (on_sched (block_current KEY_WAIT) s) suspend)"

definition sys_key_try_read :: "sys \<Rightarrow> answer" where
  "sys_key_try_read s =
     (case kq_pop (k_keys (s_kern s)) of
        (c, q) \<Rightarrow> ret (case c of None \<Rightarrow> U64_MAX | Some x \<Rightarrow> ucast x) (with_kern s ((s_kern s)\<lparr>k_keys := q\<rparr>)))"

definition sys_console_scroll :: "u64 \<Rightarrow> sys \<Rightarrow> answer" where
  "sys_console_scroll a1 s =
     (if 0 < sint a1 then ret 1 (with_con s (scroll_up (unat a1) (s_con s)))
      else if sint a1 < 0 then ret 1 (with_con s (scroll_down (unat (- a1)) (s_con s)))
      else ret 1 s)"

definition sys_net_bind :: "u64 \<Rightarrow> sys \<Rightarrow> answer" where
  "sys_net_bind a1 s =
     bind_res (me_of s) (\<lambda>me.
       case net_bind me (ucast a1) (k_caps (s_kern s)) (k_binds (s_kern s)) of
         (ok, b) \<Rightarrow> ret (of_flag ok) (with_kern s ((s_kern s)\<lparr>k_binds := b\<rparr>)))"

definition sys_net_owner :: "u64 \<Rightarrow> sys \<Rightarrow> answer" where
  "sys_net_owner a1 s = ret (net_owner (ucast a1) (k_binds (s_kern s))) s"

definition sys_log_total :: "sys \<Rightarrow> answer" where
  "sys_log_total s = ret (log_total (k_log (s_kern s))) s"

definition sys_log_oldest :: "sys \<Rightarrow> answer" where
  "sys_log_oldest s = ret (log_oldest (k_log (s_kern s))) s"

definition sys_log_read :: "hw \<Rightarrow> u64 \<Rightarrow> u64 \<Rightarrow> u64 \<Rightarrow> sys \<Rightarrow> answer" where
  "sys_log_read h a1 a2 a3 s =
     (case log_handle_read a1 a2 a3 (k_log (s_kern s)) of
        (n, None) \<Rightarrow> ret n s
      | (n, Some (v, bs)) \<Rightarrow> bind_res (kwrite h v bs (s_kern s)) (\<lambda>k. ret n (with_kern s k)))"

definition sys_poweroff :: "hw \<Rightarrow> boot_info \<Rightarrow> sys \<Rightarrow> answer" where
  "sys_poweroff h info = gated Spawn 0 (\<lambda>me s. bind_res (poweroff h info (s_kern s)) (\<lambda>evs. suspend (emit evs s)))"

definition sys_reboot :: "sys \<Rightarrow> answer" where
  "sys_reboot = gated Spawn 0 (\<lambda>me s. suspend (emit reboot s))"

section \<open>Dispatch\<close>

text \<open>What surrounds the kernel: the page-table library, the hardware, the boot information, the build
  and the address of the next kernel stack.\<close>

record world =
  wd_map :: mapper
  wd_hw :: hw
  wd_info :: boot_info
  wd_build :: build
  wd_kstack :: u64

type_synonym handler = "u64 \<Rightarrow> u64 \<Rightarrow> u64 \<Rightarrow> sys \<Rightarrow> answer"

definition syscall_table :: "world \<Rightarrow> (u64 \<times> handler) list" where
  "syscall_table w =
     [(SYS_YIELD, \<lambda>_ _ _. sys_yield),
      (SYS_SLEEP, \<lambda>a1 _ _. sys_sleep a1),
      (SYS_SEND, \<lambda>a1 a2 a3. sys_send (wd_hw w) a1 a2 a3),
      (SYS_RECV, \<lambda>a1 _ _. sys_recv (wd_hw w) a1),
      (SYS_CALL, \<lambda>a1 a2 a3. sys_call (wd_hw w) a1 a2 a3),
      (SYS_REPLY, \<lambda>a1 _ _. sys_reply a1),
      (SYS_ALLOC_PAGE, \<lambda>a1 _ _. sys_alloc_page (wd_map w) a1),
      (SYS_SHARE_PAGE, \<lambda>a1 a2 _. sys_share_page (wd_map w) a1 a2),
      (SYS_UNMAP, \<lambda>a1 _ _. sys_unmap (wd_map w) a1),
      (SYS_MAP_ANON, \<lambda>a1 a2 _. sys_map_anon (wd_map w) a1 a2),
      (SYS_PAGE_FAULT_REPLY, \<lambda>_ _ _. sys_page_fault_reply),
      (SYS_REGISTER_IRQ, \<lambda>a1 _ _. sys_register_irq a1),
      (SYS_IRQ_POLL, \<lambda>a1 _ _. sys_irq_poll a1),
      (SYS_MSIX_ENABLE, \<lambda>_ _ _. sys_msix_enable (wd_hw w)),
      (SYS_DEVICE_CONFIG_READ, \<lambda>a1 _ _. sys_device_config_read (wd_hw w) a1),
      (SYS_IRQ_WAIT, \<lambda>a1 a2 _. sys_irq_wait a1 a2),
      (SYS_MAP_MMIO, \<lambda>a1 a2 _. sys_map_mmio (wd_map w) a1 a2),
      (SYS_PORT_IN8, \<lambda>a1 _ _. sys_port_in8 (wd_hw w) a1),
      (SYS_PORT_IN16, \<lambda>a1 _ _. sys_port_in16 (wd_hw w) a1),
      (SYS_PORT_OUT8, \<lambda>a1 a2 _. sys_port_out8 a1 a2),
      (SYS_PORT_OUT16, \<lambda>a1 a2 _. sys_port_out16 a1 a2),
      (SYS_VIRT_TO_PHYS, \<lambda>a1 _ _. sys_virt_to_phys a1),
      (SYS_CLEAR, \<lambda>_ _ _. sys_clear),
      (SYS_CAP_ISSUE, \<lambda>a1 _ _. sys_cap_issue a1),
      (SYS_CAP_LOOKUP, \<lambda>a1 _ _. sys_cap_lookup a1),
      (SYS_CAP_DROP, \<lambda>a1 _ _. sys_cap_drop a1),
      (SYS_HANDLE_SEND, \<lambda>a1 a2 _. sys_handle_send a1 a2),
      (SYS_CAP_SEND, \<lambda>a1 a2 a3. sys_cap_send a1 a2 a3),
      (SYS_PUTS, \<lambda>a1 a2 _. sys_puts (wd_hw w) a1 a2),
      (SYS_SPAWN_ELF, \<lambda>a1 a2 _. sys_spawn_elf (wd_map w) (wd_hw w) (wd_kstack w) a1 a2),
      (SYS_SPAWN_ELF_AT, \<lambda>a1 a2 a3. sys_spawn_elf_at (wd_map w) (wd_hw w) (wd_kstack w) a1 a2 a3),
      (SYS_SPAWN_ELF_MODULE, \<lambda>a1 _ _. sys_spawn_elf_module (wd_map w) (wd_info w) (wd_kstack w) a1),
      (SYS_FB_INFO, \<lambda>a1 _ _. sys_fb_info (wd_hw w) a1),
      (SYS_FB_MAP, \<lambda>a1 _ _. sys_fb_map (wd_map w) a1),
      (SYS_FB_TAKEOVER, \<lambda>_ _ _. sys_fb_takeover),
      (SYS_CONSOLE_READY, \<lambda>_ _ _. sys_console_ready),
      (SYS_KEY_PUSH, \<lambda>a1 _ _. sys_key_push a1),
      (SYS_KEY_READ, \<lambda>_ _ _. sys_key_read),
      (SYS_KEY_TRY_READ, \<lambda>_ _ _. sys_key_try_read),
      (SYS_CONSOLE_SCROLL, \<lambda>a1 _ _. sys_console_scroll a1),
      (SYS_DOMAIN_ALIVE, \<lambda>a1 _ _. sys_domain_alive a1),
      (SYS_EXIT, \<lambda>_ _ _. sys_exit),
      (SYS_DOMAIN_DESTROY, \<lambda>a1 _ _. sys_domain_destroy a1),
      (SYS_DOMAIN_COUNT, \<lambda>_ _ _. sys_domain_count),
      (SYS_FRAME_FREE, \<lambda>_ _ _. sys_frame_free),
      (SYS_UNAME, \<lambda>a1 a2 a3. uname_handle (wd_hw w) (wd_build w) a1 a2 a3),
      (SYS_DEVICE_INFO, \<lambda>a1 _ _. sys_device_info (wd_hw w) a1),
      (SYS_DEVICE_GRANT, \<lambda>a1 _ _. sys_device_grant a1),
      (SYS_CAP_AUDIT, \<lambda>a1 a2 _. sys_cap_audit a1 a2),
      (SYS_TRY_RECV, \<lambda>a1 _ _. sys_try_recv (wd_hw w) a1),
      (SYS_NET_BIND, \<lambda>a1 _ _. sys_net_bind a1),
      (SYS_NET_OWNER, \<lambda>a1 _ _. sys_net_owner a1),
      (SYS_LOG_TOTAL, \<lambda>_ _ _. sys_log_total),
      (SYS_LOG_READ, \<lambda>a1 a2 a3. sys_log_read (wd_hw w) a1 a2 a3),
      (SYS_LOG_OLDEST, \<lambda>_ _ _. sys_log_oldest),
      (SYS_PCI_INFO, \<lambda>a1 a2 _. sys_pci_info (wd_hw w) a1 a2),
      (SYS_POWEROFF, \<lambda>_ _ _. sys_poweroff (wd_hw w) (wd_info w)),
      (SYS_REBOOT, \<lambda>_ _ _. sys_reboot)]"

definition syscall_dispatch :: "world \<Rightarrow> u64 \<Rightarrow> handler" where
  "syscall_dispatch w num a1 a2 a3 s =
     (case map_of (syscall_table w) num of None \<Rightarrow> ret 0 s | Some f \<Rightarrow> f a1 a2 a3 s)"

end
