(* ===== verification/Authority.thy ===== *)
theory Authority
  imports Syscall
begin

text \<open>
  What a system call may do, as an abstract specification of \<open>kernel/src/syscall.rs\<close>. \<open>quiet_step\<close> lists the
  changes that leave the capability table, the domain table and the pagers alone, each with the
  capability it needs; \<open>loud_step\<close> lists those that change one of these tables. Every arm of the
  dispatcher is shown to be a sequence of quiet steps or one loud step of the calling domain.
  Confinement of authority, the well-formedness of the kernel state and the isolation of a domain
  without capabilities are then proved once, on the specification.
\<close>

section \<open>Specification\<close>

abbreviation holds :: "sys \<Rightarrow> u64 \<Rightarrow> capability set" where
  "holds s d \<equiv> held (k_caps (s_kern s)) d"

text \<open>
  How the mailboxes may change: the caller takes messages from its own mailbox, or appends one of its own
  to the mailbox of a domain it may send to or whose message it is answering.
\<close>

definition mail_ok :: "u64 \<Rightarrow> sys \<Rightarrow> mailboxes \<Rightarrow> bool" where
  "mail_ok me s b \<longleftrightarrow>
     (let old = k_boxes (s_kern s) in
      b = old \<or>
      (\<exists>q. unat me < length old \<and> b = old[unat me := q] \<and> set q \<subseteq> set (old ! unat me)) \<or>
      (\<exists>to msg. unat to < length old \<and> b = old[unat to := old ! unat to @ [msg]] \<and> m_from msg = me \<and>
         length (m_payload msg) = PAYLOAD_LEN \<and>
         (SendTo to \<in> holds s me \<or> current_reply_target (k_sched (s_kern s)) = Inr to)))"

inductive quiet_step :: "u64 \<Rightarrow> sys \<Rightarrow> sys \<Rightarrow> bool" for me where
  q_memory: "quiet_step me s (with_kern s ((s_kern s)\<lparr>k_mem := m, k_phys := ph\<rparr>))"
| q_sched: "quiet_step me s (with_kern s ((s_kern s)\<lparr>k_sched := sc\<rparr>))"
| q_mail: "mail_ok me s b \<Longrightarrow> quiet_step me s (with_ipc s b sc)"
| q_drain: "Spawn \<in> holds s me \<Longrightarrow> live_tasks d (k_sched (s_kern s)) = 0 \<Longrightarrow>
    quiet_step me s (with_kern s ((s_kern s)\<lparr>k_boxes := ipc_remove_domain d (k_boxes (s_kern s))\<rparr>))"
| q_irq: "Irq irq \<in> holds s me \<Longrightarrow> irq_register irq me (k_irqs (s_kern s)) = Inr q \<Longrightarrow> quiet_step me s (with_irqs s q)"
| q_vector: "Irq v \<in> holds s me \<Longrightarrow> quiet_step me s (with_irqs s (register_vector v me (k_irqs (s_kern s))))"
| q_take: "quiet_step me s (with_irqs s (snd (take_pending_any msk me (k_irqs (s_kern s)))))"
| q_mask: "quiet_step me s (with_irqs s (snd (set_any_mask me msk (k_irqs (s_kern s)))))"
| q_unmask: "quiet_step me s (with_irqs s (clear_any_mask me (k_irqs (s_kern s))))"
| q_push: "quiet_step me s (with_kern s ((s_kern s)\<lparr>k_keys := snd (kq_push c (k_keys (s_kern s)))\<rparr>))"
| q_pop: "quiet_step me s (with_kern s ((s_kern s)\<lparr>k_keys := snd (kq_pop (k_keys (s_kern s)))\<rparr>))"
| q_log: "quiet_step me s (with_kern s ((s_kern s)\<lparr>k_log := lg\<rparr>))"
| q_console: "(console_inv (s_con s) \<Longrightarrow> console_inv c) \<Longrightarrow> taken_over c = taken_over (s_con s) \<Longrightarrow> quiet_step me s (with_con s c)"
| q_takeover: "Fb \<in> holds s me \<Longrightarrow> quiet_step me s (with_con s (take_over (s_con s)))"
| q_bind: "quiet_step me s (with_kern s ((s_kern s)\<lparr>k_binds := snd (net_bind me port (k_caps (s_kern s)) (k_binds (s_kern s)))\<rparr>))"
| q_out8: "has_port me port (k_caps (s_kern s)) \<Longrightarrow> quiet_step me s (emit [Out8 port b] s)"
| q_out16: "has_port me port (k_caps (s_kern s)) \<Longrightarrow> quiet_step me s (emit [Out16 port x] s)"
| q_msix: "me_of s = Inr me \<Longrightarrow> enable_msix h s = Inr (ok, s') \<Longrightarrow> quiet_step me s s'"
| q_exit: "quiet_step me s (with_kern s (request_destroy me (s_kern s)))"
| q_power: "Spawn \<in> holds s me \<Longrightarrow> quiet_step me s (emit evs s)"

inductive loud_step :: "u64 \<Rightarrow> sys \<Rightarrow> sys \<Rightarrow> bool" for me where
  l_delegate: "SendTo to \<in> holds s me \<Longrightarrow> loud_step me s (with_caps s (snd (cap_delegate me to c (k_caps (s_kern s)))))"
| l_issue: "loud_step me s (with_caps s (snd (handle_issue me obj (k_caps (s_kern s)))))"
| l_drop: "loud_step me s (with_caps s (snd (handle_drop me h (k_caps (s_kern s)))))"
| l_move: "SendTo to \<in> holds s me \<Longrightarrow> loud_step me s (with_caps s (snd (handle_move me to h (k_caps (s_kern s)))))"
| l_spawn: "Spawn \<in> holds s me \<Longrightarrow> spawn_elf mp kst img me (s_kern s) = Inr (d, k) \<Longrightarrow> loud_step me s (with_kern s k)"
| l_destroy: "Spawn \<in> holds s me \<Longrightarrow> pager_of (k_pagers (s_kern s)) d = Some me \<Longrightarrow>
    loud_step me s (with_kern s (snd (domain_destroy d (s_kern s))))"

definition allowed :: "u64 \<Rightarrow> sys \<Rightarrow> sys \<Rightarrow> bool" where
  "allowed me s s' \<longleftrightarrow> (quiet_step me)\<^sup>*\<^sup>* s s' \<or> loud_step me s s'"

section \<open>Reasoning about answers\<close>

definition ans_all :: "(sys \<Rightarrow> bool) \<Rightarrow> answer \<Rightarrow> bool" where
  "ans_all P a \<longleftrightarrow> (\<forall>v s'. a = Inr (v, s') \<longrightarrow> P s')"

lemma ans_all_simps [simp]:
  "ans_all P (ret v s) \<longleftrightarrow> P s" "ans_all P (suspend s) \<longleftrightarrow> P s" "ans_all P (Inl e)"
  by (simp_all add: ans_all_def ret_def suspend_def)

lemma ans_all_bind: "ans_all P (bind_res x f) \<longleftrightarrow> (\<forall>y. x = Inr y \<longrightarrow> ans_all P (f y))"
  by (cases x) (simp_all add: ans_all_def)

lemma has_cap_held: "has_cap d c s = Inr ok \<Longrightarrow> ok \<longleftrightarrow> c \<in> holds s d"
  by (auto simp: has_cap_def cap_has_def held_iff bind_res_Inr_iff index_res_Inr_iff split: if_splits)

lemma ans_all_gated:
  assumes "me_of s = Inr me" and "P s" and "c \<in> holds s me \<Longrightarrow> ans_all P (f me s)"
  shows "ans_all P (gated c fail f s)"
  using assms by (auto simp: gated_def ans_all_bind dest: has_cap_held)

lemma allowed_refl [simp]: "allowed me s s"
  by (simp add: allowed_def)

lemma allowed_quiet: "(quiet_step me)\<^sup>*\<^sup>* s s' \<Longrightarrow> allowed me s s'"
  by (simp add: allowed_def)

lemma allowed_loud: "loud_step me s s' \<Longrightarrow> allowed me s s'"
  by (simp add: allowed_def)

lemma quiet_snoc: "(quiet_step me)\<^sup>*\<^sup>* s s' \<Longrightarrow> quiet_step me s' s'' \<Longrightarrow> (quiet_step me)\<^sup>*\<^sup>* s s''"
  by (rule rtranclp.rtrancl_into_rtrancl)

lemmas quiet_one = r_into_rtranclp [where r = "quiet_step me" for me]
lemmas quiet_two = converse_rtranclp_into_rtranclp [where r = "quiet_step me" for me, OF _ quiet_one]

section \<open>The console\<close>

lemma append_cp_put:
  "append_cp ch c = c \<or> append_cp ch c = commit_line c \<or>
   (\<exists>d. (d = c \<or> d = commit_line c) \<and> line_len d + length (utf8_encode ch) \<le> LINE_BYTES \<and> append_cp ch c = put_cp ch d)"
proof -
  define d where "d = (if LINE_BYTES < line_len c + length (utf8_encode ch) \<or>
      max_cols c < unat (str_width (take (line_len c) (line_buf c))) + unat (cp_width ch) then commit_line c else c)"
  have "append_cp ch c = (if cp_width ch = 0 \<or> \<not> scalar ch then c
      else if line_len d + length (utf8_encode ch) \<le> LINE_BYTES then put_cp ch d else d)"
    unfolding append_cp_def put_cp_def d_def Let_def by (rule refl)
  moreover have "d = c \<or> d = commit_line c" by (simp add: d_def)
  ultimately show ?thesis by metis
qed

lemma commit_line_inv:
  assumes "console_inv c"
  shows "console_inv (commit_line c)"
  using history_push_inv [OF assms, of "take (line_len c) (line_buf c)"] by (simp add: commit_line_def console_inv_def)

lemma append_char_inv:
  assumes "console_inv c"
  shows "console_inv (append_char ch c)"
proof -
  have bl: "back_lead buf j \<le> j" for buf j by (induction j) auto
  have bs: "console_inv (line_backspace c)"
    using assms bl [of "line_buf c" "line_len c - 1"] by (simp add: line_backspace_def console_inv_def) linarith
  have "console_inv (append_cp ch c)"
    using append_cp_put [of ch c] assms commit_line_inv [OF assms] put_cp_facts(1) by metis
  then show ?thesis using assms commit_line_inv [OF assms] bs by (simp add: append_char_def)
qed

lemma append_text_inv:
  assumes "console_inv c"
  shows "console_inv (append_text t c)"
  using assms
proof (induction t arbitrary: c)
  case (Cons ch t)
  then show ?case using append_char_inv [OF Cons.prems, of ch] Cons.IH [of "append_char ch c"] by (simp add: append_text_def)
qed (simp add: append_text_def)

lemma taken_over_text [simp]: "taken_over (append_text t c) = taken_over c"
proof (induction t arbitrary: c)
  case (Cons ch t)
  have "taken_over (append_char ch c) = taken_over c"
    by (simp add: append_char_def commit_line_def history_push_def line_backspace_def append_cp_def Let_def)
  then show ?case using Cons.IH [of "append_char ch c"] by (simp add: append_text_def)
qed (simp add: append_text_def)

lemma con_print_inv: "console_inv c \<Longrightarrow> console_inv (fst (con_print t (c, lg)))"
  and con_print_taken: "taken_over (fst (con_print t (c, lg))) = taken_over c"
proof -
  have "console_inv (serial_write bs c) = console_inv c" for bs by (simp add: serial_write_def console_inv_def)
  then show "console_inv c \<Longrightarrow> console_inv (fst (con_print t (c, lg)))"
    using append_text_inv [of "serial_write (utf8_text t) c" t] by (simp add: con_print_def Let_def)
  show "taken_over (fst (con_print t (c, lg))) = taken_over c"
    by (simp add: con_print_def Let_def) (simp add: serial_write_def)
qed

section \<open>Quiet arms\<close>

lemma with_kern_kern [simp]: "s_kern (with_kern s k) = k" "with_kern (with_kern s k) k' = with_kern s k'" "with_kern s (s_kern s) = s"
  by (simp_all add: with_kern_def)

lemma q_phys: "quiet_step me s (with_kern s ((s_kern s)\<lparr>k_phys := ph\<rparr>))"
  using q_memory [of me s ph "k_mem (s_kern s)"] by simp

lemma q_mem: "quiet_step me s (with_mem s m)"
  using q_memory [of me s "k_phys (s_kern s)" m] by (simp add: with_mem_def)

lemma q_kwrite:
  assumes "kwrite h v bs (s_kern s) = Inr k"
  shows "quiet_step me s (with_kern s k)"
  using q_phys [of me s "k_phys k"] kwrite_frame [OF assms] by metis

lemma q_on_sched: "on_sched f s = Inr s' \<Longrightarrow> quiet_step me s s'"
  by (auto simp: on_sched_def lift_sched_def bind_res_Inr_iff intro: q_sched)

lemma q_lift_mem: "lift_mem f s = Inr s' \<Longrightarrow> quiet_step me s s'"
  using q_mem by (fastforce simp: lift_mem_def bind_res_Inr_iff with_mem_def with_kern_def)

lemma q_write_message: "write_message h a m s = Inr s' \<Longrightarrow> (quiet_step me)\<^sup>*\<^sup>* s s'"
  using q_kwrite [where me = me] by (auto simp: write_message_def bind_res_Inr_iff split: if_splits intro!: quiet_one)

text \<open>The message operations.\<close>

lemma mail_same: "mail_ok me s (k_boxes (s_kern s))"
  by (simp add: mail_ok_def)

lemma mail_post:
  assumes "unat to < length (k_boxes (s_kern s))"
    and "Some (SendTo to) \<in> set (cap_table (k_caps (s_kern s)) ! unat me) \<and> unat me < length (cap_table (k_caps (s_kern s))) \<or>
      current_reply_target (k_sched (s_kern s)) = Inr to"
  shows "mail_ok me s ((k_boxes (s_kern s))[unat to := k_boxes (s_kern s) ! unat to @ [make_message me to tag p]])"
proof -
  let ?m = "make_message me to tag p"
  have "\<exists>t msg. unat t < length (k_boxes (s_kern s)) \<and>
      (k_boxes (s_kern s))[unat to := k_boxes (s_kern s) ! unat to @ [?m]] = (k_boxes (s_kern s))[unat t := k_boxes (s_kern s) ! unat t @ [msg]] \<and>
      m_from msg = me \<and> length (m_payload msg) = PAYLOAD_LEN \<and>
      (SendTo t \<in> holds s me \<or> current_reply_target (k_sched (s_kern s)) = Inr t)"
    by (rule exI [of _ to], rule exI [of _ ?m]) (use assms in \<open>auto simp: held_iff\<close>)
  then show ?thesis unfolding mail_ok_def Let_def by blast
qed

lemma mail_take:
  assumes "unat me < length (k_boxes (s_kern s))" and "set q \<subseteq> set (k_boxes (s_kern s) ! unat me)"
  shows "mail_ok me s ((k_boxes (s_kern s))[unat me := q])"
  using assms unfolding mail_ok_def Let_def by blast

lemma mail_send:
  assumes "me_of s = Inr me" and "ipc_send to tag p (k_caps (s_kern s)) (k_boxes (s_kern s)) (k_sched (s_kern s)) = Inr (ok, b, sc)"
  shows "mail_ok me s b"
  using assms unfolding me_of_def
  by (auto simp: ipc_send_def bind_res_Inr_iff index_res_Inr_iff mb_push_def cap_has_def mail_same split: if_splits intro!: mail_post)

lemma mail_receive:
  assumes "me_of s = Inr me" and "ipc_receive (k_boxes (s_kern s)) (k_sched (s_kern s)) = Inr (m, b, sc)
      \<or> ipc_try_receive (k_boxes (s_kern s)) (k_sched (s_kern s)) = Inr (m, b, sc)"
  shows "mail_ok me s b"
  using assms unfolding me_of_def
  by (auto simp: ipc_receive_def ipc_try_receive_def bind_res_Inr_iff index_res_Inr_iff mb_pop_def mail_same split: list.splits intro!: mail_take)

lemma mail_call:
  assumes "me_of s = Inr me" and "ipc_call to tag p (k_caps (s_kern s)) (k_boxes (s_kern s)) (k_sched (s_kern s)) = Inr (m, b, sc)"
  shows "mail_ok me s b"
  using assms unfolding me_of_def
  by (auto simp: ipc_call_def bind_res_Inr_iff index_res_Inr_iff cap_has_def mail_same split: if_splits intro!: mail_post)

lemma mail_resume:
  assumes "me_of s = Inr me" and "ipc_call_resume to (k_boxes (s_kern s)) (k_sched (s_kern s)) = Inr (m, b, sc)"
  shows "mail_ok me s b"
  using assms unfolding me_of_def
  by (auto simp: ipc_call_resume_def bind_res_Inr_iff index_res_Inr_iff mail_same split: option.splits if_splits
      intro!: mail_take dest: in_set_takeD in_set_dropD)

lemma mail_reply:
  assumes "me_of s = Inr me" and "ipc_reply tag p (k_boxes (s_kern s)) (k_sched (s_kern s)) = Inr (ok, b, sc)"
  shows "mail_ok me s b"
  using assms unfolding me_of_def
  by (auto simp: ipc_reply_def bind_res_Inr_iff index_res_Inr_iff mail_same split: if_splits intro!: mail_post)

lemma ipc_arms:
  assumes "me_of s = Inr me"
  shows "ans_all (allowed me s) (sys_send h a1 a2 a3 s)" and "ans_all (allowed me s) (sys_recv h a1 s)"
    and "ans_all (allowed me s) (sys_call h a1 a2 a3 s)" and "ans_all (allowed me s) (sys_call_resume a1 s)"
    and "ans_all (allowed me s) (sys_reply a1 s)" and "ans_all (allowed me s) (sys_try_recv h a1 s)"
proof -
  have one: "allowed me s (with_ipc s b sc)" if "mail_ok me s b" for b sc using that by (intro allowed_quiet quiet_one q_mail)
  have two: "allowed me s s'" if "mail_ok me s b" "write_message h a1 m (with_ipc s b sc) = Inr s'" for b sc m s'
    using converse_rtranclp_into_rtranclp [of "quiet_step me", OF q_mail [OF that(1)] q_write_message [OF that(2)]] by (rule allowed_quiet)
  show "ans_all (allowed me s) (sys_send h a1 a2 a3 s)"
    by (auto simp: sys_send_def ans_all_bind Let_def intro!: one mail_send [OF assms])
  show "ans_all (allowed me s) (sys_call h a1 a2 a3 s)"
    by (auto simp: sys_call_def ans_all_bind Let_def split: option.split intro!: one mail_call [OF assms])
  show "ans_all (allowed me s) (sys_call_resume a1 s)"
    by (auto simp: sys_call_resume_def ans_all_bind Let_def split: option.split intro!: one mail_resume [OF assms])
  show "ans_all (allowed me s) (sys_reply a1 s)"
    by (auto simp: sys_reply_def ans_all_bind Let_def intro!: one mail_reply [OF assms])
  show "ans_all (allowed me s) (sys_recv h a1 s)"
    by (auto simp: sys_recv_def ans_all_bind split: option.split intro: one mail_receive [OF assms] two [OF mail_receive [OF assms]])
  show "ans_all (allowed me s) (sys_try_recv h a1 s)"
    by (auto simp: sys_try_recv_def ans_all_bind split: option.split intro: one mail_receive [OF assms] two [OF mail_receive [OF assms]])
qed

text \<open>The other arms that change one part of the state.\<close>

lemma sched_arms:
  "ans_all (allowed me s) (sys_yield s)" "ans_all (allowed me s) (sys_sleep a1 s)" "ans_all (allowed me s) (sys_page_fault_reply s)"
  by (auto simp: sys_yield_def sys_sleep_def sys_page_fault_reply_def ans_all_bind intro!: allowed_quiet quiet_one q_on_sched q_sched)

lemma exit_arm:
  assumes "me_of s = Inr me"
  shows "ans_all (allowed me s) (sys_exit s)"
proof -
  have "allowed me s (with_kern s k)" if k: "exit_current (s_kern s) = Inr k" for k
  proof -
    define k1 where "k1 = (if live_tasks me (k_sched (s_kern s)) \<le> 1 then request_destroy me (s_kern s) else s_kern s)"
    obtain sc where sc: "k = k1\<lparr>k_sched := sc\<rparr>"
      using k assms by (auto simp: exit_current_def me_of_def bind_res_Inr_iff lift_sched_def Let_def k1_def)
    have "(quiet_step me)\<^sup>*\<^sup>* s (with_kern s k1)"
      using q_exit [of me s] by (auto simp: k1_def intro: quiet_one)
    moreover have "quiet_step me (with_kern s k1) (with_kern s k)" using q_sched [of me "with_kern s k1" sc] by (simp add: sc)
    ultimately show ?thesis by (rule allowed_quiet [OF quiet_snoc])
  qed
  then show ?thesis by (simp add: sys_exit_def ans_all_bind)
qed

lemma with_mem_simps [simp]:
  "with_mem (with_mem s m) m' = with_mem s m'" "k_mem (s_kern (with_mem s m)) = m" "k_doms (s_kern (with_mem s m)) = k_doms (s_kern s)"
  by (simp_all add: with_mem_def)

lemma map_counted_mem: "(\<And>m. P (with_mem s m)) \<Longrightarrow> ans_all P (map_counted mp d v p s)"
  by (simp add: map_counted_def ans_all_bind)

lemma allowed_mem: "allowed me s (with_mem s m)"
  by (intro allowed_quiet quiet_one q_mem)

lemma memory_arms:
  assumes "me_of s = Inr me"
  shows "ans_all (allowed me s) (sys_alloc_page mp a1 s)" and "ans_all (allowed me s) (sys_share_page mp a1 a2 s)"
    and "ans_all (allowed me s) (sys_unmap mp a1 s)" and "ans_all (allowed me s) (sys_map_anon mp a1 a2 s)"
    and "ans_all (allowed me s) (sys_map_mmio mp a1 a2 s)" and "ans_all (allowed me s) (sys_virt_to_phys a1 s)"
    and "ans_all (allowed me s) (sys_fb_map mp a1 s)"
proof -
  show "ans_all (allowed me s) (sys_alloc_page mp a1 s)"
    by (auto simp: sys_alloc_page_def ans_all_bind allowed_mem split: option.split intro!: map_counted_mem)
  show "ans_all (allowed me s) (sys_unmap mp a1 s)"
    by (auto simp: sys_unmap_def ans_all_bind allowed_mem split: option.split)
  show "ans_all (allowed me s) (sys_virt_to_phys a1 s)"
    by (auto simp: sys_virt_to_phys_def ans_all_bind)
  show "ans_all (allowed me s) (sys_share_page mp a1 a2 s)"
    unfolding sys_share_page_def
    by (rule ans_all_gated [OF assms])
      (auto simp: ans_all_bind Let_def allowed_mem split: option.split intro!: map_counted_mem)
  show "ans_all (allowed me s) (sys_map_mmio mp a1 a2 s)"
    unfolding sys_map_mmio_def by (rule ans_all_gated [OF assms]) (auto simp: ans_all_bind allowed_mem)
  have "allowed me s (with_mem (with_kern s ((s_kern s)\<lparr>k_mem := m, k_phys := ph\<rparr>)) m')" for m ph m'
  proof -
    have "with_mem (with_kern s ((s_kern s)\<lparr>k_mem := m, k_phys := ph\<rparr>)) m' = with_kern s ((s_kern s)\<lparr>k_mem := m', k_phys := ph\<rparr>)"
      by (simp add: with_mem_def with_kern_def)
    then show ?thesis using q_memory [of me s ph m'] by (metis allowed_quiet quiet_one)
  qed
  then show "ans_all (allowed me s) (sys_map_anon mp a1 a2 s)"
    unfolding sys_map_anon_def by (intro ans_all_gated [OF assms]) (auto split: option.split intro!: map_counted_mem)
  show "ans_all (allowed me s) (sys_fb_map mp a1 s)"
    unfolding sys_fb_map_def
    by (rule ans_all_gated [OF assms]) (auto simp: ans_all_bind Let_def split: option.split intro!: allowed_quiet quiet_one q_lift_mem)
qed

lemma irq_arms:
  assumes "me_of s = Inr me"
  shows "ans_all (allowed me s) (sys_register_irq a1 s)" and "ans_all (allowed me s) (sys_irq_poll a1 s)"
    and "ans_all (allowed me s) (sys_irq_wait a1 a2 s)" and "ans_all (allowed me s) (sys_irq_wait_resume a1 s)"
proof -
  show "ans_all (allowed me s) (sys_register_irq a1 s)"
    unfolding sys_register_irq_def Let_def
    by (rule ans_all_gated [OF assms]) (auto simp: ans_all_bind intro!: allowed_quiet quiet_one q_irq q_vector)
  have take: "quiet_step me s (with_irqs s q)" if "take_pending_any a1 me (k_irqs (s_kern s)) = (v, q)" for s v q
    using q_take [of me s a1] that by simp
  show "ans_all (allowed me s) (sys_irq_poll a1 s)"
    using assms by (auto simp: sys_irq_poll_def ans_all_bind split: prod.split dest: take intro!: allowed_quiet quiet_one)
  have w: "with_irqs (with_irqs s q) q' = with_irqs s q'" "k_irqs (s_kern (with_irqs s q)) = q" for q q'
    by (simp_all add: with_irqs_def)
  have mask: "(quiet_step me)\<^sup>*\<^sup>* s (with_irqs s q')" if "take_pending_any a1 me (k_irqs (s_kern s)) = (v, q)" "set_any_mask me a1 q = (ok, q')" for v q ok q'
    using take [OF that(1)] q_mask [of me "with_irqs s q" a1] that(2) by (simp add: w quiet_two)
  show "ans_all (allowed me s) (sys_irq_wait a1 a2 s)"
    using assms
    by (auto simp: sys_irq_wait_def ans_all_bind split: prod.split option.split
        intro!: allowed_quiet intro: quiet_one [OF take] mask quiet_snoc [OF mask q_on_sched])
  have "(quiet_step me)\<^sup>*\<^sup>* s (with_irqs s q)" if "take_pending_any a1 me (clear_any_mask me (k_irqs (s_kern s))) = (v, q)" for v q
    using q_unmask [of me s] take [of "with_irqs s (clear_any_mask me (k_irqs (s_kern s)))"] that by (simp add: w quiet_two)
  then show "ans_all (allowed me s) (sys_irq_wait_resume a1 s)"
    using assms by (auto simp: sys_irq_wait_resume_def ans_all_bind split: prod.split intro!: allowed_quiet)
qed

lemma device_arms:
  assumes "me_of s = Inr me"
  shows "ans_all (allowed me s) (sys_msix_enable h s)" and "ans_all (allowed me s) (sys_device_config_read h a1 s)"
    and "ans_all (allowed me s) (sys_port_in8 h a1 s)" and "ans_all (allowed me s) (sys_port_in16 h a1 s)"
    and "ans_all (allowed me s) (sys_port_out8 a1 a2 s)" and "ans_all (allowed me s) (sys_port_out16 a1 a2 s)"
    and "ans_all (allowed me s) (sys_device_info h a1 s)" and "ans_all (allowed me s) (sys_device_grant a1 s)"
    and "ans_all (allowed me s) (sys_pci_info h a1 a2 s)"
proof -
  show "ans_all (allowed me s) (sys_msix_enable h s)"
    using q_msix [OF assms] by (auto simp: sys_msix_enable_def ans_all_bind intro!: allowed_quiet quiet_one)
  show "ans_all (allowed me s) (sys_port_out8 a1 a2 s)" "ans_all (allowed me s) (sys_port_out16 a1 a2 s)"
    using assms by (auto simp: sys_port_out8_def sys_port_out16_def port_gate_def ans_all_bind intro!: allowed_quiet quiet_one q_out8 q_out16)
  have "quiet_step me s (with_kern s k) \<or> k = s_kern s" if "pci_syscall_info h a1 a2 (s_pci s) (s_kern s) = Inr (v, k)" for v k
    using that q_kwrite [of h a2 _ s] by (auto simp: pci_syscall_info_def bind_res_Inr_iff split: if_splits option.splits)
  then show "ans_all (allowed me s) (sys_pci_info h a1 a2 s)"
    by (auto simp: sys_pci_info_def ans_all_bind intro!: allowed_quiet)
qed (use assms in \<open>auto simp: sys_device_config_read_def sys_port_in8_def sys_port_in16_def sys_device_info_def sys_device_grant_def
    port_gate_def ans_all_bind\<close>)

lemma console_arms:
  assumes "me_of s = Inr me"
  shows "ans_all (allowed me s) (sys_puts h a1 a2 s)" and "ans_all (allowed me s) (sys_clear s)"
    and "ans_all (allowed me s) (sys_fb_info h a1 s)" and "ans_all (allowed me s) (sys_fb_takeover s)"
    and "ans_all (allowed me s) (sys_console_ready s)" and "ans_all (allowed me s) (sys_console_scroll a1 s)"
proof -
  have con: "quiet_step me s (with_con s c)" if "console_inv (s_con s) \<Longrightarrow> console_inv c" "taken_over c = taken_over (s_con s)" for s c
    using that by (rule q_console)
  have "(quiet_step me)\<^sup>*\<^sup>* s (with_con (with_kern s ((s_kern s)\<lparr>k_log := lg\<rparr>)) c)" if "con_print t (s_con s, l) = (c, lg)" for t l c lg
  proof (rule quiet_two [OF q_log con])
    show "console_inv c" if "console_inv (s_con (with_kern s ((s_kern s)\<lparr>k_log := lg\<rparr>)))"
      using that con_print_inv [of "s_con s" t l] \<open>con_print t (s_con s, l) = (c, lg)\<close> by (simp add: with_kern_def)
    show "taken_over c = taken_over (s_con (with_kern s ((s_kern s)\<lparr>k_log := lg\<rparr>)))"
      using con_print_taken [of t "s_con s" l] that by (simp add: with_kern_def)
  qed
  then show "ans_all (allowed me s) (sys_puts h a1 a2 s)"
    by (auto simp: sys_puts_def ans_all_bind split: option.split prod.split intro!: allowed_quiet)
  show "ans_all (allowed me s) (sys_clear s)"
    by (auto simp: sys_clear_def clear_screen_def console_inv_def intro!: allowed_quiet quiet_one con)
  show "ans_all (allowed me s) (sys_console_scroll a1 s)"
    by (auto simp: sys_console_scroll_def scroll_up_def scroll_down_def console_inv_def intro!: allowed_quiet quiet_one con)
  show "ans_all (allowed me s) (sys_fb_takeover s)"
    unfolding sys_fb_takeover_def by (rule ans_all_gated [OF assms]) (auto intro!: allowed_quiet quiet_one q_takeover)
  show "ans_all (allowed me s) (sys_fb_info h a1 s)"
    unfolding sys_fb_info_def by (rule ans_all_gated [OF assms]) (auto simp: ans_all_bind intro!: allowed_quiet quiet_one q_kwrite)
qed (simp add: sys_console_ready_def)

lemma key_arms:
  "ans_all (allowed me s) (sys_key_push a1 s)" "ans_all (allowed me s) (sys_key_read s)" "ans_all (allowed me s) (sys_key_try_read s)"
proof -
  let ?k = "(s_kern s)\<lparr>k_keys := snd (kq_push (ucast a1) (k_keys (s_kern s)))\<rparr>"
  have a: "quiet_step me s (with_con s (scroll_to_bottom (s_con s)))"
    by (rule q_console) (simp_all add: scroll_to_bottom_def console_inv_def)
  have b: "quiet_step me (with_con s c) (with_kern (with_con s c) ?k)" for c
    using q_push [of me "with_con s c" "ucast a1"] by (simp add: with_con_def)
  have c: "quiet_step me (with_kern (with_con s c) ?k) (with_kern (with_con s c) (key_push (ucast a1) (s_kern s)))" for c
    using q_sched [of me "with_kern (with_con s c) ?k" "wake_one KEY_WAIT (k_sched (s_kern s))"] by (simp add: key_push_def)
  show "ans_all (allowed me s) (sys_key_push a1 s)"
    using quiet_snoc [OF quiet_two [OF a b] c] by (simp add: sys_key_push_def allowed_quiet)
  have pop: "quiet_step me s (with_kern s ((s_kern s)\<lparr>k_keys := q\<rparr>))" if "kq_pop (k_keys (s_kern s)) = (c, q)" for c q
    using q_pop [of me s] that by simp
  show "ans_all (allowed me s) (sys_key_read s)" "ans_all (allowed me s) (sys_key_try_read s)"
    by (auto simp: sys_key_read_def sys_key_try_read_def ans_all_bind split: prod.split option.split
        intro!: allowed_quiet quiet_one intro: pop q_on_sched)
qed

lemma query_arms:
  assumes "me_of s = Inr me"
  shows "ans_all (allowed me s) (sys_net_bind a1 s)" and "ans_all (allowed me s) (sys_net_owner a1 s)"
    and "ans_all (allowed me s) (sys_log_total s)" and "ans_all (allowed me s) (sys_log_oldest s)"
    and "ans_all (allowed me s) (sys_log_read h a1 a2 a3 s)" and "ans_all (allowed me s) (uname_handle h b a1 a2 a3 s)"
    and "ans_all (allowed me s) (sys_domain_alive a1 s)" and "ans_all (allowed me s) (sys_domain_count s)"
    and "ans_all (allowed me s) (sys_frame_free s)" and "ans_all (allowed me s) (sys_cap_lookup a1 s)"
    and "ans_all (allowed me s) (sys_cap_audit a1 a2 s)"
proof -
  have "quiet_step me s (with_kern s ((s_kern s)\<lparr>k_binds := b'\<rparr>))"
    if "net_bind me port (k_caps (s_kern s)) (k_binds (s_kern s)) = (ok, b')" for port ok b'
    using q_bind [of me s port] that by simp
  then show "ans_all (allowed me s) (sys_net_bind a1 s)"
    using assms by (auto simp: sys_net_bind_def ans_all_bind split: prod.split intro!: allowed_quiet quiet_one)
  show "ans_all (allowed me s) (sys_log_read h a1 a2 a3 s)"
    by (auto simp: sys_log_read_def ans_all_bind split: prod.split option.split intro!: allowed_quiet quiet_one q_kwrite)
  show "ans_all (allowed me s) (uname_handle h b a1 a2 a3 s)"
    by (auto simp: uname_handle_def ans_all_bind Let_def split: option.split intro!: allowed_quiet quiet_one q_kwrite)
  show "ans_all (allowed me s) (sys_cap_audit a1 a2 s)"
    unfolding sys_cap_audit_def by (rule ans_all_gated [OF assms]) auto
qed (auto simp: sys_net_owner_def sys_log_total_def sys_log_oldest_def sys_domain_alive_def sys_domain_count_def sys_frame_free_def
    sys_cap_lookup_def ans_all_bind)

lemma power_arms:
  assumes "me_of s = Inr me"
  shows "ans_all (allowed me s) (sys_poweroff h info s)" and "ans_all (allowed me s) (sys_reboot s)"
proof -
  show "ans_all (allowed me s) (sys_poweroff h info s)"
    unfolding sys_poweroff_def by (rule ans_all_gated [OF assms]) (auto simp: ans_all_bind intro!: allowed_quiet quiet_one q_power)
  show "ans_all (allowed me s) (sys_reboot s)"
    unfolding sys_reboot_def by (rule ans_all_gated [OF assms]) (auto intro!: allowed_quiet quiet_one q_power)
qed

section \<open>Arms on capabilities and domains\<close>

lemma cap_arms:
  assumes "me_of s = Inr me"
  shows "ans_all (allowed me s) (sys_cap_issue a1 s)" and "ans_all (allowed me s) (sys_cap_drop a1 s)"
    and "ans_all (allowed me s) (sys_handle_send a1 a2 s)" and "ans_all (allowed me s) (sys_cap_send a1 a2 a3 s)"
proof -
  note L = l_issue [of me s a1] l_drop [of me s a1] l_move [of a1 s me a2] l_delegate [of a1 s me]
  show "ans_all (allowed me s) (sys_cap_issue a1 s)" "ans_all (allowed me s) (sys_cap_drop a1 s)"
    using assms L(1,2) by (auto simp: sys_cap_issue_def sys_cap_drop_def ans_all_bind split: prod.split intro!: allowed_loud)
  show "ans_all (allowed me s) (sys_handle_send a1 a2 s)"
    unfolding sys_handle_send_def by (rule ans_all_gated [OF assms]) (use L(3) in \<open>auto split: prod.split intro!: allowed_loud\<close>)
  have "loud_step me s (with_caps s cs)" if "SendTo a1 \<in> holds s me" "cap_delegate me a1 c (k_caps (s_kern s)) = (ok, cs)" for c ok cs
    using L(4) [OF that(1), of c] that(2) by simp
  then show "ans_all (allowed me s) (sys_cap_send a1 a2 a3 s)"
    unfolding sys_cap_send_def by (intro ans_all_gated [OF assms]) (auto split: prod.split option.split intro!: allowed_loud)
qed

lemma build_program_frame:
  assumes "build_program mp kst img elf d k = Inr (b, k')"
  obtains m ph sc where "k' = k\<lparr>k_mem := m, k_phys := ph, k_sched := sc\<rparr>"
proof -
  obtain mapped m ph where mi: "map_image mp (k_doms k) img elf d (k_mem k, k_phys k) = Inr (mapped, m, ph)"
    using assms by (auto simp: build_program_def bind_res_Inr_iff)
  have "k' = k\<lparr>k_mem := m, k_phys := ph, k_sched := k_sched k\<rparr> \<or> (\<exists>sc. k' = k\<lparr>k_mem := m, k_phys := ph, k_sched := sc\<rparr>)"
    using assms mi by (cases mapped) (auto simp: build_program_def bind_res_Inr_iff Let_def)
  then show thesis using that by blast
qed

lemma build_program_quiet:
  assumes "build_program mp kst img elf d (s_kern s) = Inr (b, k)"
  shows "(quiet_step me)\<^sup>*\<^sup>* s (with_kern s k)"
proof -
  obtain m ph sc where k: "k = (s_kern s)\<lparr>k_mem := m, k_phys := ph, k_sched := sc\<rparr>" by (rule build_program_frame [OF assms])
  show ?thesis using quiet_two [OF q_memory [of me s ph m], of "with_kern s k"] q_sched [of me "with_kern s ((s_kern s)\<lparr>k_mem := m, k_phys := ph\<rparr>)" sc]
    by (simp add: k)
qed

lemma restart_quiet:
  assumes "Spawn \<in> holds s me"
  shows "ans_all (allowed me s) (restart_in_place mp kst d img s)"
proof -
  let ?k = "s_kern s" and ?k1 = "snd (domain_reset d (s_kern s))"
  let ?b = "ipc_remove_domain d (k_boxes ?k1)" and ?sc = "snd (reap_terminated d (k_sched ?k1))"
  let ?k2 = "?k1\<lparr>k_boxes := ?b, k_sched := ?sc\<rparr>"
  have k1: "?k1 = ?k\<lparr>k_mem := k_mem ?k1\<rparr>" by (simp add: domain_reset_def split: option.split)
  have "(quiet_step me)\<^sup>*\<^sup>* s (with_kern s k3)"
    if "live_tasks d (k_sched ?k) = 0" "spawn_elf_at mp kst d img ?k2 = Inr (ok, k3)" for ok k3
  proof -
    have a: "quiet_step me s (with_kern s ?k1)" using q_mem [of me s "k_mem ?k1"] k1 by (metis with_mem_def)
    have h: "k_caps ?k1 = k_caps ?k" "k_sched ?k1 = k_sched ?k" using k1 by (metis kernel_state.select_convs(1) kernel_state.surjective kernel_state.update_convs(2),
        metis kernel_state.select_convs(9) kernel_state.surjective kernel_state.update_convs(2))
    have b: "quiet_step me (with_kern s ?k1) (with_kern s (?k1\<lparr>k_boxes := ?b\<rparr>))"
      using q_drain [of "with_kern s ?k1" me d] assms that(1) h by simp
    have c: "quiet_step me (with_kern s (?k1\<lparr>k_boxes := ?b\<rparr>)) (with_kern s ?k2)"
      using q_sched [of me "with_kern s (?k1\<lparr>k_boxes := ?b\<rparr>)" ?sc] by simp
    have d: "(quiet_step me)\<^sup>*\<^sup>* (with_kern s ?k2) (with_kern s k3)"
      using that(2) build_program_quiet [of mp kst img _ d "with_kern s ?k2"]
      by (auto simp: spawn_elf_at_def split: option.splits if_splits)
    show ?thesis using quiet_snoc [OF quiet_two [OF a b] c] d by (rule rtranclp_trans)
  qed
  then show ?thesis by (auto simp: restart_in_place_def Let_def ans_all_bind intro!: allowed_quiet)
qed

lemma process_arms:
  assumes "me_of s = Inr me"
  shows "ans_all (allowed me s) (sys_spawn_elf mp h kst a1 a2 s)" and "ans_all (allowed me s) (sys_spawn_elf_at mp h kst a1 a2 a3 s)"
    and "ans_all (allowed me s) (sys_spawn_elf_module mp info kst a1 s)" and "ans_all (allowed me s) (sys_domain_destroy a1 s)"
proof -
  show "ans_all (allowed me s) (sys_spawn_elf mp h kst a1 a2 s)"
    unfolding sys_spawn_elf_def
    by (rule ans_all_gated [OF assms]) (auto simp: ans_all_bind split: option.split intro!: allowed_loud l_spawn)
  show "ans_all (allowed me s) (sys_spawn_elf_at mp h kst a1 a2 a3 s)"
    unfolding sys_spawn_elf_at_def
    by (rule ans_all_gated [OF assms]) (auto simp: ans_all_bind restart_quiet split: option.split)
  show "ans_all (allowed me s) (sys_spawn_elf_module mp info kst a1 s)"
    unfolding sys_spawn_elf_module_def
    by (rule ans_all_gated [OF assms]) (auto simp: ans_all_bind restart_quiet split: option.split)
  have "loud_step me s (with_kern s k)"
    if "Spawn \<in> holds s me" "pager_of (k_pagers (s_kern s)) a1 = Some me" "domain_destroy a1 (s_kern s) = (ok, k)" for ok k
    using l_destroy [OF that(1,2)] that(3) by simp
  then show "ans_all (allowed me s) (sys_domain_destroy a1 s)"
    unfolding sys_domain_destroy_def by (intro ans_all_gated [OF assms]) (auto split: prod.split intro!: allowed_loud)
qed

lemmas syscall_arms = ipc_arms exit_arm memory_arms irq_arms device_arms console_arms query_arms power_arms cap_arms process_arms

lemma dispatch_allowed:
  assumes "me_of s = Inr me"
  shows "ans_all (allowed me s) (syscall_dispatch w num a1 a2 a3 s)"
proof -
  have "list_all (\<lambda>(n, f). ans_all (allowed me s) (f a1 a2 a3 s)) (syscall_table w)"
    unfolding syscall_table_def by (simp add: syscall_arms [OF assms] sched_arms key_arms)
  then have "ans_all (allowed me s) (f a1 a2 a3 s)" if "map_of (syscall_table w) num = Some f" for f
    using map_of_SomeD [OF that] by (auto simp: list_all_iff)
  then show ?thesis by (auto simp: syscall_dispatch_def split: option.split)
qed

section \<open>What steps keep\<close>

lemma with_simps [simp]:
  "s_kern (with_con s c) = s_kern s" "s_con (with_con s c) = c" "s_con (with_kern s k) = s_con s" "s_io (with_kern s k) = s_io s"
  "s_io (with_con s c) = s_io s" "s_kern (emit evs s) = s_kern s" "s_con (emit evs s) = s_con s"
  by (simp_all add: with_con_def with_kern_def emit_def)

lemma enable_msix_frame:
  assumes "me_of s = Inr me" and "enable_msix h s = Inr (ok, s')"
  shows "s_kern s' = s_kern s" and "s_con s' = s_con s" and "\<forall>p \<in> set (dv_msix (s_dev s)). mp_domain p \<noteq> me \<Longrightarrow> s' = s"
  using assms by (auto simp: enable_msix_def me_of_def emit_def Let_def find_index_Some_iff split: option.splits)

lemma request_destroy_frame [simp]:
  "k_caps (request_destroy d k) = k_caps k" "k_doms (request_destroy d k) = k_doms k" "k_pagers (request_destroy d k) = k_pagers k"
  "k_irqs (request_destroy d k) = k_irqs k" "k_keys (request_destroy d k) = k_keys k" "k_binds (request_destroy d k) = k_binds k"
  "k_boxes (request_destroy d k) = k_boxes k"
  by (simp_all add: request_destroy_def)

lemma quiet_frame:
  assumes "quiet_step me s s'"
  shows "k_caps (s_kern s') = k_caps (s_kern s) \<and> k_doms (s_kern s') = k_doms (s_kern s) \<and> k_pagers (s_kern s') = k_pagers (s_kern s)"
  using assms by cases (auto simp: with_ipc_def with_irqs_def enable_msix_frame)

lemma quiet_frames:
  assumes "(quiet_step me)\<^sup>*\<^sup>* s s'"
  shows "k_caps (s_kern s') = k_caps (s_kern s)" and "k_doms (s_kern s') = k_doms (s_kern s)" and "k_pagers (s_kern s') = k_pagers (s_kern s)"
  using assms by (induction rule: rtranclp_induct) (auto dest: quiet_frame)

abbreviation exec_caps :: "capability set" where
  "exec_caps \<equiv> {SendTo MOUNT_SRV_DOMAIN, SendTo MFS_SRV_DOMAIN, MapInto MFS_SRV_DOMAIN}"

lemma destroy_caps: "k_caps (snd (domain_destroy d k)) = k_caps k \<or> k_caps (snd (domain_destroy d k)) = cap_remove_domain d (k_caps k)"
  by (simp add: domain_destroy_def split: option.splits)

lemma spawn_elf_caps:
  assumes "spawn_elf mp kst img l k = Inr (r, k')" and "length (k_doms k) < 2 ^ 64"
    and "c \<in> held (k_caps k') e"
  shows "c \<in> held (k_caps k) e \<or> \<not> is_alive (k_doms k) e \<and> c \<in> exec_caps"
proof (cases "\<exists>d k1. domain_create k = Inr (d, k1)")
  case False
  then have "k' = k" using assms(1) by (auto simp: spawn_elf_def bind_res_Inr_iff split: option.splits if_splits)
  then show ?thesis using assms(3) by simp
next
  case True
  then obtain d k1 where c: "domain_create k = Inr (d, k1)" by blast
  obtain caps where g: "grant_all d [SendTo MOUNT_SRV_DOMAIN, SendTo MFS_SRV_DOMAIN, MapInto MFS_SRV_DOMAIN] (cap_add_domain d (k_caps k1)) = Inr caps"
      and h: "\<forall>e. held caps e = (if e = d then exec_caps else held (k_caps k1) e)"
    using grant_fresh_domain [of d "k_caps k1"] by blast
  have "k' = k \<or> (\<exists>k3. k_caps k3 = caps \<and> (k' = k3 \<or> k' = snd (domain_destroy d k3)))"
    using assms(1) c g
    by (auto simp: spawn_elf_def bind_res_Inr_iff Let_def split: option.splits if_splits dest!: build_program_Inr(1))
  then show ?thesis
  proof
    assume "\<exists>k3. k_caps k3 = caps \<and> (k' = k3 \<or> k' = snd (domain_destroy d k3))"
    then have "k_caps k' = caps \<or> k_caps k' = cap_remove_domain d caps" using destroy_caps by metis
    then have "held (k_caps k') e \<subseteq> (if e = d then exec_caps else held (k_caps k) e)"
      using h domain_create_frame(4) [OF c] by (auto simp: held_remove_domain split: if_splits)
    then show ?thesis using assms(3) domain_create_alive(1) [OF c assms(2)] by (cases "e = d") auto
  qed (use assms(3) in simp)
qed

section \<open>Confinement of authority\<close>

text \<open>
  C90: no system call creates authority. If after a call some domain holds a capability, it held it
  before, or the caller held that capability and a \<open>SendTo\<close> for that domain, or the caller holds \<open>Spawn\<close>, the
  domain did not exist before and the capability is one of the three every loaded program gets. The domain
  table changes only for callers that hold \<open>Spawn\<close>.
\<close>

theorem syscall_authority:
  assumes "me_of s = Inr me" and "syscall_dispatch w num a1 a2 a3 s = Inr (v, s')" and "length (k_doms (s_kern s)) < 2 ^ 64"
  shows "(\<forall>e c. c \<in> held (k_caps (s_kern s')) e \<longrightarrow> c \<in> held (k_caps (s_kern s)) e \<or>
      c \<in> held (k_caps (s_kern s)) me \<and> SendTo e \<in> held (k_caps (s_kern s)) me \<or>
      Spawn \<in> held (k_caps (s_kern s)) me \<and> \<not> is_alive (k_doms (s_kern s)) e \<and>
        c \<in> {SendTo MOUNT_SRV_DOMAIN, SendTo MFS_SRV_DOMAIN, MapInto MFS_SRV_DOMAIN}) \<and>
    (k_doms (s_kern s') = k_doms (s_kern s) \<or> Spawn \<in> held (k_caps (s_kern s)) me)"
proof -
  let ?P = "\<lambda>s'. (\<forall>e c. c \<in> holds s' e \<longrightarrow> c \<in> holds s e \<or> c \<in> holds s me \<and> SendTo e \<in> holds s me \<or>
      Spawn \<in> holds s me \<and> \<not> is_alive (k_doms (s_kern s)) e \<and> c \<in> exec_caps) \<and> (k_doms (s_kern s') = k_doms (s_kern s) \<or> Spawn \<in> holds s me)"
  have "allowed me s s'" using dispatch_allowed [OF assms(1)] assms(2) by (simp add: ans_all_def)
  then have "(quiet_step me)\<^sup>*\<^sup>* s s' \<or> loud_step me s s'" by (simp add: allowed_def)
  then have "?P s'"
  proof
    assume "(quiet_step me)\<^sup>*\<^sup>* s s'"
    from quiet_frames [OF this] show ?thesis by simp
  next
    assume "loud_step me s s'"
    then show ?thesis
    proof cases
      case (l_delegate to c)
      then show ?thesis using cap_delegate_ok_held [of me to c "k_caps (s_kern s)"] by (auto simp: with_caps_def held_delegate split: if_splits)
    next
      case (l_spawn mp kst img d k)
      with spawn_elf_caps [OF l_spawn(3) assms(3)] show ?thesis by auto
    next
      case (l_destroy d)
      then show ?thesis using destroy_caps [of d "s_kern s"] by (auto simp: held_remove_domain split: if_splits)
    qed (auto simp: with_caps_def held_def)
  qed
  then show ?thesis by simp
qed

text \<open>A state with two tasks in which domain 0 may send to domain 2.\<close>

definition w_world :: world where
  "w_world = \<lparr>wd_map = ref_mapper, wd_hw = w_hw, wd_info = w_boot,
     wd_build = \<lparr>b_nogui = False, b_install = False, b_safe = False, b_build = []\<rparr>, wd_kstack = 0x9000\<rparr>"

definition w_caller :: sys where
  "w_caller = (w_sys [])\<lparr>s_kern := (w_kernel 0x1000 3 [] (w_sched False))\<lparr>k_caps := w_send_caps\<rparr>\<rparr>"

lemma w_caller_facts:
  "me_of w_caller = Inr 0" "k_caps (s_kern w_caller) = w_send_caps" "held (k_caps (s_kern w_caller)) d = (if d = 0 then {SendTo 2} else {})" "length (k_doms (s_kern w_caller)) < 2 ^ 64"
  by (simp_all add: me_of_def w_caller_def current_domain_task w_send_held)

lemmas sys_numbers =
  SYS_YIELD_def SYS_SLEEP_def SYS_SEND_def SYS_RECV_def SYS_PUTS_def SYS_EXIT_def SYS_ALLOC_PAGE_def SYS_SHARE_PAGE_def
  SYS_UNMAP_def SYS_MAP_ANON_def SYS_PAGE_FAULT_REPLY_def SYS_CALL_def SYS_REPLY_def SYS_REGISTER_IRQ_def SYS_MAP_MMIO_def
  SYS_PORT_IN8_def SYS_PORT_IN16_def SYS_PORT_OUT8_def SYS_PORT_OUT16_def SYS_VIRT_TO_PHYS_def SYS_CLEAR_def
  SYS_CAP_ISSUE_def SYS_CAP_LOOKUP_def SYS_CAP_DROP_def SYS_HANDLE_SEND_def SYS_CAP_SEND_def SYS_IRQ_POLL_def
  SYS_MSIX_ENABLE_def SYS_IRQ_WAIT_def SYS_SPAWN_ELF_def SYS_DOMAIN_DESTROY_def SYS_DOMAIN_COUNT_def SYS_FRAME_FREE_def
  SYS_SPAWN_ELF_AT_def SYS_DOMAIN_ALIVE_def SYS_SPAWN_ELF_MODULE_def SYS_FB_INFO_def SYS_FB_MAP_def SYS_FB_TAKEOVER_def
  SYS_CONSOLE_READY_def SYS_KEY_PUSH_def SYS_KEY_READ_def SYS_DEVICE_CONFIG_READ_def SYS_UNAME_def SYS_DEVICE_INFO_def
  SYS_DEVICE_GRANT_def SYS_CAP_AUDIT_def SYS_TRY_RECV_def SYS_NET_BIND_def SYS_NET_OWNER_def SYS_LOG_TOTAL_def
  SYS_LOG_READ_def SYS_PCI_INFO_def SYS_POWEROFF_def SYS_REBOOT_def SYS_KEY_TRY_READ_def SYS_CONSOLE_SCROLL_def
  SYS_LOG_OLDEST_def

lemma w_delegates: "\<exists>s'. syscall_dispatch w_world 33 2 CAP_KIND_SEND_TO 2 w_caller = Inr (Some 1, s') \<and> SendTo 2 \<in> held (k_caps (s_kern s')) 2"
proof -
  have t: "syscall_dispatch w_world 33 = sys_cap_send" by (simp add: fun_eq_iff syscall_dispatch_def syscall_table_def sys_numbers)
  have h: "has_cap 0 (SendTo 2) w_caller = Inr True" by (simp add: has_cap_def cap_has_def w_caller_def w_send_caps_def)
  have "find_index (\<lambda>s. s = None) (replicate 32 (None :: capability option)) = Some 0" by (simp add: find_index_Some_iff)
  then have c: "fst (cap_delegate 0 2 (SendTo 2) w_send_caps)"
    by (simp add: cap_delegate_def w_send_caps_def vec_get_def CAP_SLOTS_def insert_first_def)
  let ?s = "with_caps w_caller (snd (cap_delegate 0 2 (SendTo 2) w_send_caps))"
  have "SendTo 2 \<in> held (k_caps (s_kern ?s)) 2" using c by (simp add: with_caps_def held_delegate)
  moreover have "sys_cap_send 2 CAP_KIND_SEND_TO 2 w_caller = Inr (Some 1, ?s)"
    using c h by (simp add: sys_cap_send_def gated_def w_caller_facts decode_def of_flag_def ret_def case_prod_beta)
  ultimately show ?thesis unfolding t by blast
qed

theorem syscall_authority_witness:
  "\<exists>s'. syscall_dispatch w_world 33 2 CAP_KIND_SEND_TO 2 w_caller = Inr (Some 1, s') \<and> SendTo 2 \<in> held (k_caps (s_kern s')) 2 \<and>
     Spawn \<notin> held (k_caps (s_kern s')) 1 \<and> k_doms (s_kern s') = k_doms (s_kern w_caller)"
proof -
  obtain s' where s: "syscall_dispatch w_world 33 2 CAP_KIND_SEND_TO 2 w_caller = Inr (Some 1, s')" "SendTo 2 \<in> held (k_caps (s_kern s')) 2"
    using w_delegates by blast
  note A = syscall_authority [OF w_caller_facts(1) s(1) w_caller_facts(4)]
  have "Spawn \<notin> held (k_caps (s_kern s')) 1" using conjunct1 [OF A, rule_format, of Spawn 1] by (auto simp: w_caller_facts w_send_held)
  then show ?thesis using A s by (auto simp: w_caller_facts w_send_held)
qed

section \<open>The kernel state stays well formed\<close>

definition kern_wf :: "kernel_state \<Rightarrow> bool" where
  "kern_wf k \<longleftrightarrow> cap_wf (k_caps k) \<and> irq_wf (k_irqs k) \<and> kq_inv (k_keys k) \<and> binds_wf (k_binds k) \<and>
     (\<forall>box \<in> set (k_boxes k). \<forall>msg \<in> set box. length (m_payload msg) = PAYLOAD_LEN)"

definition sys_wf :: "sys \<Rightarrow> bool" where
  "sys_wf s \<longleftrightarrow> kern_wf (s_kern s) \<and> console_inv (s_con s)"

lemma mail_ok_payloads:
  assumes "mail_ok me s b" and "\<forall>box \<in> set (k_boxes (s_kern s)). \<forall>msg \<in> set box. length (m_payload msg) = PAYLOAD_LEN"
  shows "\<forall>box \<in> set b. \<forall>msg \<in> set box. length (m_payload msg) = PAYLOAD_LEN"
proof -
  let ?old = "k_boxes (s_kern s)" and ?ok = "\<lambda>box. \<forall>msg \<in> set box. length (m_payload msg) = PAYLOAD_LEN"
  from assms(1) have "b = ?old \<or> (\<exists>q. unat me < length ?old \<and> b = ?old[unat me := q] \<and> set q \<subseteq> set (?old ! unat me)) \<or>
      (\<exists>(to :: u64) msg. unat to < length ?old \<and> b = ?old[unat to := ?old ! unat to @ [msg]] \<and> length (m_payload msg) = PAYLOAD_LEN)"
    unfolding mail_ok_def Let_def by blast
  then show ?thesis
  proof (elim disjE exE conjE)
    fix q assume q: "unat me < length ?old" "b = ?old[unat me := q]" "set q \<subseteq> set (?old ! unat me)"
    have "?ok q" using assms(2) q(1,3) nth_mem by blast
    then show ?thesis unfolding q(2) by (rule set_update_all [OF assms(2), of q])
  next
    fix to :: u64 and msg assume q: "unat to < length ?old" "b = ?old[unat to := ?old ! unat to @ [msg]]" "length (m_payload msg) = PAYLOAD_LEN"
    have "?ok (?old ! unat to @ [msg])" using assms(2) q(1,3) by auto
    then show ?thesis unfolding q(2) by (rule set_update_all [OF assms(2)])
  qed (use assms(2) in simp)
qed

lemma set_row_payloads:
  assumes "\<forall>box \<in> set b. \<forall>msg \<in> set box. length (m_payload msg) = PAYLOAD_LEN"
  shows "\<forall>box \<in> set (ipc_remove_domain d b). \<forall>msg \<in> set box. length (m_payload msg) = PAYLOAD_LEN"
proof -
  have "set (ipc_remove_domain d b) \<subseteq> set b \<union> {[]}"
    using set_row_elems [of "unat d" "[]" "[]" b] by (auto simp: ipc_remove_domain_def set_mailbox_def)
  then show ?thesis using assms by fastforce
qed

lemma kq_inv_ops: "kq_inv q \<Longrightarrow> kq_inv (snd (kq_push c q))" "kq_inv q \<Longrightarrow> kq_inv (snd (kq_pop q))"
  using keys.inv_push keys.inv_pop by auto

lemma quiet_wf:
  assumes "quiet_step me s s'" and "me \<noteq> U64_MAX" and "sys_wf s"
  shows "sys_wf s'"
  using assms(1)
proof cases
  case (q_mail b sc)
  then show ?thesis using assms(3) mail_ok_payloads [OF q_mail(2)] by (simp add: sys_wf_def kern_wf_def with_ipc_def)
next
  case (q_drain d)
  then show ?thesis using assms(3) set_row_payloads [of "k_boxes (s_kern s)" d] by (simp add: sys_wf_def kern_wf_def)
next
  case (q_irq irq q)
  then show ?thesis using assms(3) irq_wf_preserved(1) by (auto simp: sys_wf_def kern_wf_def with_irqs_def)
next
  case (q_bind port)
  then show ?thesis using assms(2,3) binds_wf_bind by (auto simp: sys_wf_def kern_wf_def)
next
  case (q_msix h ok)
  then show ?thesis using assms(3) enable_msix_frame [OF q_msix] by (simp add: sys_wf_def)
next
  case q_takeover
  have "console_inv (take_over c) = console_inv c" for c by (simp add: take_over_def console_inv_def)
  then show ?thesis using assms(3) q_takeover by (simp add: sys_wf_def)
qed (use assms(3) in \<open>simp_all add: sys_wf_def kern_wf_def with_irqs_def irq_wf_preserved kq_inv_ops\<close>)

lemma cap_grant_wf:
  assumes "cap_wf cs" and "cap_grant d c cs = Inr (ok, cs')"
  shows "cap_wf cs'"
proof -
  have d: "unat d < length (cap_table cs)" using assms(2) by (auto simp: cap_grant_def bind_res_Inr_iff index_res_Inr_iff)
  then have "length (cap_table cs ! unat d) = CAP_SLOTS" using assms(1) by (simp add: cap_wf_def list_all_length)
  then show ?thesis using assms d cap_wf_cap_update [OF assms(1)]
    by (auto simp: cap_grant_def insert_first_Some_iff split: option.splits)
qed

lemma grant_all_wf: "cap_wf cs \<Longrightarrow> grant_all d caps cs = Inr cs' \<Longrightarrow> cap_wf cs'"
  unfolding grant_all_def
  by (rule fold_bind_inv [where P = cap_wf]) (auto simp: bind_res_Inr_iff dest: cap_grant_wf)

lemma cap_delegate_wf:
  assumes "cap_wf cs"
  shows "cap_wf (snd (cap_delegate frm to c cs))"
proof (cases rule: cap_delegate_cases [of frm to c cs])
  case (copied i row)
  have "length (cap_table cs ! unat to) = CAP_SLOTS" using assms copied(3) by (simp add: cap_wf_def list_all_length)
  then have "length row = CAP_SLOTS" using copied(4) by (simp add: insert_first_Some_iff)
  then show ?thesis using copied(5) cap_wf_cap_update [OF assms] by simp
qed (use assms in simp_all)

lemma handle_move_wf:
  assumes "cap_wf cs"
  shows "cap_wf (snd (handle_move frm to h cs))"
  using handles.inv_drop [OF assms, of frm h] handles.inv_issue assms
  by (simp add: handle_move_eq [OF assms] Let_def split: option.split)

lemma destroy_wf: "kern_wf k \<Longrightarrow> kern_wf (snd (domain_destroy d k))"
  using set_row_payloads [of "k_boxes k" d]
  by (simp add: domain_destroy_def kern_wf_def cap_wf_remove_domain irq_wf_preserved split: option.split)

lemma spawn_wf:
  assumes "spawn_elf mp kst img l k = Inr (r, k')" and "kern_wf k"
  shows "kern_wf k'"
proof (cases "\<exists>d k1. domain_create k = Inr (d, k1)")
  case False
  then have "k' = k" using assms(1) by (auto simp: spawn_elf_def bind_res_Inr_iff split: option.splits if_splits)
  then show ?thesis using assms(2) by simp
next
  case True
  then obtain d k1 where c: "domain_create k = Inr (d, k1)" by blast
  have w1: "kern_wf k1" using assms(2) c by (auto simp: domain_create_def Let_def bind_res_Inr_iff kern_wf_def)
  have "kern_wf k3" if g: "grant_all d caps0 (cap_add_domain d (k_caps k1)) = Inr caps"
      and b: "build_program mp kst img elf d (k1\<lparr>k_caps := caps, k_boxes := ipc_add_domain d (k_boxes k1), k_pagers := pg\<rparr>) = Inr (b, k3)"
    for caps0 caps elf pg b k3
  proof -
    have "cap_wf caps" by (rule grant_all_wf [OF _ g]) (use w1 in \<open>simp add: kern_wf_def cap_add_eq_remove cap_wf_remove_domain\<close>)
    moreover obtain m ph sc where "k3 = k1\<lparr>k_caps := caps, k_boxes := ipc_add_domain d (k_boxes k1), k_pagers := pg, k_mem := m, k_phys := ph, k_sched := sc\<rparr>"
      by (rule build_program_frame [OF b]) simp
    ultimately show ?thesis using w1 set_row_payloads [of "k_boxes k1" d]
      by (simp add: kern_wf_def ipc_add_domain_def ipc_remove_domain_def)
  qed
  then show ?thesis using assms c destroy_wf
    by (auto simp: spawn_elf_def bind_res_Inr_iff Let_def split: option.splits if_splits)
qed

lemma loud_wf:
  assumes "loud_step me s s'" and "sys_wf s"
  shows "sys_wf s'"
  using assms(1)
proof cases
  case (l_spawn mp kst img d k)
  then show ?thesis using assms(2) spawn_wf [OF l_spawn(3)] by (simp add: sys_wf_def)
qed (use assms(2) in \<open>simp_all add: sys_wf_def with_caps_def destroy_wf\<close>,
    simp_all add: kern_wf_def cap_delegate_wf handle_move_wf handles.inv_issue handles.inv_drop)

text \<open>
  C91: the kernel state stays well typed under every system call. Every capability row keeps its
  32 slots and every handle row its slots, the interrupt tables keep their sizes, the key queue stays a
  ring, no port is bound twice, every queued message carries exactly 96 bytes and the console history
  stays a ring of lines within their buffers.
\<close>

theorem syscall_keeps_wf:
  assumes "me_of s = Inr me" and "me \<noteq> U64_MAX" and "sys_wf s" and "syscall_dispatch w num a1 a2 a3 s = Inr (v, s')"
  shows "sys_wf s'"
proof -
  have "(quiet_step me)\<^sup>*\<^sup>* s s' \<or> loud_step me s s'"
    using dispatch_allowed [OF assms(1)] assms(4) by (simp add: ans_all_def allowed_def)
  then show ?thesis
  proof
    assume "(quiet_step me)\<^sup>*\<^sup>* s s'"
    then show ?thesis by (induction rule: rtranclp_induct) (use assms(2,3) quiet_wf in blast)+
  qed (use assms(3) loud_wf in blast)
qed

lemma w_caller_wf: "sys_wf w_caller"
  by (simp add: sys_wf_def kern_wf_def w_caller_def w_sys_def w_kernel_def irq_wf_start kq_inv_new ipc_init_def binds_wf_def)
    (simp add: cap_wf_def w_send_caps_def CAP_SLOTS_def console_inv_def console_start_def list_all_iff)

theorem syscall_keeps_wf_witness:
  "\<exists>s'. syscall_dispatch w_world 33 2 CAP_KIND_SEND_TO 2 w_caller = Inr (Some 1, s') \<and> sys_wf s'"
  using w_delegates syscall_keeps_wf [OF w_caller_facts(1) _ w_caller_wf, of w_world 33 2 CAP_KIND_SEND_TO 2] by fastforce

section \<open>A domain without capabilities\<close>

text \<open>What the caller cannot touch without a capability.\<close>

definition untouched :: "u64 \<Rightarrow> sys \<Rightarrow> sys \<Rightarrow> bool" where
  "untouched me s s' \<longleftrightarrow>
     k_binds (s_kern s') = k_binds (s_kern s) \<and>
     handlers (k_irqs (s_kern s')) = handlers (k_irqs (s_kern s)) \<and> vectors (k_irqs (s_kern s')) = vectors (k_irqs (s_kern s)) \<and>
     (\<forall>i. i \<noteq> unat me \<longrightarrow> any_mask (k_irqs (s_kern s')) ! i = any_mask (k_irqs (s_kern s)) ! i) \<and>
     (\<forall>e. e \<noteq> me \<longrightarrow> (\<exists>ms. mailbox_row (k_boxes (s_kern s')) e = mailbox_row (k_boxes (s_kern s)) e @ ms \<and> (\<forall>m \<in> set ms. m_from m = me))) \<and>
     taken_over (s_con s') = taken_over (s_con s) \<and>
     ((\<forall>p \<in> set (dv_msix (s_dev s)). mp_domain p \<noteq> me) \<longrightarrow> s_io s' = s_io s \<and> s_dev s' = s_dev s)"

lemma untouched_same:
  assumes "k_binds (s_kern s') = k_binds (s_kern s)" and "k_irqs (s_kern s') = k_irqs (s_kern s)" and "k_boxes (s_kern s') = k_boxes (s_kern s)"
    and "taken_over (s_con s') = taken_over (s_con s)" and "s_io s' = s_io s" and "s_dev s' = s_dev s"
  shows "untouched me s s'"
  using assms by (simp add: untouched_def)

lemma untouched_trans:
  assumes "untouched me s t" and "untouched me t u"
  shows "untouched me s u"
proof -
  have "\<exists>ms. mailbox_row (k_boxes (s_kern u)) e = mailbox_row (k_boxes (s_kern s)) e @ ms \<and> (\<forall>m \<in> set ms. m_from m = me)" if e: "e \<noteq> me" for e
  proof -
    obtain a b where "mailbox_row (k_boxes (s_kern t)) e = mailbox_row (k_boxes (s_kern s)) e @ a" "\<forall>m \<in> set a. m_from m = me"
        "mailbox_row (k_boxes (s_kern u)) e = mailbox_row (k_boxes (s_kern t)) e @ b" "\<forall>m \<in> set b. m_from m = me"
      using assms e unfolding untouched_def by blast
    then show ?thesis by (intro exI [of _ "a @ b"]) auto
  qed
  then show ?thesis using assms by (simp add: untouched_def)
qed

lemma mail_ok_rows:
  assumes "mail_ok me s b" and "e \<noteq> me"
  shows "\<exists>ms. mailbox_row b e = mailbox_row (k_boxes (s_kern s)) e @ ms \<and> (\<forall>m \<in> set ms. m_from m = me)"
proof -
  let ?old = "k_boxes (s_kern s)"
  from assms(1) have "b = ?old \<or> (\<exists>q. unat me < length ?old \<and> b = ?old[unat me := q]) \<or>
      (\<exists>(to :: u64) msg. unat to < length ?old \<and> b = ?old[unat to := ?old ! unat to @ [msg]] \<and> m_from msg = me)"
    unfolding mail_ok_def Let_def by blast
  then show ?thesis
  proof (elim disjE exE conjE)
    fix to :: u64 and msg assume q: "unat to < length ?old" "b = ?old[unat to := ?old ! unat to @ [msg]]" "m_from msg = me"
    show ?thesis unfolding q(2)
      by (cases "e = to") (use q(1,3) in \<open>auto simp: mailbox_row_update mailbox_row_in\<close>)
  qed (use assms(2) in \<open>simp_all add: mailbox_row_update\<close>)
qed

lemma take_pending_tables:
  "handlers (snd (take_pending_any msk d q)) = handlers q \<and> vectors (snd (take_pending_any msk d q)) = vectors q \<and>
   any_mask (snd (take_pending_any msk d q)) = any_mask q"
proof -
  have "handlers (snd (take_pending_from is msk d q)) = handlers q \<and> vectors (snd (take_pending_from is msk d q)) = vectors q \<and>
      any_mask (snd (take_pending_from is msk d q)) = any_mask q" for "is" by (induction "is") auto
  then show ?thesis by (simp add: take_pending_any_def)
qed

lemma no_ports: "held cs d = {} \<Longrightarrow> \<not> has_port d port cs \<and> \<not> has_net_port d port cs"
  by (auto simp: has_port_def has_net_port_def held_iff vec_get_def list_ex_iff split: option.splits capability.splits)

lemma quiet_untouched:
  assumes "quiet_step me s s'" and "holds s me = {}"
  shows "untouched me s s'"
  using assms(1)
proof cases
  case (q_mail b sc)
  then show ?thesis using mail_ok_rows [OF q_mail(2)] by (simp add: untouched_def with_ipc_def) (simp add: with_kern_def)
next
  case (q_take msk)
  then show ?thesis using take_pending_tables [of msk me "k_irqs (s_kern s)"] by (simp add: untouched_def with_irqs_def) (simp add: with_kern_def)
next
  case (q_mask msk)
  then show ?thesis by (simp add: untouched_def with_irqs_def set_any_mask_def) (simp add: with_kern_def)
next
  case q_unmask
  then show ?thesis by (simp add: untouched_def with_irqs_def clear_any_mask_def) (simp add: with_kern_def)
next
  case (q_bind port)
  then show ?thesis using no_ports [OF assms(2), of port] by (simp add: untouched_def net_bind_def with_kern_def)
next
  case (q_msix h ok)
  then show ?thesis using enable_msix_frame [OF q_msix] by (simp add: untouched_def)
qed (use assms(2) no_ports [OF assms(2)] in \<open>auto intro!: untouched_same simp: with_kern_def with_con_def request_destroy_def\<close>)

text \<open>
  C92: a domain that holds no capability affects no one else. Whatever call it makes, no domain's
  capabilities change, no domain is created or destroyed, no pager, port binding or interrupt
  registration changes, no other domain's interrupt mask changes, no mailbox of another domain loses a
  message or gets one that does not name the caller as its sender, the display stays with its owner, and no
  hardware register is written unless an MSI-X table was prepared for the caller.
\<close>

theorem powerless_domain:
  assumes "me_of s = Inr me" and "held (k_caps (s_kern s)) me = {}" and "syscall_dispatch w num a1 a2 a3 s = Inr (v, s')"
  shows "(\<forall>e. held (k_caps (s_kern s')) e = held (k_caps (s_kern s)) e) \<and> k_doms (s_kern s') = k_doms (s_kern s) \<and>
    k_pagers (s_kern s') = k_pagers (s_kern s) \<and> untouched me s s'"
proof -
  have "(quiet_step me)\<^sup>*\<^sup>* s s' \<or> loud_step me s s'"
    using dispatch_allowed [OF assms(1)] assms(3) by (simp add: ans_all_def allowed_def)
  then show ?thesis
  proof
    assume r: "(quiet_step me)\<^sup>*\<^sup>* s s'"
    then have "untouched me s s'"
    proof (induction rule: rtranclp_induct)
      case base
      then show ?case by (simp add: untouched_same)
    next
      case (step t u)
      from step(2) quiet_frames(1) [OF step(1)] assms(2) have "untouched me t u" by (intro quiet_untouched) simp_all
      with step(3) show ?case by (rule untouched_trans)
    qed
    then show ?thesis using quiet_frames [OF r] by simp
  next
    assume "loud_step me s s'"
    then show ?thesis by cases (use assms(2) in \<open>auto simp: with_caps_def held_def with_kern_def intro!: untouched_same\<close>)
  qed
qed

definition w_powerless :: sys where
  "w_powerless = w_sys []"

theorem powerless_domain_witness:
  "\<exists>s'. syscall_dispatch w_world 29 7 0 0 w_powerless = Inr (Some 0, s') \<and> held (k_caps (s_kern s')) 1 = {} \<and> s_io s' = []"
proof -
  have me: "me_of w_powerless = Inr 0" by (simp add: me_of_def w_powerless_def w_sys_def current_domain_task)
  have h: "held (k_caps (s_kern w_powerless)) d = {}" for d
    by (auto simp: w_powerless_def w_sys_def w_kernel_def held_iff cap_init_def)
  have t: "syscall_dispatch w_world 29 = (\<lambda>a1 _ _. sys_cap_issue a1)"
    by (simp add: fun_eq_iff syscall_dispatch_def syscall_table_def sys_numbers)
  have f: "find_index (\<lambda>s. s = None) (replicate HANDLE_SLOTS (None :: u64 option)) = Some 0" by (simp add: find_index_Some_iff HANDLE_SLOTS_def)
  have "fst (handle_issue 0 7 (cap_init 2)) = 0"
    by (simp add: handle_issue_def cap_init_def vec_get_def insert_first_def f)
  then obtain cs where "handle_issue 0 7 (k_caps (s_kern w_powerless)) = (0, cs)"
    by (cases "handle_issue 0 7 (cap_init 2)") (simp add: w_powerless_def w_sys_def w_kernel_def)
  then have s: "syscall_dispatch w_world 29 7 0 0 w_powerless = Inr (Some 0, with_caps w_powerless cs)"
    by (simp add: t sys_cap_issue_def me ret_def)
  have io: "s_io w_powerless = []" "dv_msix (s_dev w_powerless) = []" by (simp_all add: w_powerless_def w_sys_def dev_start_def)
  from powerless_domain [OF me h s] h io s show ?thesis by (auto simp: untouched_def)
qed

section \<open>Refusals\<close>

text \<open>The capability each guarded call needs, and what it returns without it.\<close>

definition required :: "u64 \<Rightarrow> u64 \<Rightarrow> (u64 \<times> capability \<times> u64) list" where
  "required a1 a2 =
     [(SYS_SHARE_PAGE, MapInto a2, 0), (SYS_MAP_ANON, MapInto a1, 0), (SYS_REGISTER_IRQ, Irq (ucast a1), 0),
      (SYS_MAP_MMIO, Mmio (a1 AND NOT 0xFFF), 0), (SYS_HANDLE_SEND, SendTo a1, U64_MAX), (SYS_CAP_SEND, SendTo a1, 0),
      (SYS_SPAWN_ELF, Spawn, U64_MAX), (SYS_SPAWN_ELF_AT, Spawn, U64_MAX), (SYS_SPAWN_ELF_MODULE, Spawn, U64_MAX),
      (SYS_FB_INFO, Fb, 0), (SYS_FB_MAP, Fb, 0), (SYS_FB_TAKEOVER, Fb, 0), (SYS_DOMAIN_DESTROY, Spawn, 0),
      (SYS_CAP_AUDIT, Spawn, 0), (SYS_POWEROFF, Spawn, 0), (SYS_REBOOT, Spawn, 0)]"

lemma gated_refused:
  assumes "me_of s = Inr me" and "unat me < length (cap_table (k_caps (s_kern s)))" and "c \<notin> holds s me"
  shows "gated c fail f s = Inr (Some fail, s)"
  using assms by (simp add: gated_def has_cap_def cap_has_iff ret_def)

text \<open>
  C93: a refused call does nothing. For each of the sixteen guarded calls, a caller that
  lacks the capability gets the documented failure value and the whole state is unchanged; a call
  number that is not in use returns 0 and changes nothing.
\<close>

theorem refused_calls_inert:
  assumes "me_of s = Inr me" and "unat me < length (cap_table (k_caps (s_kern s)))"
  shows "(\<forall>(num, c, fail) \<in> set (required a1 a2). c \<notin> held (k_caps (s_kern s)) me \<longrightarrow> syscall_dispatch w num a1 a2 a3 s = Inr (Some fail, s)) \<and>
    (\<forall>num. num \<notin> set (map fst (syscall_table w)) \<longrightarrow> syscall_dispatch w num a1 a2 a3 s = Inr (Some 0, s))"
proof
  note G = gated_refused [OF assms]
  show "\<forall>(num, c, fail) \<in> set (required a1 a2). c \<notin> held (k_caps (s_kern s)) me \<longrightarrow> syscall_dispatch w num a1 a2 a3 s = Inr (Some fail, s)"
    unfolding required_def
    by (simp add: syscall_dispatch_def syscall_table_def sys_numbers G sys_share_page_def sys_map_anon_def sys_register_irq_def
        sys_map_mmio_def sys_handle_send_def sys_cap_send_def sys_spawn_elf_def sys_spawn_elf_at_def sys_spawn_elf_module_def
        sys_fb_info_def sys_fb_map_def sys_fb_takeover_def sys_domain_destroy_def sys_cap_audit_def sys_poweroff_def sys_reboot_def Let_def)
  show "\<forall>num. num \<notin> set (map fst (syscall_table w)) \<longrightarrow> syscall_dispatch w num a1 a2 a3 s = Inr (Some 0, s)"
  proof (intro allI impI)
    fix num assume "num \<notin> set (map fst (syscall_table w))"
    then have "map_of (syscall_table w) num = None" by (simp add: map_of_eq_None_iff)
    then show "syscall_dispatch w num a1 a2 a3 s = Inr (Some 0, s)" by (simp add: syscall_dispatch_def ret_def)
  qed
qed

theorem refused_calls_inert_witness:
  "syscall_dispatch w_world SYS_REBOOT 0 0 0 w_powerless = Inr (Some 0, w_powerless) \<and>
   syscall_dispatch w_world 11 0 0 0 w_powerless = Inr (Some 0, w_powerless)"
proof -
  have me: "me_of w_powerless = Inr 0" by (simp add: me_of_def w_powerless_def w_sys_def current_domain_task)
  have l: "unat (0 :: u64) < length (cap_table (k_caps (s_kern w_powerless)))"
    by (simp add: w_powerless_def w_sys_def w_kernel_def cap_init_def)
  have h: "Spawn \<notin> held (k_caps (s_kern w_powerless)) 0"
    by (auto simp: w_powerless_def w_sys_def w_kernel_def held_iff cap_init_def)
  have r: "(SYS_REBOOT, Spawn, 0) \<in> set (required 0 0)" by (simp add: required_def)
  have n: "11 \<notin> set (map fst (syscall_table w_world))" by (simp add: syscall_table_def sys_numbers)
  note R = refused_calls_inert [OF me l, of 0 0 w_world 0]
  have "syscall_dispatch w_world SYS_REBOOT 0 0 0 w_powerless = Inr (Some 0, w_powerless)"
    using bspec [OF conjunct1 [OF R] r] h by simp
  moreover have "syscall_dispatch w_world 11 0 0 0 w_powerless = Inr (Some 0, w_powerless)" using R n by blast
  ultimately show ?thesis ..
qed

end
