(* ===== verification/Spec2Isabelle.thy ===== *)
theory Spec2Isabelle
  imports Cap Frames Paging Mapper Key Klog Elf Sched Ipc Pager Irq Net Domain Exec Unicode Console Usermem Pci Device Acpi Syscall Authority
begin

text \<open>
  A verification development for the kernel of morion-os.
\<close>

end
